(* ===== verification/Prelude.thy ===== *)
theory Prelude
  imports Main "HOL-Library.Word"
begin

text \<open>
  What every component of the development shares: the C integer types as words, the
  result type of a kernel operation, the collections of rewrite rules the component
  theories fill, and small facts about words, lists and functions.
\<close>

unbundle bit_operations_syntax

section \<open>C integer types\<close>

text \<open>
  \<open>include/types.h\<close>: the fixed-width types. A signed type is the word of the same width,
  read with \<open>sint\<close>; the source's comparisons of signed values are written with \<open>sint\<close>.
\<close>

type_synonym u8 = "8 word"
type_synonym u16 = "16 word"
type_synonym u32 = "32 word"
type_synonym u64 = "64 word"
type_synonym i32 = "32 word"
type_synonym i64 = "64 word"

section \<open>Results of kernel operations\<close>

text \<open>
  \<open>panic\<close> (\<open>include/log.h\<close>) prints its message and calls \<open>shutdown\<close>, which never returns:
  an operation that panics stops with \<open>Panic\<close> and its message. \<open>Fault\<close> is an access the C
  program must not make (a null or dangling object pointer, an index past the end of an
  array, a division by zero): nothing is claimed of the state after it. \<open>Diverge\<close> is a loop
  that does not end, or a loop that was given too little fuel.
\<close>

datatype stop = Panic string | Fault string | Diverge

type_synonym 'a res = "stop + 'a"

definition bindR :: "'a res \<Rightarrow> ('a \<Rightarrow> 'b res) \<Rightarrow> 'b res" where
  "bindR r f = (case r of Inl e \<Rightarrow> Inl e | Inr x \<Rightarrow> f x)"

definition assertR :: "bool \<Rightarrow> stop \<Rightarrow> 'a res \<Rightarrow> 'a res" where
  "assertR b e r = (if b then r else Inl e)"

definition from_opt :: "'a option \<Rightarrow> 'a res" where
  "from_opt r = (case r of None \<Rightarrow> Inl Diverge | Some x \<Rightarrow> Inr x)"

lemma bindR_Inl [simp]: "bindR (Inl e) f = Inl e"
  by (simp add: bindR_def)

lemma bindR_Inr [simp]: "bindR (Inr x) f = f x"
  by (simp add: bindR_def)

lemma bindR_id [simp]: "bindR r Inr = r"
  by (cases r) simp_all

lemma bindR_eq_Inr: "bindR r f = Inr y \<longleftrightarrow> (\<exists>x. r = Inr x \<and> f x = Inr y)"
  by (cases r) auto

lemma bindR_eq_Inl: "bindR r f = Inl e \<longleftrightarrow> r = Inl e \<or> (\<exists>x. r = Inr x \<and> f x = Inl e)"
  by (cases r) auto

lemma bindR_InrE:
  assumes "bindR r f = Inr y"
  obtains x where "r = Inr x" and "f x = Inr y"
  using assms by (auto simp: bindR_eq_Inr)

lemma bindR_assoc: "bindR (bindR r f) g = bindR r (\<lambda>x. bindR (f x) g)"
  by (cases r) auto

lemma assertR_True [simp]: "b \<Longrightarrow> assertR b e r = r"
  by (simp add: assertR_def)

lemma assertR_False [simp]: "\<not> b \<Longrightarrow> assertR b e r = Inl e"
  by (simp add: assertR_def)

lemma assertR_eq_Inr: "assertR b e r = Inr y \<longleftrightarrow> b \<and> r = Inr y"
  by (simp add: assertR_def)

lemma from_opt_Some [simp]: "from_opt (Some x) = Inr x"
  by (simp add: from_opt_def)

lemma from_opt_None [simp]: "from_opt None = Inl Diverge"
  by (simp add: from_opt_def)

lemma from_opt_eq_Inr: "from_opt r = Inr x \<longleftrightarrow> r = Some x"
  by (cases r) auto

section \<open>Collections\<close>

named_theorems mem_simps \<open>loads after stores in the byte-addressed memory\<close>
named_theorems addr_neq \<open>different offsets in aligned blocks are different addresses\<close>
named_theorems rd_wr \<open>reads after writes in block buffers\<close>
named_theorems res_simps \<open>inversion of a successful result\<close>

lemmas [res_simps] = bindR_eq_Inr assertR_eq_Inr from_opt_eq_Inr

section \<open>Words\<close>

lemma unat_lt_pow64 [simp]: "unat (x :: u64) < 18446744073709551616"
  using unsigned_less [of x] by simp

lemma unat_lt_pow32 [simp]: "unat (x :: u32) < 4294967296"
  using unsigned_less [of x] by simp

lemma unat_lt_pow16 [simp]: "unat (x :: u16) < 65536"
  using unsigned_less [of x] by simp

lemma unat_lt_pow8 [simp]: "unat (x :: u8) < 256"
  using unsigned_less [of x] by simp

lemma unat_add64: "unat (a + b :: u64) = (unat a + unat b) mod 18446744073709551616"
  by (simp add: unat_word_ariths)

lemma unat_add64_small: "unat a + unat b < 18446744073709551616 \<Longrightarrow> unat (a + b :: u64) = unat a + unat b"
  by (simp add: unat_add64)

lemma unat_sub_le: "b \<le> a \<Longrightarrow> unat (a - b :: 'a::len word) = unat a - unat b"
  by (simp add: unat_sub_if' word_le_nat_alt)

lemma unat_of_nat64 [simp]: "n < 18446744073709551616 \<Longrightarrow> unat (of_nat n :: u64) = n"
  by (simp add: unat_of_nat)

lemma unat_of_nat32 [simp]: "n < 4294967296 \<Longrightarrow> unat (of_nat n :: u32) = n"
  by (simp add: unat_of_nat)

lemma word_eq_unatI: "unat (a :: 'a::len word) = unat b \<Longrightarrow> a = b"
  by (simp add: word_unat_eq_iff)

lemma unat_mask_low: "unat (x AND mask n) = unat x mod 2 ^ n" for x :: "'a::len word"
proof -
  have "unat (x AND mask n) = take_bit n (unat x)"
    by (simp only: unsigned_take_bit_eq flip: take_bit_eq_mask)
  then show ?thesis
    by (simp add: take_bit_eq_mod)
qed

lemma add_right_neq: "i \<noteq> j \<Longrightarrow> a + i \<noteq> a + (j :: 'a::len word)"
  by simp

lemma neq_add_self: "i \<noteq> 0 \<Longrightarrow> a \<noteq> a + (i :: 'a::len word)"
  by simp

lemma unat_neg_sint: "sint v < 0 \<Longrightarrow> int (unat (- v :: u64)) = - sint v"
proof -
  assume neg: "sint v < 0"
  have m: "- v = word_of_int (- sint v)"
    by simp
  have "- sint v \<le> 2 ^ 63"
    using sint_ge [of v] by simp
  then have "uint (word_of_int (- sint v) :: u64) = - sint v"
    using neg by (subst uint_word_of_int_eq) (simp add: take_bit_int_eq_self)
  then show ?thesis
    unfolding m by simp
qed

lemma unat_sint_pos: "0 \<le> sint v \<Longrightarrow> int (unat (v :: u64)) = sint v"
proof -
  assume neg: "0 \<le> sint v"
  have "uint (word_of_int (sint v) :: u64) = sint v"
    using neg sint_lt [of v] by (subst uint_word_of_int_eq) (simp add: take_bit_int_eq_self)
  then show ?thesis
    by simp
qed

lemma sint_scast_i64: "sint (scast (v :: i32) :: u64) = sint v"
  by (rule sint_up_scast) (simp add: is_up)

lemma ucast_of_nat_32 [simp]: "(ucast (of_nat n :: u64) :: u32) = of_nat n"
  by transfer (simp add: take_bit_take_bit)

section \<open>Lists and functions\<close>

lemma fun_upd_list_frame: "(\<And>x. x \<in> set xs \<Longrightarrow> f x = g x) \<Longrightarrow> map f xs = map g xs"
  by simp

end
