(* ===== verification/CMem.thy ===== *)
theory CMem
  imports Prelude
begin

text \<open>
  The kernel's byte-addressed memory and the freestanding C library of \<open>lib/string.c\<close>
  that works on it: little-endian loads and stores of the widths the kernel uses, with
  their load-after-store rules, and \<open>memcpy\<close>, \<open>memcmp\<close>, \<open>memset\<close>, \<open>memmove\<close>, \<open>strcmp\<close>,
  \<open>strcpy\<close>, \<open>strcat\<close> and \<open>strlen\<close>, loop for loop.
\<close>

section \<open>Memory\<close>

text \<open>
  The kernel runs on identity-mapped physical memory, so a pointer is a 64-bit address
  and the memory a function from addresses to bytes. RISC-V is little-endian.
\<close>

type_synonym mem = "u64 \<Rightarrow> u8"

definition ld64 :: "mem \<Rightarrow> u64 \<Rightarrow> u64" where
  "ld64 m a = ucast (m a) OR push_bit 8 (ucast (m (a + 1))) OR
     push_bit 16 (ucast (m (a + 2))) OR push_bit 24 (ucast (m (a + 3))) OR
     push_bit 32 (ucast (m (a + 4))) OR push_bit 40 (ucast (m (a + 5))) OR
     push_bit 48 (ucast (m (a + 6))) OR push_bit 56 (ucast (m (a + 7)))"

definition st64 :: "mem \<Rightarrow> u64 \<Rightarrow> u64 \<Rightarrow> mem" where
  "st64 m a v = (\<lambda>x. if unat (x - a) < 8 then ucast (drop_bit (8 * unat (x - a)) v) else m x)"

definition ld32 :: "mem \<Rightarrow> u64 \<Rightarrow> u32" where
  "ld32 m a = ucast (m a) OR push_bit 8 (ucast (m (a + 1))) OR
     push_bit 16 (ucast (m (a + 2))) OR push_bit 24 (ucast (m (a + 3)))"

definition st32 :: "mem \<Rightarrow> u64 \<Rightarrow> u32 \<Rightarrow> mem" where
  "st32 m a v = (\<lambda>x. if unat (x - a) < 4 then ucast (drop_bit (8 * unat (x - a)) v) else m x)"

lemma bit_byte_of64:
  "n < 64 \<Longrightarrow> bit (push_bit k (ucast (ucast (drop_bit k v) :: u8)) :: u64) n \<longleftrightarrow> k \<le> n \<and> n < k + 8 \<and> bit v n"
  for v :: u64
  by (auto simp: bit_simps)

lemma bit_byte_of32:
  "n < 32 \<Longrightarrow> bit (push_bit k (ucast (ucast (drop_bit k v) :: u8)) :: u32) n \<longleftrightarrow> k \<le> n \<and> n < k + 8 \<and> bit v n"
  for v :: u32
  by (auto simp: bit_simps)

lemma bytes_combine64:
  "(ucast (ucast v :: u8) :: u64) OR push_bit 8 (ucast (ucast (drop_bit 8 v) :: u8)) OR
     push_bit 16 (ucast (ucast (drop_bit 16 v) :: u8)) OR push_bit 24 (ucast (ucast (drop_bit 24 v) :: u8)) OR
     push_bit 32 (ucast (ucast (drop_bit 32 v) :: u8)) OR push_bit 40 (ucast (ucast (drop_bit 40 v) :: u8)) OR
     push_bit 48 (ucast (ucast (drop_bit 48 v) :: u8)) OR push_bit 56 (ucast (ucast (drop_bit 56 v) :: u8)) = v"
  (is "?w = v")
proof (rule bit_word_eqI)
  fix n
  assume "n < LENGTH(64)"
  then have n: "n < 64" by simp
  show "bit ?w n = bit v n"
    unfolding bit_or_iff bit_byte_of64 [OF n] using bit_byte_of64 [OF n, of 0 v] n
    by (cases "bit v n"; simp; arith)
qed

lemma bytes_combine32:
  "(ucast (ucast v :: u8) :: u32) OR push_bit 8 (ucast (ucast (drop_bit 8 v) :: u8)) OR
     push_bit 16 (ucast (ucast (drop_bit 16 v) :: u8)) OR push_bit 24 (ucast (ucast (drop_bit 24 v) :: u8)) = v"
  (is "?w = v")
proof (rule bit_word_eqI)
  fix n
  assume "n < LENGTH(32)"
  then have n: "n < 32" by simp
  show "bit ?w n = bit v n"
    unfolding bit_or_iff bit_byte_of32 [OF n] using bit_byte_of32 [OF n, of 0 v] n
    by (cases "bit v n"; simp; arith)
qed

lemma ld64_st64 [simp, mem_simps]: "ld64 (st64 m a v) a = v"
  by (simp add: ld64_def st64_def bytes_combine64)

lemma ld32_st32 [simp, mem_simps]: "ld32 (st32 m a v) a = v"
  by (simp add: ld32_def st32_def bytes_combine32)

subsection \<open>Alignment\<close>

definition al4 :: "u64 \<Rightarrow> bool" where
  "al4 a \<longleftrightarrow> unat a mod 4 = 0"

definition al8 :: "u64 \<Rightarrow> bool" where
  "al8 a \<longleftrightarrow> unat a mod 8 = 0"

definition al_page :: "u64 \<Rightarrow> bool" where
  "al_page a \<longleftrightarrow> unat a mod 4096 = 0"

lemma al8_al4 [intro, simp]: "al8 a \<Longrightarrow> al4 a"
  unfolding al8_def al4_def by presburger

lemma mod_divisor: "(x :: nat) mod n = 0 \<Longrightarrow> k dvd n \<Longrightarrow> x mod k = 0"
  by (meson dvd_trans mod_eq_0_iff_dvd)

lemma al_page_mod: "al_page a \<Longrightarrow> k dvd 4096 \<Longrightarrow> unat a mod k = 0"
  unfolding al_page_def by (rule mod_divisor)

lemma al_page_al8 [intro, simp]: "al_page a \<Longrightarrow> al8 a"
  unfolding al8_def by (rule al_page_mod) simp_all

lemma aligned_add_unat:
  assumes "unat (a :: u64) mod n = 0" and "unat i < n" and "n dvd 18446744073709551616"
  shows "unat (a + i) = unat a + unat i"
proof -
  obtain k where k: "unat a = n * k" using assms(1) by (auto simp: mod_eq_0_iff_dvd)
  obtain q where q: "18446744073709551616 = n * q" using assms(3) by blast
  have "n * k < n * q" using k q unat_lt_pow64 [of a] by simp
  then have "Suc k \<le> q" by simp
  then have "n * Suc k \<le> n * q" by (rule mult_le_mono2)
  then have "unat a + unat i < 18446744073709551616"
    using k q assms(2) by simp
  then show ?thesis by (rule unat_add64_small)
qed

lemma aligned_add_eq:
  assumes "unat (a :: u64) mod n = 0" and "unat b mod n = 0" and "unat i < n" and "unat j < n"
    and "n dvd 18446744073709551616" and "a + i = b + j"
  shows "a = b \<and> i = j"
proof -
  have e: "unat a + unat i = unat b + unat j"
    using aligned_add_unat [OF assms(1,3,5)] aligned_add_unat [OF assms(2,4,5)] assms(6) by simp
  have "(unat a + unat i) mod n = unat i" "(unat b + unat j) mod n = unat j"
    using assms(1-4) by (metis add.right_neutral mod_add_left_eq mod_less add_0)+
  with e have "unat i = unat j" by simp
  with e show ?thesis by (simp add: word_unat_eq_iff)
qed

lemma page_add_unat: "al_page p \<Longrightarrow> unat i < 4096 \<Longrightarrow> unat (p + i) = unat p + unat i"
  unfolding al_page_def by (rule aligned_add_unat) auto

lemma page_add_neq [addr_neq]:
  "al_page p \<Longrightarrow> al_page q \<Longrightarrow> p \<noteq> q \<Longrightarrow> unat i < 4096 \<Longrightarrow> unat j < 4096 \<Longrightarrow> p + i \<noteq> q + j"
  unfolding al_page_def using aligned_add_eq [of p 4096 q i j] by auto

lemma page_neq_add [addr_neq]:
  "al_page p \<Longrightarrow> al_page q \<Longrightarrow> p \<noteq> q \<Longrightarrow> unat j < 4096 \<Longrightarrow> p \<noteq> q + j"
  "al_page p \<Longrightarrow> al_page q \<Longrightarrow> p \<noteq> q \<Longrightarrow> unat j < 4096 \<Longrightarrow> q + j \<noteq> p"
  using page_add_neq [of p q 0 j] by auto

lemma al8_add_neq:
  "al8 p \<Longrightarrow> al8 q \<Longrightarrow> p \<noteq> q \<Longrightarrow> unat i < 8 \<Longrightarrow> unat j < 8 \<Longrightarrow> p + i \<noteq> q + j"
  unfolding al8_def using aligned_add_eq [of p 8 q i j] by auto

lemma al4_add_neq:
  "al4 p \<Longrightarrow> al4 q \<Longrightarrow> p \<noteq> q \<Longrightarrow> unat i < 4 \<Longrightarrow> unat j < 4 \<Longrightarrow> p + i \<noteq> q + j"
  unfolding al4_def using aligned_add_eq [of p 4 q i j] by auto

lemma unat_mod_add64: "n dvd 18446744073709551616 \<Longrightarrow> unat (a + b :: u64) mod n = (unat a + unat b) mod n"
  by (simp add: unat_add64 mod_mod_cancel)

lemma al_page_add_al8 [simp]: "al_page p \<Longrightarrow> al8 (p + i) = al8 i"
proof -
  assume "al_page p"
  then have "unat p mod 8 = 0" by (rule al_page_mod) simp
  then show ?thesis
    by (simp add: al8_def unat_mod_add64 mod_add_left_eq [of "unat p" 8, symmetric])
qed

lemma al_page_add_al4 [simp]: "al_page p \<Longrightarrow> al4 (p + i) = al4 i"
proof -
  assume "al_page p"
  then have "unat p mod 4 = 0" by (rule al_page_mod) simp
  then show ?thesis
    by (simp add: al4_def unat_mod_add64 mod_add_left_eq [of "unat p" 4, symmetric])
qed

subsection \<open>Load after store\<close>

lemma st64_other: "\<not> unat (x - a) < 8 \<Longrightarrow> st64 m a v x = m x"
  by (simp add: st64_def)

lemma st32_other: "\<not> unat (x - a) < 4 \<Longrightarrow> st32 m a v x = m x"
  by (simp add: st32_def)

lemma ld64_cong: "(\<And>j. unat j < 8 \<Longrightarrow> m (b + j) = m' (b + j)) \<Longrightarrow> ld64 m b = ld64 m' b"
proof -
  assume h: "\<And>j. unat j < 8 \<Longrightarrow> m (b + j) = m' (b + j)"
  show ?thesis
    using h [of 0] h [of 1] h [of 2] h [of 3] h [of 4] h [of 5] h [of 6] h [of 7]
    by (simp add: ld64_def)
qed

lemma ld32_cong: "(\<And>j. unat j < 4 \<Longrightarrow> m (b + j) = m' (b + j)) \<Longrightarrow> ld32 m b = ld32 m' b"
proof -
  assume h: "\<And>j. unat j < 4 \<Longrightarrow> m (b + j) = m' (b + j)"
  show ?thesis
    using h [of 0] h [of 1] h [of 2] h [of 3] by (simp add: ld32_def)
qed

lemma sub_add_cancel64: "a + (x - a) = (x :: u64)"
  by simp

lemma al8_apart: "al8 w \<Longrightarrow> al8 a \<Longrightarrow> w \<noteq> a \<Longrightarrow> unat j < 8 \<Longrightarrow> \<not> unat (a + j - w) < 8"
proof
  assume h: "al8 w" "al8 a" "w \<noteq> a" "unat j < 8" "unat (a + j - w) < 8"
  have "w + (a + j - w) \<noteq> a + j" using h(1-3) h(5) h(4) by (rule al8_add_neq)
  then show False by simp
qed

lemma ld64_st64_neq [simp, mem_simps]:
  assumes "al8 a" and "al8 b" and "a \<noteq> b"
  shows "ld64 (st64 m a v) b = ld64 m b"
proof (rule ld64_cong)
  fix j :: u64
  assume "unat j < 8"
  with assms have "\<not> unat (b + j - a) < 8" by (rule al8_apart)
  then show "st64 m a v (b + j) = m (b + j)" by (rule st64_other)
qed

lemma ld32_st32_neq [simp, mem_simps]:
  assumes "al4 a" and "al4 b" and "a \<noteq> b"
  shows "ld32 (st32 m a v) b = ld32 m b"
proof (rule ld32_cong)
  fix j :: u64
  assume "unat j < 4"
  then have "\<not> unat (b + j - a) < 4"
    using al4_add_neq [OF assms, of "b + j - a" j] sub_add_cancel64 [of a "b + j"] by auto
  then show "st32 m a v (b + j) = m (b + j)" by (rule st32_other)
qed

lemma split8: "unat (j :: u64) < 8 \<Longrightarrow> unat j < 4 \<or> (\<exists>k. j = 4 + k \<and> unat k < 4)"
proof -
  assume "unat j < 8"
  show ?thesis
  proof (cases "unat j < 4")
    case False
    then have "unat (j - 4) = unat j - 4"
      by (intro unat_sub_le [of 4 j, simplified]) (simp add: word_le_nat_alt)
    then have "j = 4 + (j - 4) \<and> unat (j - 4) < 4" using \<open>unat j < 8\<close> by simp
    then show ?thesis by blast
  qed simp
qed

lemma al4_plus4: "al8 a \<Longrightarrow> al4 (a + 4)"
proof -
  assume "al8 a"
  then have "unat a mod 4 = 0" unfolding al8_def by presburger
  then show ?thesis
    by (simp add: al4_def unat_mod_add64 mod_add_left_eq [of "unat a" 4, symmetric])
qed

lemma ld64_st32_neq [simp, mem_simps]:
  assumes "al4 a" and "al8 b" and "a \<noteq> b" and "a \<noteq> b + 4"
  shows "ld64 (st32 m a v) b = ld64 m b"
proof (rule ld64_cong)
  fix j :: u64
  assume "unat j < 8"
  then consider "unat j < 4" | k where "j = 4 + k" "unat k < 4" using split8 by blast
  then have "\<not> unat (b + j - a) < 4"
  proof cases
    case 1
    then show ?thesis
      using al4_add_neq [of a b "b + j - a" j] assms sub_add_cancel64 [of a "b + j"] by auto
  next
    case 2
    then show ?thesis
      using al4_add_neq [of a "b + 4" "b + j - a" k] assms sub_add_cancel64 [of a "b + j"]
      by (auto simp: al4_plus4 add.assoc)
  qed
  then show "st32 m a v (b + j) = m (b + j)" by (rule st32_other)
qed

lemma ld32_st64_neq [simp, mem_simps]:
  assumes "al8 a" and "al4 b" and "b \<noteq> a" and "b \<noteq> a + 4"
  shows "ld32 (st64 m a v) b = ld32 m b"
proof (rule ld32_cong)
  fix j :: u64
  assume j: "unat j < 4"
  have "\<not> unat (b + j - a) < 8"
  proof
    assume "unat (b + j - a) < 8"
    then consider "unat (b + j - a) < 4" | k where "b + j - a = 4 + k" "unat k < 4"
      using split8 by blast
    then show False
    proof cases
      case 1
      then show ?thesis
        using al4_add_neq [of a b "b + j - a" j] assms j sub_add_cancel64 [of a "b + j"] by auto
    next
      case 2
      then have "a + 4 + k = b + j" by (simp add: algebra_simps)
      then show ?thesis
        using al4_add_neq [of "a + 4" b k j] assms j 2 by (auto simp: al4_plus4)
    qed
  qed
  then show "st64 m a v (b + j) = m (b + j)" by (rule st64_other)
qed

subsection \<open>Updates confined to given words\<close>

text \<open>\<open>m'\<close> differs from \<open>m\<close> at most inside the 8-byte words at the addresses \<open>W\<close>.\<close>

definition upd_only :: "u64 set \<Rightarrow> mem \<Rightarrow> mem \<Rightarrow> bool" where
  "upd_only W m m' \<longleftrightarrow> (\<forall>x. (\<forall>w \<in> W. \<not> unat (x - w) < 8) \<longrightarrow> m' x = m x)"

lemma upd_only_refl [simp]: "upd_only W m m"
  by (simp add: upd_only_def)

lemma upd_only_trans: "upd_only V m m' \<Longrightarrow> upd_only W m' m'' \<Longrightarrow> upd_only (V \<union> W) m m''"
  by (simp add: upd_only_def)

lemma upd_only_mono: "upd_only V m m' \<Longrightarrow> V \<subseteq> W \<Longrightarrow> upd_only W m m'"
  by (auto simp: upd_only_def)

lemma upd_only_trans': "upd_only W m m' \<Longrightarrow> upd_only W m' m'' \<Longrightarrow> upd_only W m m''"
  using upd_only_trans [of W m m' W m''] by simp

lemma upd_only_st64: "a \<in> W \<Longrightarrow> upd_only W m (st64 m a v)"
  by (auto simp: upd_only_def st64_def)

lemma upd_only_st32: "a \<in> W \<Longrightarrow> upd_only W m (st32 m a v)"
  by (auto simp: upd_only_def st32_def)

lemma upd_only_st32_high: "a \<in> W \<Longrightarrow> upd_only W m (st32 m (a + 4) v)"
  unfolding upd_only_def
proof (intro allI impI)
  fix x
  assume "a \<in> W" "\<forall>w \<in> W. \<not> unat (x - w) < 8"
  then have far: "\<not> unat (x - a) < 8" by blast
  have "\<not> unat (x - (a + 4)) < 4"
  proof
    assume near: "unat (x - (a + 4)) < 4"
    have "unat (4 + (x - (a + 4))) = unat (4 :: u64) + unat (x - (a + 4))"
      using near by (intro unat_add64_small) simp
    moreover have "4 + (x - (a + 4)) = x - a" by (simp add: algebra_simps)
    ultimately show False using near far by simp
  qed
  then show "st32 m (a + 4) v x = m x" by (rule st32_other)
qed

lemma upd_only_step:
  "upd_only W m m' \<Longrightarrow> a \<in> W \<Longrightarrow> upd_only W m (st64 m' a v)"
  "upd_only W m m' \<Longrightarrow> a \<in> W \<Longrightarrow> upd_only W m (st32 m' a w)"
  "upd_only W m m' \<Longrightarrow> a \<in> W \<Longrightarrow> upd_only W m (st32 m' (a + 4) w)"
  by (rule upd_only_trans', assumption, rule upd_only_st64 upd_only_st32 upd_only_st32_high, assumption)+

lemma upd_only_ld64:
  assumes "upd_only W m m'" and "\<forall>w \<in> W. al8 w" and "al8 a" and "a \<notin> W"
  shows "ld64 m' a = ld64 m a"
proof (rule ld64_cong)
  fix j :: u64
  assume "unat j < 8"
  then have "\<not> unat (a + j - w) < 8" if "w \<in> W" for w
    using al8_apart [of w a j] assms(2-4) that by blast
  then show "m' (a + j) = m (a + j)" using assms(1) by (simp add: upd_only_def)
qed

lemma upd_only_ld32:
  assumes "upd_only W m m'" and "\<forall>w \<in> W. al8 w" and "al8 a" and "a \<notin> W"
  shows "ld32 m' a = ld32 m a" and "ld32 m' (a + 4) = ld32 m (a + 4)"
proof -
  have b: "m' (a + j) = m (a + j)" if "unat j < 8" for j
  proof -
    have "\<not> unat (a + j - w) < 8" if "w \<in> W" for w
      using al8_apart [of w a j] assms(2-4) that \<open>unat j < 8\<close> by blast
    then show ?thesis using assms(1) by (simp add: upd_only_def)
  qed
  show "ld32 m' a = ld32 m a" by (rule ld32_cong) (simp add: b)
  show "ld32 m' (a + 4) = ld32 m (a + 4)"
  proof (rule ld32_cong)
    fix j :: u64
    assume "unat j < 4"
    then have "unat (4 + j) < 8" using unat_add64_small [of 4 j] by simp
    then show "m' (a + 4 + j) = m (a + 4 + j)" using b [of "4 + j"] by (simp add: add.assoc)
  qed
qed

end
