(* ===== verification/CString.thy ===== *)
theory CString
  imports CMem
begin

text \<open>
  \<open>lib/string.c\<close>, loop for loop on the byte-addressed memory. A \<open>for\<close> loop with a counter
  recurses on the number of iterations left; the \<open>while\<close> loops over strings, which end
  only if a terminator is met, are \<open>partial_function (option)\<close>s. The lemmas give each
  routine a closed form that the allocator and the page tables use.
\<close>

section \<open>The routines\<close>

fun memcpy_loop :: "mem \<Rightarrow> u64 \<Rightarrow> u64 \<Rightarrow> u64 \<Rightarrow> nat \<Rightarrow> mem" where
  "memcpy_loop m dst src i 0 = m"
| "memcpy_loop m dst src i (Suc k) = memcpy_loop (m(dst + i := m (src + i))) dst src (i + 1) k"

definition memcpy :: "mem \<Rightarrow> u64 \<Rightarrow> u64 \<Rightarrow> u64 \<Rightarrow> mem" where
  "memcpy m s1 s2 n = memcpy_loop m s1 s2 0 (unat n)"

fun memcmp_loop :: "mem \<Rightarrow> u64 \<Rightarrow> u64 \<Rightarrow> u64 \<Rightarrow> nat \<Rightarrow> int" where
  "memcmp_loop m p1 p2 i 0 = 0"
| "memcmp_loop m p1 p2 i (Suc k) =
     (if m (p1 + i) \<noteq> m (p2 + i) then uint (m (p1 + i)) - uint (m (p2 + i))
      else memcmp_loop m p1 p2 (i + 1) k)"

definition memcmp :: "mem \<Rightarrow> u64 \<Rightarrow> u64 \<Rightarrow> u64 \<Rightarrow> int" where
  "memcmp m s1 s2 n = memcmp_loop m s1 s2 0 (unat n)"

fun memset_loop :: "mem \<Rightarrow> u64 \<Rightarrow> u8 \<Rightarrow> u64 \<Rightarrow> nat \<Rightarrow> mem" where
  "memset_loop m p c i 0 = m"
| "memset_loop m p c i (Suc k) = memset_loop (m(p + i := c)) p c (i + 1) k"

definition memset :: "mem \<Rightarrow> u64 \<Rightarrow> i32 \<Rightarrow> u64 \<Rightarrow> mem" where
  "memset m s c n = memset_loop m s (ucast c) 0 (unat n)"

text \<open>The descending loop of \<open>memmove\<close>: \<open>i\<close> counts down from \<open>n\<close> and byte \<open>i - 1\<close> is copied.\<close>

fun memmove_back :: "mem \<Rightarrow> u64 \<Rightarrow> u64 \<Rightarrow> nat \<Rightarrow> mem" where
  "memmove_back m d s 0 = m"
| "memmove_back m d s (Suc k) = memmove_back (m(d + of_nat k := m (s + of_nat k))) d s k"

definition memmove :: "mem \<Rightarrow> u64 \<Rightarrow> u64 \<Rightarrow> u64 \<Rightarrow> mem" where
  "memmove m d s n =
     (if d = s then m
      else if d < s then memcpy_loop m d s 0 (unat n)
      else memmove_back m d s (unat n))"

partial_function (option) strcmp :: "mem \<Rightarrow> u64 \<Rightarrow> u64 \<Rightarrow> int option" where
  "strcmp m s1 s2 =
     (if m s1 \<noteq> 0 \<and> m s1 = m s2 then strcmp m (s1 + 1) (s2 + 1)
      else Some (uint (m s1) - uint (m s2)))"

partial_function (option) strcpy_loop :: "mem \<Rightarrow> u64 \<Rightarrow> u64 \<Rightarrow> mem option" where
  "strcpy_loop m d s =
     (if m s \<noteq> 0 then strcpy_loop (m(d := m s)) (d + 1) (s + 1) else Some (m(d := m s)))"

definition strcpy :: "mem \<Rightarrow> u64 \<Rightarrow> u64 \<Rightarrow> mem option" where
  "strcpy m dest src = strcpy_loop m dest src"

partial_function (option) str_end :: "mem \<Rightarrow> u64 \<Rightarrow> u64 option" where
  "str_end m p = (if m p \<noteq> 0 then str_end m (p + 1) else Some p)"

definition strcat :: "mem \<Rightarrow> u64 \<Rightarrow> u64 \<Rightarrow> mem option" where
  "strcat m s1 s2 = Option.bind (str_end m s1) (\<lambda>e. strcpy_loop m e s2)"

definition strlen :: "mem \<Rightarrow> u64 \<Rightarrow> u64 option" where
  "strlen m s = map_option (\<lambda>p. p - s) (str_end m s)"

section \<open>Closed forms of the block routines\<close>

lemma unat_step: "unat (y :: u64) < Suc k \<longleftrightarrow> y = 0 \<or> unat (y - 1) < k"
proof (cases "y = 0")
  case False
  then have "unat (y - 1) = unat y - 1" by (rule unat_minus_one)
  moreover have "0 < unat y" using False by (simp add: unat_gt_0)
  ultimately show ?thesis using False by auto
qed simp

lemma memset_loop_eq: "memset_loop m p c i k = (\<lambda>x. if unat (x - (p + i)) < k then c else m x)"
proof (induction k arbitrary: m i)
  case (Suc k)
  show ?case
  proof
    fix x
    have d: "x - (p + (i + 1)) = x - (p + i) - 1" by (simp add: algebra_simps)
    show "memset_loop m p c i (Suc k) x = (if unat (x - (p + i)) < Suc k then c else m x)"
      using unat_step [of "x - (p + i)" k] unfolding memset_loop.simps Suc.IH d by auto
  qed
qed simp

lemma memset_eq: "memset m s c n = (\<lambda>x. if unat (x - s) < unat n then ucast c else m x)"
  by (simp add: memset_def memset_loop_eq)

text \<open>
  A forward copy is right when no byte it writes is read later; the closed form reads every
  source byte from the memory the copy started from.
\<close>

lemma memcpy_loop_eq:
  assumes "\<And>a b. i \<le> a \<Longrightarrow> a < b \<Longrightarrow> b < i + k \<Longrightarrow> dst + of_nat a \<noteq> src + of_nat b"
    and "i + k \<le> 2 ^ 64"
  shows "memcpy_loop m dst src (of_nat i) k =
    (\<lambda>x. if i \<le> unat (x - dst) \<and> unat (x - dst) < i + k then m (src + (x - dst)) else m x)"
  using assms
proof (induction k arbitrary: m i)
  case (Suc k)
  let ?m = "m(dst + of_nat i := m (src + of_nat i))"
  have IH: "memcpy_loop ?m dst src (of_nat (Suc i)) k =
      (\<lambda>x. if Suc i \<le> unat (x - dst) \<and> unat (x - dst) < Suc i + k then ?m (src + (x - dst)) else ?m x)"
    using Suc.prems by (intro Suc.IH) auto
  have ii: "unat (of_nat i :: u64) = i" using Suc.prems(2) by simp
  show ?case
  proof
    fix x
    have rd: "?m (src + (x - dst)) = m (src + (x - dst))"
      if "Suc i \<le> unat (x - dst)" "unat (x - dst) < Suc i + k"
      using Suc.prems(1) [of i "unat (x - dst)"] that by simp
    have eq: "x = dst + of_nat i \<longleftrightarrow> unat (x - dst) = i"
    proof
      assume "unat (x - dst) = i"
      then have "of_nat (unat (x - dst)) = (of_nat i :: u64)" by simp
      then show "x = dst + of_nat i" by (simp add: algebra_simps)
    qed (simp add: ii)
    have "memcpy_loop m dst src (of_nat i) (Suc k) x =
        (if Suc i \<le> unat (x - dst) \<and> unat (x - dst) < Suc i + k then ?m (src + (x - dst)) else ?m x)"
      using IH by (simp add: add.commute)
    then show "memcpy_loop m dst src (of_nat i) (Suc k) x =
        (if i \<le> unat (x - dst) \<and> unat (x - dst) < i + Suc k then m (src + (x - dst)) else m x)"
      using rd eq by (auto simp: not_less_eq_eq le_Suc_eq)
  qed
qed (auto simp: fun_eq_iff)

lemma memmove_back_eq:
  assumes "\<And>a b. b < a \<Longrightarrow> a < k \<Longrightarrow> d + of_nat a \<noteq> s + of_nat b"
    and "k \<le> 2 ^ 64"
  shows "memmove_back m d s k = (\<lambda>x. if unat (x - d) < k then m (s + (x - d)) else m x)"
  using assms
proof (induction k arbitrary: m)
  case (Suc k)
  let ?m = "m(d + of_nat k := m (s + of_nat k))"
  have IH: "memmove_back ?m d s k = (\<lambda>x. if unat (x - d) < k then ?m (s + (x - d)) else ?m x)"
    using Suc.prems by (intro Suc.IH) auto
  have kk: "unat (of_nat k :: u64) = k" using Suc.prems(2) by simp
  show ?case
  proof
    fix x
    have rd: "?m (s + (x - d)) = m (s + (x - d))" if "unat (x - d) < k"
      using Suc.prems(1) [of "unat (x - d)" k] that by simp
    have eq: "x = d + of_nat k \<longleftrightarrow> unat (x - d) = k"
    proof
      assume "unat (x - d) = k"
      then have "of_nat (unat (x - d)) = (of_nat k :: u64)" by simp
      then show "x = d + of_nat k" by (simp add: algebra_simps)
    qed (simp add: kk)
    show "memmove_back m d s (Suc k) x = (if unat (x - d) < Suc k then m (s + (x - d)) else m x)"
      using rd eq by (auto simp: IH less_Suc_eq)
  qed
qed simp

text \<open>The ranges \<open>[d, d + n)\<close> and \<open>[s, s + n)\<close> share no byte.\<close>

definition disjoint_rng :: "u64 \<Rightarrow> u64 \<Rightarrow> nat \<Rightarrow> bool" where
  "disjoint_rng d s n \<longleftrightarrow> unat d + n \<le> unat s \<or> unat s + n \<le> unat d"

text \<open>The range \<open>[p, p + n)\<close> does not run past the end of the address space.\<close>

definition no_wrap :: "u64 \<Rightarrow> nat \<Rightarrow> bool" where
  "no_wrap p n \<longleftrightarrow> unat p + n \<le> 2 ^ 64"

lemma no_wrap_unat: "no_wrap p n \<Longrightarrow> a < n \<Longrightarrow> unat (p + of_nat a) = unat p + a"
proof -
  assume "no_wrap p n" "a < n"
  then have "unat p + a < 18446744073709551616" by (simp add: no_wrap_def)
  moreover from this have "unat (of_nat a :: u64) = a" by simp
  ultimately show ?thesis by (simp add: unat_add64_small)
qed

lemma memcpy_eq:
  assumes "disjoint_rng d s (unat n)" and "no_wrap d (unat n)" and "no_wrap s (unat n)"
  shows "memcpy m d s n = (\<lambda>x. if unat (x - d) < unat n then m (s + (x - d)) else m x)"
proof -
  have "d + of_nat a \<noteq> s + of_nat b" if "a < unat n" "b < unat n" for a b
    using no_wrap_unat [OF assms(2) that(1)] no_wrap_unat [OF assms(3) that(2)] assms(1) that
    by (auto simp: disjoint_rng_def)
  then have "memcpy_loop m d s (of_nat 0) (unat n) = (\<lambda>x. if 0 \<le> unat (x - d) \<and> unat (x - d) < 0 + unat n
      then m (s + (x - d)) else m x)"
    by (intro memcpy_loop_eq) (auto intro: less_imp_le)
  then show ?thesis by (simp add: memcpy_def)
qed

text \<open>
  C40: \<open>memmove\<close> copies the \<open>n\<close> bytes the source held before the call to the destination and
  changes nothing else, however the two ranges overlap.
\<close>

theorem memmove_correct:
  assumes "no_wrap d (unat n)" and "no_wrap s (unat n)"
  shows "memmove m d s n = (\<lambda>x. if unat (x - d) < unat n then m (s + (x - d)) else m x)"
proof -
  have un: "unat (d + of_nat a) = unat d + a" "unat (s + of_nat a) = unat s + a" if "a < unat n" for a
    using no_wrap_unat assms that by auto
  consider "d = s" | "d < s" | "s < d" by (meson linorder_less_linear)
  then show ?thesis
  proof cases
    case 1
    then show ?thesis by (simp add: memmove_def fun_eq_iff)
  next
    case 2
    then have "unat d < unat s" by (simp add: word_less_nat_alt)
    then have "d + of_nat a \<noteq> s + of_nat b" if "a < b" "b < unat n" for a b
      using un(1) [of a] un(2) [of b] that by auto
    then have "memcpy_loop m d s (of_nat 0) (unat n) = (\<lambda>x. if 0 \<le> unat (x - d) \<and> unat (x - d) < 0 + unat n
        then m (s + (x - d)) else m x)"
      by (intro memcpy_loop_eq) (auto intro: less_imp_le)
    with 2 show ?thesis by (auto simp: memmove_def)
  next
    case 3
    then have "unat s < unat d" by (simp add: word_less_nat_alt)
    then have "d + of_nat a \<noteq> s + of_nat b" if "b < a" "a < unat n" for a b
      using un(1) [of a] un(2) [of b] that by auto
    then have "memmove_back m d s (unat n) = (\<lambda>x. if unat (x - d) < unat n then m (s + (x - d)) else m x)"
      by (intro memmove_back_eq) (auto intro: less_imp_le)
    with 3 show ?thesis by (auto simp: memmove_def)
  qed
qed

theorem memmove_correct_witness:
  "memmove (\<lambda>x. ucast x) 101 100 3 = (\<lambda>x. if unat (x - 101) < 3 then ucast (100 + (x - 101)) else ucast x)"
  using memmove_correct [of 101 3 100 "\<lambda>x. ucast x"] by (simp add: no_wrap_def)

lemma memcmp_loop_eq:
  "i + k \<le> 2 ^ 64 \<Longrightarrow>
   memcmp_loop m p q (of_nat i) k = 0 \<longleftrightarrow> (\<forall>j. i \<le> j \<and> j < i + k \<longrightarrow> m (p + of_nat j) = m (q + of_nat j))"
proof (induction k arbitrary: i)
  case (Suc k)
  have "memcmp_loop m p q (of_nat i) (Suc k) = 0 \<longleftrightarrow>
      m (p + of_nat i) = m (q + of_nat i) \<and> memcmp_loop m p q (of_nat (Suc i)) k = 0"
    by (auto simp: add.commute word_uint_eq_iff)
  also have "\<dots> \<longleftrightarrow> m (p + of_nat i) = m (q + of_nat i) \<and>
      (\<forall>j. Suc i \<le> j \<and> j < Suc i + k \<longrightarrow> m (p + of_nat j) = m (q + of_nat j))"
    using Suc.prems by (subst Suc.IH) auto
  also have "\<dots> \<longleftrightarrow> (\<forall>j. i \<le> j \<and> j < i + Suc k \<longrightarrow> m (p + of_nat j) = m (q + of_nat j))"
    by (metis Suc_le_eq add_Suc add_Suc_right le_eq_less_or_eq less_add_Suc1)
  finally show ?case .
qed auto

lemma memcmp_zero: "memcmp m p q n = 0 \<longleftrightarrow> (\<forall>j < unat n. m (p + of_nat j) = m (q + of_nat j))"
  using memcmp_loop_eq [of 0 "unat n" m p q] by (simp add: memcmp_def less_imp_le)

section \<open>Strings\<close>

text \<open>The bytes \<open>xs\<close>, none of them the terminator, stand at \<open>a\<close> and a terminator follows.\<close>

fun cstr :: "mem \<Rightarrow> u64 \<Rightarrow> u8 list \<Rightarrow> bool" where
  "cstr m a [] \<longleftrightarrow> m a = 0"
| "cstr m a (x # xs) \<longleftrightarrow> m a = x \<and> x \<noteq> 0 \<and> cstr m (a + 1) xs"

lemma str_end_cstr: "cstr m a xs \<Longrightarrow> str_end m a = Some (a + of_nat (length xs))"
proof (induction xs arbitrary: a)
  case Nil
  then show ?case by (simp add: str_end.simps)
next
  case (Cons x xs)
  then have "str_end m a = str_end m (a + 1)" by (subst str_end.simps) simp
  with Cons show ?case by (simp add: add.assoc)
qed

lemma strlen_cstr: "cstr m a xs \<Longrightarrow> strlen m a = Some (of_nat (length xs))"
  by (simp add: strlen_def str_end_cstr)

lemma cstr_upd: "(\<And>b. b \<le> length xs \<Longrightarrow> x \<noteq> a + of_nat b) \<Longrightarrow> cstr (m(x := v)) a xs = cstr m a xs"
proof (induction xs arbitrary: a)
  case Nil
  then show ?case using Nil [of 0] by simp
next
  case (Cons y ys)
  have "x \<noteq> a" using Cons.prems [of 0] by simp
  moreover have "cstr (m(x := v)) (a + 1) ys = cstr m (a + 1) ys"
  proof (rule Cons.IH)
    fix b
    assume "b \<le> length ys"
    then show "x \<noteq> a + 1 + of_nat b" using Cons.prems [of "Suc b"] by (simp add: add.assoc)
  qed
  ultimately show "cstr (m(x := v)) a (y # ys) = cstr m a (y # ys)" by simp
qed

lemma memcpy_loop_shift: "memcpy_loop m d s (i + 1) k = memcpy_loop m (d + 1) (s + 1) i k"
proof (induction k arbitrary: m i)
  case (Suc k)
  have "memcpy_loop m d s (i + 1) (Suc k) =
      memcpy_loop (m(d + (i + 1) := m (s + (i + 1)))) d s (i + 1 + 1) k"
    by (rule memcpy_loop.simps)
  also have "\<dots> = memcpy_loop (m(d + (i + 1) := m (s + (i + 1)))) (d + 1) (s + 1) (i + 1) k"
    by (rule Suc.IH)
  also have "\<dots> = memcpy_loop m (d + 1) (s + 1) i (Suc k)"
    by (simp only: memcpy_loop.simps add.assoc add.commute [of i 1])
  finally show ?case .
qed simp

lemma strcpy_loop_eq:
  assumes "cstr m s xs" and "\<And>a b. a \<le> length xs \<Longrightarrow> b \<le> length xs \<Longrightarrow> d + of_nat a \<noteq> s + of_nat b"
  shows "strcpy_loop m d s = Some (memcpy_loop m d s 0 (Suc (length xs)))"
  using assms
proof (induction xs arbitrary: m d s)
  case Nil
  then show ?case by (simp add: strcpy_loop.simps fun_upd_def)
next
  case (Cons x xs)
  let ?m = "m(d := x)"
  have "cstr ?m (s + 1) xs = cstr m (s + 1) xs"
  proof (rule cstr_upd)
    fix b
    assume "b \<le> length xs"
    then show "d \<noteq> s + 1 + of_nat b" using Cons.prems(2) [of 0 "Suc b"] by (simp add: add.assoc)
  qed
  moreover have "d + 1 + of_nat a \<noteq> s + 1 + of_nat b" if "a \<le> length xs" "b \<le> length xs" for a b
    using Cons.prems(2) [of "Suc a" "Suc b"] that by (simp add: add.assoc)
  moreover have "cstr m (s + 1) xs" using Cons.prems(1) by simp
  ultimately have "strcpy_loop ?m (d + 1) (s + 1) = Some (memcpy_loop ?m (d + 1) (s + 1) 0 (Suc (length xs)))"
    using Cons.IH [of ?m "s + 1" "d + 1"] by blast
  moreover have "strcpy_loop m d s = strcpy_loop ?m (d + 1) (s + 1)"
    using Cons.prems(1) by (subst strcpy_loop.simps) simp
  ultimately show ?case
    using memcpy_loop_shift [of ?m d s 0 "Suc (length xs)"] Cons.prems(1) by simp
qed

lemma cstr_copy:
  "cstr m s xs \<Longrightarrow> (\<And>a. a \<le> length xs \<Longrightarrow> m' (d + of_nat a) = m (s + of_nat a)) \<Longrightarrow> cstr m' d xs"
proof (induction xs arbitrary: s d)
  case Nil
  then show ?case using Nil.prems(2) [of 0] by simp
next
  case (Cons x xs)
  have "m' (d + 1 + of_nat a) = m (s + 1 + of_nat a)" if "a \<le> length xs" for a
    using Cons.prems(2) [of "Suc a"] that by (simp add: add.assoc)
  then have "cstr m' (d + 1) xs" using Cons.prems(1) by (intro Cons.IH [of "s + 1"]) auto
  with Cons.prems(1) Cons.prems(2) [of 0] show ?case by simp
qed

text \<open>
  \<open>strcpy\<close> of a terminated string into a range that does not overlap it returns, leaves
  the same string at the destination, and changes no byte outside the \<open>length + 1\<close> bytes
  of the copy.
\<close>

theorem strcpy_correct:
  assumes "cstr m s xs" and "disjoint_rng d s (Suc (length xs))"
    and "no_wrap d (Suc (length xs))" and "no_wrap s (Suc (length xs))"
  shows "\<exists>m'. strcpy m d s = Some m' \<and> cstr m' d xs \<and>
    (\<forall>x. Suc (length xs) \<le> unat (x - d) \<longrightarrow> m' x = m x)"
proof -
  let ?n = "Suc (length xs)"
  let ?f = "\<lambda>x. if unat (x - d) < ?n then m (s + (x - d)) else m x"
  have neq: "d + of_nat a \<noteq> s + of_nat b" if "a < ?n" "b < ?n" for a b
    using no_wrap_unat [OF assms(3) that(1)] no_wrap_unat [OF assms(4) that(2)] assms(2) that
    by (auto simp: disjoint_rng_def)
  have n64: "?n \<le> 2 ^ 64" using assms(3) by (simp add: no_wrap_def)
  have "memcpy_loop m d s (of_nat 0) ?n = (\<lambda>x. if 0 \<le> unat (x - d) \<and> unat (x - d) < 0 + ?n
      then m (s + (x - d)) else m x)"
    using neq n64 by (intro memcpy_loop_eq) auto
  then have "strcpy m d s = Some ?f"
    using strcpy_loop_eq [OF assms(1), of d] neq by (simp add: strcpy_def less_Suc_eq_le)
  moreover have "cstr ?f d xs"
  proof (rule cstr_copy [OF assms(1)])
    fix a
    assume "a \<le> length xs"
    then have "unat (of_nat a :: u64) < ?n" using n64 by simp
    then show "?f (d + of_nat a) = m (s + of_nat a)" by simp
  qed
  ultimately show ?thesis by auto
qed

theorem strcpy_correct_witness:
  "\<exists>m'. strcpy ((\<lambda>_. 0)(16 := 104, 17 := 105)) 32 16 = Some m' \<and> cstr m' 32 [104, 105] \<and>
    (\<forall>x. Suc (length [104, 105 :: u8]) \<le> unat (x - 32) \<longrightarrow> m' x = ((\<lambda>_. 0)(16 := 104, 17 := 105)) x)"
  by (rule strcpy_correct) (simp_all add: disjoint_rng_def no_wrap_def)

lemma strcmp_step: "m a \<noteq> 0 \<Longrightarrow> m a = m b \<Longrightarrow> strcmp m a b = strcmp m (a + 1) (b + 1)"
  by (subst strcmp.simps) simp

lemma strcmp_stop: "\<not> (m a \<noteq> 0 \<and> m a = m b) \<Longrightarrow> strcmp m a b = Some (uint (m a) - uint (m b))"
  by (subst strcmp.simps) auto

lemma uint_pos: "x \<noteq> 0 \<Longrightarrow> 0 < uint (x :: u8)"
  by (simp add: word_neq_0_conv word_less_alt)

text \<open>
  On two terminated strings \<open>strcmp\<close> returns; its result is 0 exactly when the strings
  are equal and negative exactly when the first comes before the second in the
  lexicographic order of unsigned bytes.
\<close>

theorem strcmp_correct:
  assumes "cstr m a xs" and "cstr m b ys"
  shows "\<exists>r. strcmp m a b = Some r \<and> (r = 0 \<longleftrightarrow> xs = ys) \<and> (r < 0 \<longleftrightarrow> (xs, ys) \<in> lexord {(x, y). x < y})"
  using assms
proof (induction xs arbitrary: a b ys)
  case Nil
  then have "strcmp m a b = Some (uint (m a) - uint (m b))" by (intro strcmp_stop) simp
  with Nil show ?case using uint_pos [of "m b"] by (cases ys) auto
next
  case (Cons x xs)
  show ?case
  proof (cases ys)
    case Nil
    with Cons.prems have "strcmp m a b = Some (uint (m a) - uint (m b))" by (intro strcmp_stop) auto
    with Cons.prems Nil show ?thesis using uint_pos [of x] by simp
  next
    case (Cons y zs)
    show ?thesis
    proof (cases "x = y")
      case True
      then have "strcmp m a b = strcmp m (a + 1) (b + 1)"
        using Cons.prems \<open>ys = y # zs\<close> by (intro strcmp_step) auto
      moreover have "\<exists>r. strcmp m (a + 1) (b + 1) = Some r \<and> (r = 0 \<longleftrightarrow> xs = zs) \<and>
          (r < 0 \<longleftrightarrow> (xs, zs) \<in> lexord {(x, y). x < y})"
        using Cons.prems \<open>ys = y # zs\<close> by (intro Cons.IH) auto
      ultimately show ?thesis using True \<open>ys = y # zs\<close> by auto
    next
      case False
      then have "strcmp m a b = Some (uint x - uint y)"
        using Cons.prems \<open>ys = y # zs\<close> by (subst strcmp_stop) auto
      with False show ?thesis
        using \<open>ys = y # zs\<close> by (auto simp: word_uint_eq_iff word_less_alt)
    qed
  qed
qed

theorem strcmp_correct_witness:
  "\<exists>r. strcmp ((\<lambda>_. 0)(16 := 104, 17 := 105, 32 := 104)) 16 32 = Some r \<and>
    (r = 0 \<longleftrightarrow> [104, 105 :: u8] = [104]) \<and> (r < 0 \<longleftrightarrow> ([104, 105], [104]) \<in> lexord {(x :: u8, y). x < y})"
  by (rule strcmp_correct) simp_all

lemma strcat_cstr:
  assumes "cstr m d ys" and "cstr m s xs"
    and "\<And>a b. a \<le> length xs \<Longrightarrow> b \<le> length xs \<Longrightarrow> d + of_nat (length ys) + of_nat a \<noteq> s + of_nat b"
  shows "strcat m d s = Some (memcpy_loop m (d + of_nat (length ys)) s 0 (Suc (length xs)))"
  using assms by (simp add: strcat_def str_end_cstr strcpy_loop_eq)

end
