(* ===== verification/Kop.thy ===== *)
theory Kop
  imports Prelude
begin

text \<open>
  State passing for the file system and the task code: an operation takes the state and
  either stops or returns a value and the new state. The combinators are plain functions;
  \<open>bindK\<close> is the C semicolon.
\<close>

type_synonym ('s, 'a) kop = "'s \<Rightarrow> ('a \<times> 's) res"

definition retK :: "'a \<Rightarrow> ('s, 'a) kop" where
  "retK x = (\<lambda>s. Inr (x, s))"

definition bindK :: "('s, 'a) kop \<Rightarrow> ('a \<Rightarrow> ('s, 'b) kop) \<Rightarrow> ('s, 'b) kop" where
  "bindK m f = (\<lambda>s. bindR (m s) (\<lambda>(x, s). f x s))"

definition thenK :: "('s, 'a) kop \<Rightarrow> ('s, 'b) kop \<Rightarrow> ('s, 'b) kop" where
  "thenK m k = bindK m (\<lambda>_. k)"

definition failK :: "stop \<Rightarrow> ('s, 'a) kop" where
  "failK e = (\<lambda>s. Inl e)"

definition getK :: "('s \<Rightarrow> 'a) \<Rightarrow> ('s, 'a) kop" where
  "getK f = (\<lambda>s. Inr (f s, s))"

definition modK :: "('s \<Rightarrow> 's) \<Rightarrow> ('s, unit) kop" where
  "modK f = (\<lambda>s. Inr ((), f s))"

definition assertK :: "bool \<Rightarrow> stop \<Rightarrow> ('s, 'a) kop \<Rightarrow> ('s, 'a) kop" where
  "assertK b e k = (if b then k else failK e)"

text \<open>Reading an optional value that must be there.\<close>

definition needK :: "stop \<Rightarrow> ('s \<Rightarrow> 'a option) \<Rightarrow> ('s, 'a) kop" where
  "needK e f = (\<lambda>s. case f s of None \<Rightarrow> Inl e | Some x \<Rightarrow> Inr (x, s))"

text \<open>A computation that does not use the state.\<close>

definition liftK :: "'a res \<Rightarrow> ('s, 'a) kop" where
  "liftK r = (\<lambda>s. bindR r (\<lambda>x. Inr (x, s)))"

text \<open>A counting \<open>for\<close> loop whose body does not leave it.\<close>

fun forK :: "('i \<Rightarrow> ('s, unit) kop) \<Rightarrow> 'i list \<Rightarrow> ('s, unit) kop" where
  "forK body [] = retK ()"
| "forK body (i # is) = thenK (body i) (forK body is)"

named_theorems kop_simps \<open>running the state-passing combinators\<close>

lemma retK_run [simp, kop_simps]: "retK x s = Inr (x, s)"
  by (simp add: retK_def)

lemma bindK_run [kop_simps]: "bindK m f s = bindR (m s) (\<lambda>(x, s). f x s)"
  by (simp add: bindK_def)

lemma thenK_run [kop_simps]: "thenK m k s = bindR (m s) (\<lambda>(x, s). k s)"
  by (simp add: thenK_def bindK_def)

lemma failK_run [simp, kop_simps]: "failK e s = Inl e"
  by (simp add: failK_def)

lemma getK_run [simp, kop_simps]: "getK f s = Inr (f s, s)"
  by (simp add: getK_def)

lemma modK_run [simp, kop_simps]: "modK f s = Inr ((), f s)"
  by (simp add: modK_def)

lemma assertK_run [kop_simps]: "assertK b e k s = (if b then k s else Inl e)"
  by (simp add: assertK_def)

lemma needK_run [kop_simps]: "needK e f s = (case f s of None \<Rightarrow> Inl e | Some x \<Rightarrow> Inr (x, s))"
  by (simp add: needK_def)

lemma liftK_run [kop_simps]: "liftK r s = bindR r (\<lambda>x. Inr (x, s))"
  by (simp add: liftK_def)

lemma bindK_okI: "m s = Inr (x, s1) \<Longrightarrow> f x s1 = r \<Longrightarrow> bindK m f s = r"
  by (simp add: bindK_run)

lemma thenK_okI: "m s = Inr (x, s1) \<Longrightarrow> k s1 = r \<Longrightarrow> thenK m k s = r"
  by (simp add: thenK_run)

lemma bindK_eq_Inr [res_simps]:
  "bindK m f s = Inr (y, s2) \<longleftrightarrow> (\<exists>x s1. m s = Inr (x, s1) \<and> f x s1 = Inr (y, s2))"
  by (auto simp: bindK_run bindR_eq_Inr)

lemma thenK_eq_Inr [res_simps]:
  "thenK m k s = Inr (y, s2) \<longleftrightarrow> (\<exists>x s1. m s = Inr (x, s1) \<and> k s1 = Inr (y, s2))"
  by (auto simp: thenK_run bindR_eq_Inr)

end
