(* ===== verification/BlkCache.thy ===== *)
theory BlkCache
  imports Kop
begin

text \<open>
  \<open>block/blk_cache.c\<close>: the cache of 64 disk blocks, on top of the driver operations
  \<open>blkread\<close> and \<open>blkwrite\<close>, whose interface is the locale \<open>block_device\<close>.
\<close>

section \<open>Blocks\<close>

text \<open>
  The contents of a block buffer of \<open>BLKSZ\<close> bytes: a function from byte offsets, of which
  only the offsets below \<open>BLKSZ\<close> matter.
\<close>

type_synonym blk = "nat \<Rightarrow> u8"

definition BLKSZ :: nat where
  "BLKSZ = 4096"

definition NBLKNUM :: nat where
  "NBLKNUM = 64"

definition nb :: "blk \<Rightarrow> blk" where
  "nb b = (\<lambda>i. if i < BLKSZ then b i else 0)"

lemma nb_nb [simp]: "nb (nb b) = nb b"
  by (auto simp: nb_def fun_eq_iff)

lemma nb_at: "i < BLKSZ \<Longrightarrow> nb b i = b i"
  by (simp add: nb_def)

section \<open>The driver interface\<close>

text \<open>
  \<open>blkread no data\<close> and \<open>blkwrite no data\<close>, with the buffer passed by value and \<open>'d\<close> the
  state of driver and device.
\<close>

record 'd blkdev =
  dev_read :: "u64 \<Rightarrow> 'd \<Rightarrow> (blk \<times> 'd) res"
  dev_write :: "u64 \<Rightarrow> blk \<Rightarrow> 'd \<Rightarrow> 'd res"

section \<open>State and operations\<close>

record bslot =
  blk_no :: u64
  bvalid :: bool
  bdirty :: bool
  brefcnt :: i32
  bdata :: blk

record 'd bc_state =
  dst :: 'd
  slots :: "bslot list"

definition bread :: "'d blkdev \<Rightarrow> u64 \<Rightarrow> (('d, 'z) bc_state_scheme, nat) kop" where
  "bread D no s =
     (case find (\<lambda>i. bvalid (slots s ! i) \<and> blk_no (slots s ! i) = no) [0..<NBLKNUM] of
        Some i \<Rightarrow>
          Inr (i, s\<lparr>slots := (slots s)[i := (slots s ! i)\<lparr>brefcnt := brefcnt (slots s ! i) + 1\<rparr>]\<rparr>)
      | None \<Rightarrow>
          (case find (\<lambda>i. brefcnt (slots s ! i) = 0) [0..<NBLKNUM] of
             None \<Rightarrow> Inl (Panic ''no free block cache'')
           | Some i \<Rightarrow>
               (let b = slots s ! i in
                bindR (if bvalid b \<and> bdirty b then dev_write D (blk_no b) (bdata b) (dst s) else Inr (dst s)) (\<lambda>d.
                bindR (dev_read D no d) (\<lambda>(data, d).
                Inr (i, s\<lparr>dst := d, slots := (slots s)[i :=
                  b\<lparr>bdata := data, blk_no := no, bvalid := True, bdirty := False, brefcnt := 1\<rparr>]\<rparr>))))))"

definition bwrite :: "nat \<Rightarrow> (('d, 'z) bc_state_scheme, unit) kop" where
  "bwrite i s =
     (if \<not> bvalid (slots s ! i) then Inr ((), s)
      else Inr ((), s\<lparr>slots := (slots s)[i := (slots s ! i)\<lparr>bdirty := True\<rparr>]\<rparr>))"

definition brelse :: "nat \<Rightarrow> (('d, 'z) bc_state_scheme, unit) kop" where
  "brelse i s =
     (if sint (brefcnt (slots s ! i)) \<le> 0 then Inl (Panic ''brelse'')
      else Inr ((), s\<lparr>slots := (slots s)[i := (slots s ! i)\<lparr>brefcnt := brefcnt (slots s ! i) - 1\<rparr>]\<rparr>))"

fun bsync_loop :: "'d blkdev \<Rightarrow> nat list \<Rightarrow> (('d, 'z) bc_state_scheme, unit) kop" where
  "bsync_loop D [] s = Inr ((), s)"
| "bsync_loop D (i # is) s =
     (if bvalid (slots s ! i) \<and> bdirty (slots s ! i) then
        bindR (dev_write D (blk_no (slots s ! i)) (bdata (slots s ! i)) (dst s)) (\<lambda>d.
          bsync_loop D is (s\<lparr>dst := d, slots := (slots s)[i := (slots s ! i)\<lparr>bdirty := False\<rparr>]\<rparr>))
      else bsync_loop D is s)"

definition bsync :: "'d blkdev \<Rightarrow> (('d, 'z) bc_state_scheme, unit) kop" where
  "bsync D = bsync_loop D [0..<NBLKNUM]"

text \<open>Access to the buffer of a slot: \<open>blk->data\<close>.\<close>

definition bget :: "nat \<Rightarrow> (('d, 'z) bc_state_scheme, blk) kop" where
  "bget i = getK (\<lambda>s. bdata (slots s ! i))"

definition bput :: "nat \<Rightarrow> blk \<Rightarrow> (('d, 'z) bc_state_scheme, unit) kop" where
  "bput i b = modK (\<lambda>s. s\<lparr>slots := (slots s)[i := (slots s ! i)\<lparr>bdata := b\<rparr>]\<rparr>)"

section \<open>Coherence\<close>

text \<open>The slot that holds block \<open>no\<close>.\<close>

definition slot_of :: "bslot list \<Rightarrow> u64 \<Rightarrow> nat option" where
  "slot_of sl no = find (\<lambda>i. bvalid (sl ! i) \<and> blk_no (sl ! i) = no) [0..<NBLKNUM]"

text \<open>
  What a driver promises: within the blocks \<open>vb\<close> the device has, a read returns the stored
  block and a write replaces exactly that block.
\<close>

locale block_device =
  fixes D :: "'d blkdev"
    and content :: "'d \<Rightarrow> u64 \<Rightarrow> blk"
    and ok :: "'d \<Rightarrow> bool"
    and vb :: "u64 \<Rightarrow> bool"
  assumes read_ok: "ok d \<Longrightarrow> vb no \<Longrightarrow>
      \<exists>d'. dev_read D no d = Inr (content d no, d') \<and> ok d' \<and> content d' = content d"
    and write_ok: "ok d \<Longrightarrow> vb no \<Longrightarrow>
      \<exists>d'. dev_write D no b d = Inr d' \<and> ok d' \<and> content d' = (content d)(no := nb b)"
    and content_nb: "nb (content d no) = content d no"

text \<open>
  The contents of the disk as the file system sees them: the cached copy where there is one.
\<close>

definition view :: "('d \<Rightarrow> u64 \<Rightarrow> blk) \<Rightarrow> ('d, 'z) bc_state_scheme \<Rightarrow> u64 \<Rightarrow> blk" where
  "view content s no = (case slot_of (slots s) no of
      Some i \<Rightarrow> nb (bdata (slots s ! i)) | None \<Rightarrow> content (dst s) no)"

text \<open>
  The invariant of the cache: 64 slots, no block in two of them, and a slot that is not dirty
  holds what the device holds.
\<close>

definition slots_inv :: "(u64 \<Rightarrow> blk) \<Rightarrow> (u64 \<Rightarrow> bool) \<Rightarrow> bslot list \<Rightarrow> bool" where
  "slots_inv cont vb sl \<longleftrightarrow> length sl = NBLKNUM \<and>
     (\<forall>i < NBLKNUM. bvalid (sl ! i) \<longrightarrow> vb (blk_no (sl ! i)) \<and>
        (\<not> bdirty (sl ! i) \<longrightarrow> nb (bdata (sl ! i)) = cont (blk_no (sl ! i)))) \<and>
     (\<forall>i < NBLKNUM. \<forall>j < NBLKNUM. bvalid (sl ! i) \<longrightarrow> bvalid (sl ! j) \<longrightarrow>
        blk_no (sl ! i) = blk_no (sl ! j) \<longrightarrow> i = j)"

definition bc_inv :: "('d \<Rightarrow> u64 \<Rightarrow> blk) \<Rightarrow> ('d \<Rightarrow> bool) \<Rightarrow> (u64 \<Rightarrow> bool) \<Rightarrow> ('d, 'z) bc_state_scheme \<Rightarrow> bool" where
  "bc_inv content ok vb s \<longleftrightarrow> ok (dst s) \<and> slots_inv (content (dst s)) vb (slots s)"

lemma slots_invD:
  assumes "slots_inv cont vb sl"
  shows "length sl = NBLKNUM"
    and "i < NBLKNUM \<Longrightarrow> bvalid (sl ! i) \<Longrightarrow> vb (blk_no (sl ! i))"
    and "i < NBLKNUM \<Longrightarrow> bvalid (sl ! i) \<Longrightarrow> \<not> bdirty (sl ! i) \<Longrightarrow> nb (bdata (sl ! i)) = cont (blk_no (sl ! i))"
    and "i < NBLKNUM \<Longrightarrow> j < NBLKNUM \<Longrightarrow> bvalid (sl ! i) \<Longrightarrow> bvalid (sl ! j) \<Longrightarrow>
      blk_no (sl ! i) = blk_no (sl ! j) \<Longrightarrow> i = j"
  using assms by (auto simp: slots_inv_def)

lemma find_upt_Some:
  "find P [0..<n] = Some i \<longleftrightarrow> i < n \<and> P i \<and> (\<forall>j < i. \<not> P j)"
  by (auto simp: find_Some_iff)

lemma find_upt_None: "find P [0..<n] = None \<longleftrightarrow> (\<forall>i < n. \<not> P i)"
  by (auto simp: find_None_iff)

lemma slot_of_Some:
  "slot_of sl no = Some i \<Longrightarrow> i < NBLKNUM \<and> bvalid (sl ! i) \<and> blk_no (sl ! i) = no"
  by (simp add: slot_of_def find_upt_Some)

lemma slot_of_None: "slot_of sl no = None \<longleftrightarrow> (\<forall>i < NBLKNUM. \<not> (bvalid (sl ! i) \<and> blk_no (sl ! i) = no))"
  by (simp add: slot_of_def find_upt_None)

lemma slot_of_eq:
  assumes "slots_inv cont vb sl" and "i < NBLKNUM" and "bvalid (sl ! i)"
  shows "slot_of sl (blk_no (sl ! i)) = Some i"
proof (cases "slot_of sl (blk_no (sl ! i))")
  case None
  then show ?thesis using assms by (auto simp: slot_of_None)
next
  case (Some j)
  then show ?thesis using slot_of_Some [OF Some] slots_invD(4) [OF assms(1), of j i] assms by simp
qed

lemma slots_inv_upd:
  assumes "slots_inv cont vb sl" and "i < NBLKNUM"
    and "bvalid b \<Longrightarrow> vb (blk_no b)" and "bvalid b \<Longrightarrow> \<not> bdirty b \<Longrightarrow> nb (bdata b) = cont (blk_no b)"
    and "\<And>j. bvalid b \<Longrightarrow> j < NBLKNUM \<Longrightarrow> j \<noteq> i \<Longrightarrow> bvalid (sl ! j) \<Longrightarrow> blk_no (sl ! j) \<noteq> blk_no b"
  shows "slots_inv cont vb (sl[i := b])"
proof -
  have len: "length sl = NBLKNUM" using assms(1) by (simp add: slots_inv_def)
  then have nth: "(sl[i := b]) ! j = (if j = i then b else sl ! j)" if "j < NBLKNUM" for j
    using that assms(2) by simp
  have each: "vb (blk_no (sl[i := b] ! j)) \<and> (\<not> bdirty (sl[i := b] ! j) \<longrightarrow>
      nb (bdata (sl[i := b] ! j)) = cont (blk_no (sl[i := b] ! j)))"
    if "j < NBLKNUM" "bvalid (sl[i := b] ! j)" for j
  proof (cases "j = i")
    case True
    then show ?thesis using nth [OF that(1)] that(2) assms(3,4) by simp
  next
    case False
    then show ?thesis using nth [OF that(1)] that(2) slots_invD(2,3) [OF assms(1) that(1)] by simp
  qed
  have inj: "j = k" if jk: "j < NBLKNUM" "k < NBLKNUM" "bvalid (sl[i := b] ! j)" "bvalid (sl[i := b] ! k)"
      "blk_no (sl[i := b] ! j) = blk_no (sl[i := b] ! k)" for j k
  proof (cases "j = i \<or> k = i")
    case True
    then show ?thesis
      using jk(3-5) nth [OF jk(1)] nth [OF jk(2)] assms(5) [OF _ jk(1)] assms(5) [OF _ jk(2)] by (metis (no_types))
  next
    case False
    then show ?thesis using jk nth [OF jk(1)] nth [OF jk(2)] slots_invD(4) [OF assms(1) jk(1,2)] by simp
  qed
  show ?thesis
    unfolding slots_inv_def using len each inj by (intro conjI allI impI) (simp, blast+)
qed

lemma slots_inv_cont:
  assumes "slots_inv cont vb sl"
    and "\<And>i. i < NBLKNUM \<Longrightarrow> bvalid (sl ! i) \<Longrightarrow> \<not> bdirty (sl ! i) \<Longrightarrow> cont' (blk_no (sl ! i)) = cont (blk_no (sl ! i))"
  shows "slots_inv cont' vb sl"
  using assms by (auto simp: slots_inv_def)

lemma slot_of_upd_same:
  assumes "i < NBLKNUM" and "length sl = NBLKNUM" and "bvalid b = bvalid (sl ! i)" and "blk_no b = blk_no (sl ! i)"
  shows "slot_of (sl[i := b]) no = slot_of sl no"
proof -
  have "bvalid (sl[i := b] ! j) = bvalid (sl ! j) \<and> blk_no (sl[i := b] ! j) = blk_no (sl ! j)" if "j < NBLKNUM" for j
    using assms that by (cases "j = i") auto
  then show ?thesis unfolding slot_of_def by (intro find_cong) auto
qed

text \<open>The slots, and so the view, after an update of slot \<open>i\<close> that keeps its block.\<close>

lemma view_upd_same:
  assumes "slots_inv cont vb (slots s)" and "i < NBLKNUM" and "bvalid (slots s ! i)"
    and "bvalid b" and "blk_no b = blk_no (slots s ! i)"
  shows "view content (s\<lparr>slots := (slots s)[i := b]\<rparr>) = (view content s)(blk_no b := nb (bdata b))"
proof
  fix no
  have len: "length (slots s) = NBLKNUM" using slots_invD(1) [OF assms(1)] .
  have so: "slot_of ((slots s)[i := b]) no = slot_of (slots s) no"
    using slot_of_upd_same [OF assms(2) len] assms(3-5) by simp
  have eq: "slot_of (slots s) (blk_no b) = Some i"
    using slot_of_eq [OF assms(1-3)] assms(5) by simp
  show "view content (s\<lparr>slots := (slots s)[i := b]\<rparr>) no = ((view content s)(blk_no b := nb (bdata b))) no"
  proof (cases "no = blk_no b")
    case True
    then show ?thesis using so eq len assms(2) by (simp add: view_def)
  next
    case False
    have "j \<noteq> i" if "slot_of (slots s) no = Some j" for j
      using slot_of_Some [OF that] False assms(5) by auto
    then show ?thesis using so False by (auto simp: view_def split: option.splits)
  qed
qed

context block_device
begin

abbreviation inv :: "('d, 'z) bc_state_scheme \<Rightarrow> bool" where
  "inv s \<equiv> bc_inv content ok vb s"

text \<open>Evicting slot \<open>i\<close>: writing it back when dirty keeps the view of every block.\<close>

lemma writeback:
  assumes "inv s" and "i < NBLKNUM"
  shows "\<exists>d. (if bvalid (slots s ! i) \<and> bdirty (slots s ! i)
      then dev_write D (blk_no (slots s ! i)) (bdata (slots s ! i)) (dst s) else Inr (dst s)) = Inr d \<and>
    ok d \<and> slots_inv (content d) vb (slots s) \<and>
    (\<forall>no. slot_of (slots s) no = None \<longrightarrow> content d no = content (dst s) no) \<and>
    (bvalid (slots s ! i) \<longrightarrow> content d (blk_no (slots s ! i)) = nb (bdata (slots s ! i)))"
proof -
  let ?b = "slots s ! i"
  have ok: "ok (dst s)" and si: "slots_inv (content (dst s)) vb (slots s)"
    using assms(1) by (auto simp: bc_inv_def)
  show ?thesis
  proof (cases "bvalid ?b \<and> bdirty ?b")
    case True
    then have "vb (blk_no ?b)" using slots_invD(2) [OF si assms(2)] by simp
    then obtain d where d: "dev_write D (blk_no ?b) (bdata ?b) (dst s) = Inr d" "ok d"
        "content d = (content (dst s))(blk_no ?b := nb (bdata ?b))"
      using write_ok [OF ok] by blast
    have "slots_inv (content d) vb (slots s)"
    proof (rule slots_inv_cont [OF si])
      fix j
      assume j: "j < NBLKNUM" "bvalid (slots s ! j)" "\<not> bdirty (slots s ! j)"
      then have "j \<noteq> i" using True by auto
      then have "blk_no (slots s ! j) \<noteq> blk_no ?b" using slots_invD(4) [OF si j(1) assms(2) j(2)] True by auto
      then show "content d (blk_no (slots s ! j)) = content (dst s) (blk_no (slots s ! j))" using d(3) by simp
    qed
    moreover have "content d no = content (dst s) no" if "slot_of (slots s) no = None" for no
      using that d(3) True assms(2) by (auto simp: slot_of_None)
    ultimately show ?thesis using d True by auto
  next
    case False
    then show ?thesis using ok si slots_invD(3) [OF si assms(2)] by auto
  qed
qed

lemma bread_ok:
  assumes "inv s" and "vb no" and "slot_of (slots s) no \<noteq> None \<or> (\<exists>i < NBLKNUM. brefcnt (slots s ! i) = 0)"
  shows "\<exists>i s'. bread D no s = Inr (i, s') \<and> inv s' \<and> view content s' = view content s \<and> i < NBLKNUM \<and>
    bvalid (slots s' ! i) \<and> blk_no (slots s' ! i) = no \<and> nb (bdata (slots s' ! i)) = view content s no \<and>
    brefcnt (slots s' ! i) = (if slot_of (slots s) no = None then 0 else brefcnt (slots s ! i)) + 1 \<and>
    (slot_of (slots s) no = None \<longrightarrow> brefcnt (slots s ! i) = 0) \<and>
    (slot_of (slots s) no \<noteq> None \<longrightarrow> slots s' ! i = (slots s ! i)\<lparr>brefcnt := brefcnt (slots s ! i) + 1\<rparr>) \<and>
    (\<forall>j < NBLKNUM. j \<noteq> i \<longrightarrow> slots s' ! j = slots s ! j) \<and>
    (\<exists>d. s' = s\<lparr>dst := d, slots := slots s'\<rparr>)"
proof (cases "slot_of (slots s) no")
  case (Some i)
  let ?b = "(slots s ! i)\<lparr>brefcnt := brefcnt (slots s ! i) + 1\<rparr>"
  have si: "slots_inv (content (dst s)) vb (slots s)" and ok: "ok (dst s)" using assms(1) by (auto simp: bc_inv_def)
  have i: "i < NBLKNUM" "bvalid (slots s ! i)" "blk_no (slots s ! i) = no" using slot_of_Some [OF Some] by auto
  have len: "length (slots s) = NBLKNUM" using slots_invD(1) [OF si] .
  have "slots_inv (content (dst s)) vb ((slots s)[i := ?b])"
    using slots_invD [OF si] i by (intro slots_inv_upd [OF si i(1)]) auto
  moreover have "view content (s\<lparr>slots := (slots s)[i := ?b]\<rparr>) = view content s"
  proof -
    have "view content s no = nb (bdata (slots s ! i))" using Some by (simp add: view_def)
    then have "(view content s)(no := nb (bdata (slots s ! i))) = view content s" by (metis fun_upd_triv)
    then show ?thesis using view_upd_same [OF si i(1,2), of ?b content] i by simp
  qed
  moreover have "bread D no s = Inr (i, s\<lparr>slots := (slots s)[i := ?b]\<rparr>)"
    using Some by (simp add: bread_def slot_of_def)
  moreover have "view content s no = nb (bdata (slots s ! i))" using Some by (simp add: view_def)
  ultimately show ?thesis
    using i len Some ok
    by (intro exI [of _ i] exI [of _ "s\<lparr>slots := (slots s)[i := ?b]\<rparr>"] conjI)
      (simp_all add: bc_inv_def exI [of _ "dst s"])
next
  case None
  have si: "slots_inv (content (dst s)) vb (slots s)" using assms(1) by (simp add: bc_inv_def)
  have len: "length (slots s) = NBLKNUM" using slots_invD(1) [OF si] .
  obtain i where f: "find (\<lambda>i. brefcnt (slots s ! i) = 0) [0..<NBLKNUM] = Some i"
    using assms(3) None find_upt_None [of _ NBLKNUM] by (metis (mono_tags, lifting) not_None_eq)
  then have i: "i < NBLKNUM" "brefcnt (slots s ! i) = 0" by (auto simp: find_upt_Some)
  let ?o = "slots s ! i"
  obtain d where d: "(if bvalid ?o \<and> bdirty ?o then dev_write D (blk_no ?o) (bdata ?o) (dst s) else Inr (dst s)) = Inr d"
      "ok d" "slots_inv (content d) vb (slots s)"
      "\<forall>no. slot_of (slots s) no = None \<longrightarrow> content d no = content (dst s) no"
      "bvalid ?o \<longrightarrow> content d (blk_no ?o) = nb (bdata ?o)"
    using writeback [OF assms(1) i(1)] by blast
  obtain d' where d': "dev_read D no d = Inr (content d no, d')" "ok d'" "content d' = content d"
    using read_ok [OF d(2) assms(2)] by blast
  let ?b = "?o\<lparr>bdata := content d no, blk_no := no, bvalid := True, bdirty := False, brefcnt := 1\<rparr>"
  let ?s = "s\<lparr>dst := d', slots := (slots s)[i := ?b]\<rparr>"
  have fresh: "blk_no (slots s ! j) \<noteq> no" if "j < NBLKNUM" "bvalid (slots s ! j)" for j
    using None that by (auto simp: slot_of_None)
  have inv': "slots_inv (content d') vb ((slots s)[i := ?b])"
    using d(3) d'(3) i(1) assms(2) fresh by (intro slots_inv_upd) (auto simp: content_nb)
  have nth: "slots ?s ! j = (if j = i then ?b else slots s ! j)" if "j < NBLKNUM" for j
    using that len by (simp add: nth_list_update)
  have vno: "view content s no = content d no" using None d(4) by (simp add: view_def)
  have "view content ?s x = view content s x" for x
  proof (cases "x = no")
    case True
    have "slot_of (slots ?s) no = Some i"
      using slot_of_eq [OF inv' i(1)] len i(1) by simp
    then show ?thesis using True vno len i(1) by (simp add: view_def content_nb)
  next
    case False
    show ?thesis
    proof (cases "bvalid ?o \<and> blk_no ?o = x")
      case True
      have "slot_of (slots s) x = Some i" using slot_of_eq [OF d(3) i(1)] True by auto
      moreover have "slot_of (slots ?s) x = None"
        unfolding slot_of_None
      proof (intro allI impI notI)
        fix j
        assume j: "j < NBLKNUM" "bvalid (slots ?s ! j) \<and> blk_no (slots ?s ! j) = x"
        show False
          using nth [OF j(1)] j(2) False True slots_invD(4) [OF d(3) j(1) i(1)] by (cases "j = i") simp_all
      qed
      ultimately show ?thesis using d(5) d'(3) True by (auto simp: view_def)
    next
      case neq: False
      have e: "slot_of (slots ?s) x = slot_of (slots s) x"
        unfolding slot_of_def
      proof (rule find_cong)
        fix j
        assume "j \<in> set [0..<NBLKNUM]"
        then have j: "j < NBLKNUM" by simp
        show "(bvalid (slots ?s ! j) \<and> blk_no (slots ?s ! j) = x) = (bvalid (slots s ! j) \<and> blk_no (slots s ! j) = x)"
          using nth [OF j] neq False by (cases "j = i") auto
      qed simp
      have "j \<noteq> i" if "slot_of (slots s) x = Some j" for j using slot_of_Some [OF that] neq by auto
      then show ?thesis using e d(4) d'(3) by (auto simp: view_def split: option.splits)
    qed
  qed
  then have "view content ?s = view content s" by (rule ext)
  moreover have "bread D no s = Inr (i, ?s)"
    using None f d(1) d'(1) by (simp add: bread_def slot_of_def Let_def del: upt_Suc)
  ultimately show ?thesis
    using inv' d'(2) i len None vno
    by (intro exI [of _ i] exI [of _ ?s] conjI) (simp_all add: bc_inv_def content_nb exI [of _ d'])
qed

lemma write_slot:
  assumes "inv s" and "i < NBLKNUM" and "bvalid (slots s ! i)"
  shows "\<exists>s'. thenK (bput i b) (bwrite i) s = Inr ((), s') \<and> inv s' \<and>
    s' = s\<lparr>slots := (slots s)[i := (slots s ! i)\<lparr>bdata := b, bdirty := True\<rparr>]\<rparr> \<and>
    view content s' = (view content s)(blk_no (slots s ! i) := nb b)"
proof -
  let ?b = "(slots s ! i)\<lparr>bdata := b, bdirty := True\<rparr>"
  have si: "slots_inv (content (dst s)) vb (slots s)" and ok: "ok (dst s)" using assms(1) by (auto simp: bc_inv_def)
  have len: "length (slots s) = NBLKNUM" using slots_invD(1) [OF si] .
  have "slots_inv (content (dst s)) vb ((slots s)[i := ?b])"
    using slots_invD(2,4) [OF si] assms(2,3) by (intro slots_inv_upd [OF si assms(2)]) auto
  then show ?thesis
    using view_upd_same [OF si assms(2,3), of ?b content] ok assms(2,3) len
    by (simp add: thenK_run bput_def bwrite_def bc_inv_def)
qed

lemma brelse_ok:
  assumes "inv s" and "i < NBLKNUM" and "bvalid (slots s ! i)" and "0 < sint (brefcnt (slots s ! i))"
  shows "\<exists>s'. brelse i s = Inr ((), s') \<and> inv s' \<and> view content s' = view content s \<and>
    s' = s\<lparr>slots := (slots s)[i := (slots s ! i)\<lparr>brefcnt := brefcnt (slots s ! i) - 1\<rparr>]\<rparr>"
proof -
  let ?b = "(slots s ! i)\<lparr>brefcnt := brefcnt (slots s ! i) - 1\<rparr>"
  have si: "slots_inv (content (dst s)) vb (slots s)" and ok: "ok (dst s)" using assms(1) by (auto simp: bc_inv_def)
  have "slots_inv (content (dst s)) vb ((slots s)[i := ?b])"
    using slots_invD(2,3,4) [OF si] assms(2,3) by (intro slots_inv_upd [OF si assms(2)]) auto
  moreover have "view content s (blk_no (slots s ! i)) = nb (bdata (slots s ! i))"
    using slot_of_eq [OF si assms(2,3)] by (simp add: view_def)
  then have "(view content s)(blk_no (slots s ! i) := nb (bdata (slots s ! i))) = view content s"
    by (metis fun_upd_triv)
  then have "view content (s\<lparr>slots := (slots s)[i := ?b]\<rparr>) = view content s"
    using view_upd_same [OF si assms(2,3), of ?b content] assms(3) by simp
  ultimately show ?thesis
    using ok assms(4) by (simp add: brelse_def bc_inv_def)
qed

lemma bsync_step:
  assumes "inv s" and "i < NBLKNUM" and "bvalid (slots s ! i)" and "bdirty (slots s ! i)"
  shows "\<exists>d s'. dev_write D (blk_no (slots s ! i)) (bdata (slots s ! i)) (dst s) = Inr d \<and>
    s' = s\<lparr>dst := d, slots := (slots s)[i := (slots s ! i)\<lparr>bdirty := False\<rparr>]\<rparr> \<and>
    inv s' \<and> view content s' = view content s"
proof -
  let ?b = "(slots s ! i)\<lparr>bdirty := False\<rparr>"
  obtain d where d: "dev_write D (blk_no (slots s ! i)) (bdata (slots s ! i)) (dst s) = Inr d" "ok d"
      "slots_inv (content d) vb (slots s)"
      "\<forall>no. slot_of (slots s) no = None \<longrightarrow> content d no = content (dst s) no"
      "content d (blk_no (slots s ! i)) = nb (bdata (slots s ! i))"
    using writeback [OF assms(1,2)] assms(3,4) by auto
  let ?s1 = "s\<lparr>dst := d\<rparr>" and ?s' = "s\<lparr>dst := d, slots := (slots s)[i := ?b]\<rparr>"
  have "slots_inv (content d) vb ((slots s)[i := ?b])"
    using slots_invD(2,4) [OF d(3)] d(5) assms(2,3) by (intro slots_inv_upd [OF d(3) assms(2)]) auto
  moreover have v1: "view content ?s1 = view content s"
    using d(4) by (auto simp: view_def fun_eq_iff split: option.splits)
  moreover have "view content ?s' = view content s"
  proof -
    have "view content s (blk_no (slots s ! i)) = nb (bdata (slots s ! i))"
      using slot_of_eq [OF d(3) assms(2,3)] by (simp add: view_def)
    then have "(view content s)(blk_no (slots s ! i) := nb (bdata (slots s ! i))) = view content s"
      by (metis fun_upd_triv)
    then show ?thesis using view_upd_same [of "content d" vb ?s1 i ?b content] d(3) assms(2,3) v1 by simp
  qed
  ultimately show ?thesis using d(1,2) by (simp add: bc_inv_def)
qed

lemma bsync_loop_ok:
  assumes "inv s" and "k \<le> NBLKNUM" and "\<forall>i < k. \<not> (bvalid (slots s ! i) \<and> bdirty (slots s ! i))"
  shows "\<exists>s'. bsync_loop D [k..<NBLKNUM] s = Inr ((), s') \<and> inv s' \<and> view content s' = view content s \<and>
    (\<forall>i < NBLKNUM. \<not> (bvalid (slots s' ! i) \<and> bdirty (slots s' ! i)))"
  using assms
proof (induction "NBLKNUM - k" arbitrary: k s)
  case 0
  then show ?case by auto
next
  case (Suc n)
  then have k: "k < NBLKNUM" and n: "n = NBLKNUM - Suc k" by auto
  then have up: "[k..<NBLKNUM] = k # [Suc k..<NBLKNUM]" by (simp add: upt_rec)
  have len: "length (slots s) = NBLKNUM" using Suc.prems(1) by (simp add: bc_inv_def slots_inv_def)
  show ?case
  proof (cases "bvalid (slots s ! k) \<and> bdirty (slots s ! k)")
    case True
    then obtain d s1 where s1: "dev_write D (blk_no (slots s ! k)) (bdata (slots s ! k)) (dst s) = Inr d"
        "s1 = s\<lparr>dst := d, slots := (slots s)[k := (slots s ! k)\<lparr>bdirty := False\<rparr>]\<rparr>"
        "inv s1" "view content s1 = view content s"
      using bsync_step [OF Suc.prems(1) k] by blast
    have "\<forall>i < Suc k. \<not> (bvalid (slots s1 ! i) \<and> bdirty (slots s1 ! i))"
      using Suc.prems(3) s1(2) len k by (auto simp: less_Suc_eq)
    then show ?thesis using Suc.hyps(1) [OF n s1(3)] k s1 True up by (simp add: Suc_le_eq)
  next
    case False
    then have "\<forall>i < Suc k. \<not> (bvalid (slots s ! i) \<and> bdirty (slots s ! i))"
      using Suc.prems(3) by (auto simp: less_Suc_eq)
    moreover have "bsync_loop D [k..<NBLKNUM] s = bsync_loop D [Suc k..<NBLKNUM] s"
      unfolding up using False by auto
    ultimately show ?thesis using Suc.hyps(1) [OF n Suc.prems(1)] k by (simp add: Suc_le_eq)
  qed
qed

lemma clean_view:
  assumes "inv s" and "\<forall>i < NBLKNUM. \<not> (bvalid (slots s ! i) \<and> bdirty (slots s ! i))"
  shows "content (dst s) = view content s"
proof
  fix no
  show "content (dst s) no = view content s no"
  proof (cases "slot_of (slots s) no")
    case (Some i)
    have si: "slots_inv (content (dst s)) vb (slots s)" using assms(1) by (simp add: bc_inv_def)
    then show ?thesis using slots_invD(3) [OF si] slot_of_Some [OF Some] assms(2) Some by (auto simp: view_def)
  qed (simp add: view_def)
qed

text \<open>After \<open>bsync\<close> the device holds what the file system sees.\<close>

lemma bsync_ok:
  assumes "inv s"
  shows "\<exists>s'. bsync D s = Inr ((), s') \<and> inv s' \<and> view content s' = view content s \<and>
    content (dst s') = view content s"
proof -
  obtain s' where "bsync D s = Inr ((), s')" "inv s'" "view content s' = view content s"
      "\<forall>i < NBLKNUM. \<not> (bvalid (slots s' ! i) \<and> bdirty (slots s' ! i))"
    using bsync_loop_ok [OF assms, of 0] by (auto simp: bsync_def)
  then show ?thesis using clean_view [of s'] by auto
qed

end

end
