(* ===== verification/Virtio.thy ===== *)
theory Virtio
  imports BlkCache CMem
begin

text \<open>
  \<open>driver/virtio_mmio.c\<close>: the driver of the virtio block device. The virtqueue and the
  request header are records; a data buffer lies in memory, where the device reads and
  writes it. The device is hardware: the parameter \<open>H\<close> says what register accesses do and
  what the device does while the driver polls. \<open>virtio_device\<close> states the documented
  behaviour of a virtio block device; the driver then meets \<open>block_device\<close>.
\<close>

section \<open>Constants (\<open>include/driver/virtio_mmio.h\<close>)\<close>

abbreviation VIRTIO_MMIO_MAGIC_OFFSET :: u32 where "VIRTIO_MMIO_MAGIC_OFFSET \<equiv> 0x000"
abbreviation VIRTIO_MMIO_VERSION_OFFSET :: u32 where "VIRTIO_MMIO_VERSION_OFFSET \<equiv> 0x004"
abbreviation VIRTIO_MMIO_DEVICEID_OFFSET :: u32 where "VIRTIO_MMIO_DEVICEID_OFFSET \<equiv> 0x008"
abbreviation VIRTIO_MMIO_DEVICE_FEATURES_OFFSET :: u32 where "VIRTIO_MMIO_DEVICE_FEATURES_OFFSET \<equiv> 0x010"
abbreviation VIRTIO_MMIO_DEVICE_FEATURES_SEL_OFFSET :: u32 where "VIRTIO_MMIO_DEVICE_FEATURES_SEL_OFFSET \<equiv> 0x014"
abbreviation VIRTIO_MMIO_DRIVER_FEATURES_OFFSET :: u32 where "VIRTIO_MMIO_DRIVER_FEATURES_OFFSET \<equiv> 0x020"
abbreviation VIRTIO_MMIO_DRIVER_FEATURES_SEL_OFFSET :: u32 where "VIRTIO_MMIO_DRIVER_FEATURES_SEL_OFFSET \<equiv> 0x024"
abbreviation VIRTIO_MMIO_QUEUE_SEL_OFFSET :: u32 where "VIRTIO_MMIO_QUEUE_SEL_OFFSET \<equiv> 0x030"
abbreviation VIRTIO_MMIO_QUEUE_NUM_MAX_OFFSET :: u32 where "VIRTIO_MMIO_QUEUE_NUM_MAX_OFFSET \<equiv> 0x034"
abbreviation VIRTIO_MMIO_QUEUE_NUM_OFFSET :: u32 where "VIRTIO_MMIO_QUEUE_NUM_OFFSET \<equiv> 0x038"
abbreviation VIRTIO_MMIO_QUEUE_READY_OFFSET :: u32 where "VIRTIO_MMIO_QUEUE_READY_OFFSET \<equiv> 0x044"
abbreviation VIRTIO_MMIO_QUEUE_NOTIFY_OFFSET :: u32 where "VIRTIO_MMIO_QUEUE_NOTIFY_OFFSET \<equiv> 0x050"
abbreviation VIRTIO_MMIO_STATUS_OFFSET :: u32 where "VIRTIO_MMIO_STATUS_OFFSET \<equiv> 0x070"
abbreviation VIRTIO_MMIO_QUEUE_DESC_LOW_OFFSET :: u32 where "VIRTIO_MMIO_QUEUE_DESC_LOW_OFFSET \<equiv> 0x080"
abbreviation VIRTIO_MMIO_QUEUE_DESC_HIGH_OFFSET :: u32 where "VIRTIO_MMIO_QUEUE_DESC_HIGH_OFFSET \<equiv> 0x084"
abbreviation VIRTIO_MMIO_QUEUE_DRIVER_LOW_OFFSET :: u32 where "VIRTIO_MMIO_QUEUE_DRIVER_LOW_OFFSET \<equiv> 0x090"
abbreviation VIRTIO_MMIO_QUEUE_DRIVER_HIGH_OFFSET :: u32 where "VIRTIO_MMIO_QUEUE_DRIVER_HIGH_OFFSET \<equiv> 0x094"
abbreviation VIRTIO_MMIO_QUEUE_DEVICE_LOW_OFFSET :: u32 where "VIRTIO_MMIO_QUEUE_DEVICE_LOW_OFFSET \<equiv> 0x0a0"
abbreviation VIRTIO_MMIO_QUEUE_DEVICE_HIGH_OFFSET :: u32 where "VIRTIO_MMIO_QUEUE_DEVICE_HIGH_OFFSET \<equiv> 0x0a4"

abbreviation VIRTIO_MMIO_MAGIC_VALUE :: u32 where "VIRTIO_MMIO_MAGIC_VALUE \<equiv> 0x74726976"
abbreviation VIRTIO_MMIO_VERSION :: u32 where "VIRTIO_MMIO_VERSION \<equiv> 2"
abbreviation VIRTIO_MMIO_DEVICEID_BLK :: u32 where "VIRTIO_MMIO_DEVICEID_BLK \<equiv> 2"
abbreviation VIRTIO_STATUS_ACKNOWLEDGE :: u32 where "VIRTIO_STATUS_ACKNOWLEDGE \<equiv> 1"
abbreviation VIRTIO_STATUS_DRIVER :: u32 where "VIRTIO_STATUS_DRIVER \<equiv> 2"
abbreviation VIRTIO_STATUS_DRIVER_OK :: u32 where "VIRTIO_STATUS_DRIVER_OK \<equiv> 4"
abbreviation VIRTIO_STATUS_FEATURES_OK :: u32 where "VIRTIO_STATUS_FEATURES_OK \<equiv> 8"
abbreviation VIRTIO_F_VERSION_1 :: u32 where "VIRTIO_F_VERSION_1 \<equiv> 1"
abbreviation VIRTQ_DESC_F_NEXT :: u16 where "VIRTQ_DESC_F_NEXT \<equiv> 1"
abbreviation VIRTQ_DESC_F_WRITE :: u16 where "VIRTQ_DESC_F_WRITE \<equiv> 2"
abbreviation QSIZE :: nat where "QSIZE \<equiv> 8"
abbreviation VIRTIO_BLK_T_IN :: u32 where "VIRTIO_BLK_T_IN \<equiv> 0"
abbreviation VIRTIO_BLK_T_OUT :: u32 where "VIRTIO_BLK_T_OUT \<equiv> 1"

section \<open>Structures\<close>

record virtq_desc =
  vd_addr :: u64
  vd_len :: u32
  vd_flags :: u16
  vd_next :: u16

record virtqueue =
  vq_desc :: "virtq_desc list"
  avail_idx :: u16
  avail_ring :: "u16 list"
  used_idx :: u16

record virtio_blk_io =
  req_type :: u32
  req_reserved :: u32
  req_sector :: u64
  io_status :: u8

text \<open>
  The state of driver and device: \<open>disk_queue\<close>, \<open>disk_io\<close>, the memory the data buffers lie in
  and the state of the device.
\<close>

record 'h vstate =
  disk_queue :: virtqueue
  disk_io :: virtio_blk_io
  dma :: mem
  hw :: 'h

text \<open>
  The device, and the addresses of \<open>disk_queue.desc\<close>, \<open>disk_queue.avail\<close>, \<open>disk_queue.used\<close>,
  \<open>disk_io.hdr\<close> and \<open>disk_io.status\<close>.
\<close>

record 'h vio_hw =
  vio_read :: "u32 \<Rightarrow> 'h vstate \<Rightarrow> u32 \<times> 'h vstate"
  vio_write :: "u32 \<Rightarrow> u32 \<Rightarrow> 'h vstate \<Rightarrow> 'h vstate"
  vio_run :: "'h vstate \<Rightarrow> 'h vstate"
  desc_addr :: u64
  avail_addr :: u64
  used_addr :: u64
  hdr_addr :: u64
  status_addr :: u64

section \<open>Initialisation\<close>

definition vioR :: "'h vio_hw \<Rightarrow> u32 \<Rightarrow> ('h vstate, u32) kop" where
  "vioR H r v = Inr (vio_read H r v)"

definition vioW :: "'h vio_hw \<Rightarrow> u32 \<Rightarrow> u32 \<Rightarrow> ('h vstate, unit) kop" where
  "vioW H r x v = Inr ((), vio_write H r x v)"

partial_function (option) blk_reset_wait :: "'h vio_hw \<Rightarrow> 'h vstate \<Rightarrow> 'h vstate option" where
  "blk_reset_wait H v =
     (let (st, v) = vio_read H VIRTIO_MMIO_STATUS_OFFSET v in
      if st \<noteq> 0 then blk_reset_wait H v else Some v)"

definition blkinit :: "'h vio_hw \<Rightarrow> ('h vstate, unit) kop" where
  "blkinit H =
     bindK (vioR H VIRTIO_MMIO_MAGIC_OFFSET) (\<lambda>magic.
     if magic \<noteq> VIRTIO_MMIO_MAGIC_VALUE then failK (Panic ''blkinit: bad magic 0x%x'')
     else
     bindK (vioR H VIRTIO_MMIO_VERSION_OFFSET) (\<lambda>version.
     if version \<noteq> VIRTIO_MMIO_VERSION then failK (Panic ''blkinit: unsupported version %u (want 2)'')
     else
     bindK (vioR H VIRTIO_MMIO_DEVICEID_OFFSET) (\<lambda>device_id.
     if device_id \<noteq> VIRTIO_MMIO_DEVICEID_BLK then failK (Panic ''blkinit: unexpected device id %u'')
     else
     thenK (vioW H VIRTIO_MMIO_STATUS_OFFSET 0)
    (thenK (\<lambda>v. bindR (from_opt (blk_reset_wait H v)) (\<lambda>v. Inr ((), v)))
    (thenK (vioW H VIRTIO_MMIO_STATUS_OFFSET VIRTIO_STATUS_ACKNOWLEDGE)
    (thenK (vioW H VIRTIO_MMIO_STATUS_OFFSET (VIRTIO_STATUS_ACKNOWLEDGE OR VIRTIO_STATUS_DRIVER))
    (thenK (vioW H VIRTIO_MMIO_DEVICE_FEATURES_SEL_OFFSET 0)
    (bindK (vioR H VIRTIO_MMIO_DEVICE_FEATURES_OFFSET) (\<lambda>_.
     thenK (vioW H VIRTIO_MMIO_DEVICE_FEATURES_SEL_OFFSET 1)
    (bindK (vioR H VIRTIO_MMIO_DEVICE_FEATURES_OFFSET) (\<lambda>_.
     thenK (vioW H VIRTIO_MMIO_DRIVER_FEATURES_SEL_OFFSET 0)
    (thenK (vioW H VIRTIO_MMIO_DRIVER_FEATURES_OFFSET 0)
    (thenK (vioW H VIRTIO_MMIO_DRIVER_FEATURES_SEL_OFFSET 1)
    (thenK (vioW H VIRTIO_MMIO_DRIVER_FEATURES_OFFSET VIRTIO_F_VERSION_1)
    (thenK (vioW H VIRTIO_MMIO_STATUS_OFFSET
       (VIRTIO_STATUS_ACKNOWLEDGE OR VIRTIO_STATUS_DRIVER OR VIRTIO_STATUS_FEATURES_OK))
    (bindK (vioR H VIRTIO_MMIO_STATUS_OFFSET) (\<lambda>status_check.
     if status_check AND VIRTIO_STATUS_FEATURES_OK = 0 then
       failK (Panic ''blkinit: device rejected negotiated features'')
     else
     thenK (vioW H VIRTIO_MMIO_QUEUE_SEL_OFFSET 0)
    (bindK (vioR H VIRTIO_MMIO_QUEUE_READY_OFFSET) (\<lambda>ready.
     if ready \<noteq> 0 then failK (Panic ''blkinit: queue 0 is already active'')
     else
     bindK (vioR H VIRTIO_MMIO_QUEUE_NUM_MAX_OFFSET) (\<lambda>qmax.
     if qmax = 0 then failK (Panic ''blkinit: queue 0 not available'')
     else if unat qmax < QSIZE then failK (Panic ''blkinit: QueueNumMax %u < QSIZE %u'')
     else
     thenK (vioW H VIRTIO_MMIO_QUEUE_NUM_OFFSET (of_nat QSIZE))
    (thenK (vioW H VIRTIO_MMIO_QUEUE_DESC_LOW_OFFSET (ucast (desc_addr H)))
    (thenK (vioW H VIRTIO_MMIO_QUEUE_DESC_HIGH_OFFSET (ucast (drop_bit 32 (desc_addr H))))
    (thenK (vioW H VIRTIO_MMIO_QUEUE_DRIVER_LOW_OFFSET (ucast (avail_addr H)))
    (thenK (vioW H VIRTIO_MMIO_QUEUE_DRIVER_HIGH_OFFSET (ucast (drop_bit 32 (avail_addr H))))
    (thenK (vioW H VIRTIO_MMIO_QUEUE_DEVICE_LOW_OFFSET (ucast (used_addr H)))
    (thenK (vioW H VIRTIO_MMIO_QUEUE_DEVICE_HIGH_OFFSET (ucast (drop_bit 32 (used_addr H))))
    (thenK (vioW H VIRTIO_MMIO_QUEUE_READY_OFFSET 1)
    (vioW H VIRTIO_MMIO_STATUS_OFFSET (VIRTIO_STATUS_ACKNOWLEDGE OR VIRTIO_STATUS_DRIVER OR
       VIRTIO_STATUS_FEATURES_OK OR VIRTIO_STATUS_DRIVER_OK)))))))))))))))))))))))))))))"

section \<open>Requests\<close>

text \<open>Polling: the used index has not moved yet.\<close>

partial_function (option) vio_poll :: "'h vio_hw \<Rightarrow> u16 \<Rightarrow> 'h vstate \<Rightarrow> 'h vstate option" where
  "vio_poll H last_used v =
     (if used_idx (disk_queue v) = last_used then vio_poll H last_used (vio_run H v) else Some v)"

text \<open>The header, the three descriptors and the available ring entry of a request.\<close>

definition vio_prepare :: "'h vio_hw \<Rightarrow> u32 \<Rightarrow> u64 \<Rightarrow> u64 \<Rightarrow> 'h vstate \<Rightarrow> 'h vstate" where
  "vio_prepare H ty sector data v =
     (let io = (disk_io v)\<lparr>req_type := ty, req_reserved := 0, req_sector := sector, io_status := 0xff\<rparr>;
          d0 = \<lparr>vd_addr = hdr_addr H, vd_len = 16, vd_flags = VIRTQ_DESC_F_NEXT, vd_next = 1\<rparr>;
          d1 = \<lparr>vd_addr = data, vd_len = 512,
                vd_flags = VIRTQ_DESC_F_NEXT OR (if ty = VIRTIO_BLK_T_IN then VIRTQ_DESC_F_WRITE else 0),
                vd_next = 2\<rparr>;
          d2 = \<lparr>vd_addr = status_addr H, vd_len = 1, vd_flags = VIRTQ_DESC_F_WRITE, vd_next = 0\<rparr>;
          q = disk_queue v;
          q = q\<lparr>vq_desc := (vq_desc q)[0 := d0, 1 := d1, 2 := d2]\<rparr>;
          q = q\<lparr>avail_ring := (avail_ring q)[unat (avail_idx q) mod QSIZE := 0]\<rparr>;
          q = q\<lparr>avail_idx := avail_idx q + 1\<rparr>
      in v\<lparr>disk_io := io, disk_queue := q\<rparr>)"

definition virtio_blk_submit :: "'h vio_hw \<Rightarrow> u32 \<Rightarrow> u64 \<Rightarrow> u64 \<Rightarrow> 'h vstate \<Rightarrow> 'h vstate res" where
  "virtio_blk_submit H ty sector data v =
     (let last_used = used_idx (disk_queue v);
          v = vio_prepare H ty sector data v;
          v = vio_write H VIRTIO_MMIO_QUEUE_NOTIFY_OFFSET 0 v
      in bindR (from_opt (vio_poll H last_used v)) (\<lambda>v.
         if io_status (disk_io v) \<noteq> 0 then Inl (Panic ''virtio_blk: I/O error'') else Inr v))"

fun vio_sectors :: "'h vio_hw \<Rightarrow> u32 \<Rightarrow> u64 \<Rightarrow> u64 \<Rightarrow> nat list \<Rightarrow> 'h vstate \<Rightarrow> 'h vstate res" where
  "vio_sectors H ty first data [] v = Inr v"
| "vio_sectors H ty first data (i # is) v =
     bindR (virtio_blk_submit H ty (first + of_nat i) (data + of_nat i * 512) v) (\<lambda>v.
       vio_sectors H ty first data is v)"

definition blkread :: "'h vio_hw \<Rightarrow> u64 \<Rightarrow> u64 \<Rightarrow> 'h vstate \<Rightarrow> 'h vstate res" where
  "blkread H no data v = vio_sectors H VIRTIO_BLK_T_IN (no * 8) data [0..<8] v"

definition blkwrite :: "'h vio_hw \<Rightarrow> u64 \<Rightarrow> u64 \<Rightarrow> 'h vstate \<Rightarrow> 'h vstate res" where
  "blkwrite H no data v = vio_sectors H VIRTIO_BLK_T_OUT (no * 8) data [0..<8] v"

text \<open>
  The driver as the block cache uses it: during a request the buffer of the cache slot lies at
  the address \<open>a\<close>, from which a read returns it and where a write finds it. The code passes the
  address of the slot's own buffer; since requests are synchronous, one address stands for all.
\<close>

definition virtio_blkdev :: "'h vio_hw \<Rightarrow> u64 \<Rightarrow> 'h vstate blkdev" where
  "virtio_blkdev H a = \<lparr>
     dev_read = (\<lambda>no v. bindR (blkread H no a v) (\<lambda>v. Inr (nb (\<lambda>i. dma v (a + of_nat i)), v))),
     dev_write = (\<lambda>no b v. blkwrite H no a
       (v\<lparr>dma := (\<lambda>x. if unat (x - a) < BLKSZ then b (unat (x - a)) else dma v x)\<rparr>))\<rparr>"

section \<open>The device\<close>

text \<open>The descriptor chain that the newest available ring entry heads.\<close>

definition chain :: "virtqueue \<Rightarrow> virtq_desc \<times> virtq_desc \<times> virtq_desc" where
  "chain q =
     (let d0 = vq_desc q ! unat (avail_ring q ! (unat (avail_idx q - 1) mod QSIZE));
          d1 = vq_desc q ! unat (vd_next d0);
          d2 = vq_desc q ! unat (vd_next d1)
      in (d0, d1, d2))"

text \<open>A well-formed block request: header, 512 bytes of data, status byte.\<close>

definition chain_ok :: "'h vio_hw \<Rightarrow> 'h vstate \<Rightarrow> bool" where
  "chain_ok H v \<longleftrightarrow>
     (case chain (disk_queue v) of (d0, d1, d2) \<Rightarrow>
        vd_addr d0 = hdr_addr H \<and> vd_len d0 = 16 \<and> vd_flags d0 = VIRTQ_DESC_F_NEXT \<and>
        vd_len d1 = 512 \<and>
        vd_flags d1 = VIRTQ_DESC_F_NEXT OR
          (if req_type (disk_io v) = VIRTIO_BLK_T_IN then VIRTQ_DESC_F_WRITE else 0) \<and>
        vd_addr d2 = status_addr H \<and> vd_len d2 = 1 \<and> vd_flags d2 = VIRTQ_DESC_F_WRITE)"

definition data_addr :: "'h vstate \<Rightarrow> u64" where
  "data_addr v = vd_addr (fst (snd (chain (disk_queue v))))"

definition vs_ok :: "'h vstate \<Rightarrow> bool" where
  "vs_ok v \<longleftrightarrow> length (vq_desc (disk_queue v)) = QSIZE \<and> length (avail_ring (disk_queue v)) = QSIZE"

text \<open>
  The request is done: after finitely many steps of the device the used index has moved by
  one, and only then; the status is 0; memory and device are as given.
\<close>

definition completes :: "'h vio_hw \<Rightarrow> 'h vstate \<Rightarrow> mem \<Rightarrow> 'h \<Rightarrow> bool" where
  "completes H v m h \<longleftrightarrow>
     (\<exists>n. (\<forall>k < n. used_idx (disk_queue ((vio_run H ^^ k) (vio_write H VIRTIO_MMIO_QUEUE_NOTIFY_OFFSET 0 v))) =
             used_idx (disk_queue v)) \<and>
       (vio_run H ^^ n) (vio_write H VIRTIO_MMIO_QUEUE_NOTIFY_OFFSET 0 v) =
         v\<lparr>disk_queue := (disk_queue v)\<lparr>used_idx := used_idx (disk_queue v) + 1\<rparr>,
           disk_io := (disk_io v)\<lparr>io_status := 0\<rparr>, dma := m, hw := h\<rparr>)"

definition put512 :: "u64 \<Rightarrow> blk \<Rightarrow> mem \<Rightarrow> mem" where
  "put512 a b m = (\<lambda>x. if unat (x - a) < 512 then b (unat (x - a)) else m x)"

text \<open>
  What the virtio specification says of a block device with \<open>nsec\<close> sectors of 512 bytes that
  is given a well-formed request.
\<close>

locale virtio_device =
  fixes H :: "'h vio_hw"
    and sect :: "'h \<Rightarrow> u64 \<Rightarrow> blk"
    and dok :: "'h \<Rightarrow> bool"
    and nsec :: nat
  assumes dev_in: "dok (hw v) \<Longrightarrow> chain_ok H v \<Longrightarrow> req_type (disk_io v) = VIRTIO_BLK_T_IN \<Longrightarrow>
      unat (req_sector (disk_io v)) < nsec \<Longrightarrow>
      \<exists>h. completes H v (put512 (data_addr v) (sect (hw v) (req_sector (disk_io v))) (dma v)) h \<and>
        dok h \<and> sect h = sect (hw v)"
    and dev_out: "dok (hw v) \<Longrightarrow> chain_ok H v \<Longrightarrow> req_type (disk_io v) = VIRTIO_BLK_T_OUT \<Longrightarrow>
      unat (req_sector (disk_io v)) < nsec \<Longrightarrow>
      \<exists>h. completes H v (dma v) h \<and> dok h \<and>
        sect h = (sect (hw v))(req_sector (disk_io v) := (\<lambda>i. dma v (data_addr v + of_nat i)))"

lemma poll_completes:
  assumes "completes H v m h" and "last_used = used_idx (disk_queue v)"
  shows "vio_poll H last_used (vio_write H VIRTIO_MMIO_QUEUE_NOTIFY_OFFSET 0 v) =
    Some (v\<lparr>disk_queue := (disk_queue v)\<lparr>used_idx := used_idx (disk_queue v) + 1\<rparr>,
      disk_io := (disk_io v)\<lparr>io_status := 0\<rparr>, dma := m, hw := h\<rparr>)"
proof -
  let ?w = "vio_write H VIRTIO_MMIO_QUEUE_NOTIFY_OFFSET 0 v"
  let ?r = "v\<lparr>disk_queue := (disk_queue v)\<lparr>used_idx := used_idx (disk_queue v) + 1\<rparr>,
      disk_io := (disk_io v)\<lparr>io_status := 0\<rparr>, dma := m, hw := h\<rparr>"
  obtain n where n: "\<forall>k < n. used_idx (disk_queue ((vio_run H ^^ k) ?w)) = last_used"
      "(vio_run H ^^ n) ?w = ?r"
    using assms by (auto simp: completes_def)
  have ne: "used_idx (disk_queue ?r) \<noteq> last_used" using assms(2) by simp
  have "vio_poll H last_used ((vio_run H ^^ k) ?w) = Some ?r" if "k \<le> n" for k
    using that
  proof (induction "n - k" arbitrary: k)
    case 0
    then have "(vio_run H ^^ k) ?w = ?r" using n(2) by simp
    then show ?case using ne by (simp add: vio_poll.simps)
  next
    case (Suc d)
    then have "k < n" by simp
    then have "vio_poll H last_used ((vio_run H ^^ k) ?w) = vio_poll H last_used ((vio_run H ^^ Suc k) ?w)"
      using n(1) by (subst vio_poll.simps) simp
    then show ?case using Suc.hyps(1) [of "Suc k"] Suc.hyps(2) Suc.prems by simp
  qed
  from this [of 0] show ?thesis by simp
qed

lemma prepare_facts:
  assumes "vs_ok v"
  shows "chain_ok H (vio_prepare H ty sector a v)" and "data_addr (vio_prepare H ty sector a v) = a"
    and "vs_ok (vio_prepare H ty sector a v)"
    and "req_type (disk_io (vio_prepare H ty sector a v)) = ty"
    and "req_sector (disk_io (vio_prepare H ty sector a v)) = sector"
    and "dma (vio_prepare H ty sector a v) = dma v" and "hw (vio_prepare H ty sector a v) = hw v"
    and "used_idx (disk_queue (vio_prepare H ty sector a v)) = used_idx (disk_queue v)"
  using assms
  by (simp_all add: vio_prepare_def chain_ok_def chain_def data_addr_def vs_ok_def Let_def)

lemma submit_completes:
  assumes "vs_ok v" and "completes H (vio_prepare H ty sector a v) m h"
  shows "\<exists>v'. virtio_blk_submit H ty sector a v = Inr v' \<and> dma v' = m \<and> hw v' = h \<and> vs_ok v'"
  using poll_completes [OF assms(2) refl] prepare_facts(3) [OF assms(1), of H ty sector a]
  by (simp add: virtio_blk_submit_def prepare_facts(8) [OF assms(1)] vs_ok_def)

lemma sub_shift:
  fixes y :: u64
  assumes "c \<le> 4096"
  shows "unat (y - of_nat c) < 512 \<longleftrightarrow> c \<le> unat y \<and> unat y < c + 512"
    and "c \<le> unat y \<Longrightarrow> unat (y - of_nat c) = unat y - c"
proof -
  have c: "unat (of_nat c :: u64) = c" using assms by simp
  show e: "c \<le> unat y \<Longrightarrow> unat (y - of_nat c) = unat y - c"
    using c by (simp add: unat_sub_le word_le_nat_alt)
  have "unat y < c \<Longrightarrow> \<not> unat (y - of_nat c) < 512"
    using c assms by (simp add: unat_sub_if')
  then show "unat (y - of_nat c) < 512 \<longleftrightarrow> c \<le> unat y \<and> unat y < c + 512"
    using e by (cases "c \<le> unat y") auto
qed

text \<open>Blocks that lie on the device, and their contents: 8 sectors each.\<close>

definition vio_vb :: "nat \<Rightarrow> u64 \<Rightarrow> bool" where
  "vio_vb nsec no \<longleftrightarrow> unat no * 8 + 8 \<le> nsec \<and> unat no * 8 + 8 \<le> 18446744073709551616"

definition vio_content :: "('h \<Rightarrow> u64 \<Rightarrow> blk) \<Rightarrow> nat \<Rightarrow> 'h vstate \<Rightarrow> u64 \<Rightarrow> blk" where
  "vio_content sect nsec v no =
     (if vio_vb nsec no then nb (\<lambda>i. sect (hw v) (no * 8 + of_nat (i div 512)) (i mod 512)) else (\<lambda>_. 0))"

lemma unat_sector:
  assumes "vio_vb nsec no" and "k < 8"
  shows "unat (no * 8 + of_nat k) = unat no * 8 + k"
proof -
  have "no * 8 = of_nat (unat no * 8)" by simp
  moreover have "unat no * 8 < 18446744073709551616" using assms(1) by (simp add: vio_vb_def)
  ultimately have "unat (no * 8) = unat no * 8" by (metis unat_of_nat64)
  then show ?thesis using assms by (subst unat_add64_small) (auto simp: vio_vb_def)
qed

lemma sector_inj:
  assumes "vio_vb nsec no" and "vio_vb nsec no'" and "j < 8" and "k < 8"
  shows "no * 8 + of_nat j = no' * 8 + of_nat k \<longleftrightarrow> no = no' \<and> j = k"
proof
  assume "no * 8 + of_nat j = no' * 8 + of_nat k"
  then have "unat no * 8 + j = unat no' * 8 + k"
    using unat_sector [OF assms(1,3)] unat_sector [OF assms(2,4)] by simp
  then have "unat no = unat no' \<and> j = k" using assms(3,4) by presburger
  then show "no = no' \<and> j = k" by (simp add: word_unat_eq_iff)
qed simp

lemma div512: "512 * k \<le> y \<Longrightarrow> y < 512 * k + 512 \<Longrightarrow> y div 512 = k \<and> y mod 512 = y - 512 * k" for y k :: nat
proof -
  assume "512 * k \<le> y" "y < 512 * k + 512"
  then obtain r where r: "y = r + k * 512" "r < 512" by (metis add.commute le_Suc_ex mult.commute nat_add_left_cancel_less)
  then show ?thesis by simp
qed

context virtio_device
begin

lemma sectors_in:
  assumes "vs_ok v" and "dok (hw v)" and "vio_vb nsec no" and "k \<le> 8"
  shows "\<exists>v'. vio_sectors H VIRTIO_BLK_T_IN (no * 8) a [k..<8] v = Inr v' \<and> vs_ok v' \<and> dok (hw v') \<and>
    sect (hw v') = sect (hw v) \<and>
    dma v' = (\<lambda>x. if 512 * k \<le> unat (x - a) \<and> unat (x - a) < 4096
      then sect (hw v) (no * 8 + of_nat (unat (x - a) div 512)) (unat (x - a) mod 512) else dma v x)"
  using assms
proof (induction "8 - k" arbitrary: k v)
  case 0
  then show ?case by (auto simp: fun_eq_iff)
next
  case (Suc d)
  then have k: "k < 8" and d: "d = 8 - Suc k" by auto
  let ?s = "no * 8 + of_nat k" and ?a = "a + of_nat k * 512"
  let ?p = "vio_prepare H VIRTIO_BLK_T_IN ?s ?a v"
  have "unat ?s < nsec" using unat_sector [OF Suc.prems(3) k] Suc.prems(3) k by (simp add: vio_vb_def)
  then obtain h where h: "completes H ?p (put512 ?a (sect (hw v) ?s) (dma v)) h" "dok h" "sect h = sect (hw v)"
    using dev_in [of ?p] prepare_facts [OF Suc.prems(1), of H VIRTIO_BLK_T_IN ?s ?a] Suc.prems(2) by auto
  obtain v1 where v1: "virtio_blk_submit H VIRTIO_BLK_T_IN ?s ?a v = Inr v1"
      "dma v1 = put512 ?a (sect (hw v) ?s) (dma v)" "hw v1 = h" "vs_ok v1"
    using submit_completes [OF Suc.prems(1) h(1)] by blast
  obtain v' where v': "vio_sectors H VIRTIO_BLK_T_IN (no * 8) a [Suc k..<8] v1 = Inr v'" "vs_ok v'" "dok (hw v')"
      "sect (hw v') = sect (hw v1)"
      "dma v' = (\<lambda>x. if 512 * Suc k \<le> unat (x - a) \<and> unat (x - a) < 4096
        then sect (hw v1) (no * 8 + of_nat (unat (x - a) div 512)) (unat (x - a) mod 512) else dma v1 x)"
    using Suc.hyps(1) [OF d v1(4)] v1(3) h(2) Suc.prems(3) k by auto
  have "dma v' x = (if 512 * k \<le> unat (x - a) \<and> unat (x - a) < 4096
      then sect (hw v) (no * 8 + of_nat (unat (x - a) div 512)) (unat (x - a) mod 512) else dma v x)" for x
  proof -
    have e: "x - ?a = (x - a) - of_nat (512 * k)" by simp
    have c: "512 * k \<le> 4096" "512 * Suc k \<le> 4096" using k by auto
    have near: "unat (x - ?a) < 512 \<longleftrightarrow> 512 * k \<le> unat (x - a) \<and> unat (x - a) < 512 * k + 512"
      unfolding e by (rule sub_shift(1) [OF c(1)])
    have off: "512 * k \<le> unat (x - a) \<Longrightarrow> unat (x - ?a) = unat (x - a) - 512 * k"
      unfolding e by (rule sub_shift(2) [OF c(1)])
    consider "unat (x - a) < 512 * k" | "512 * k \<le> unat (x - a)" "unat (x - a) < 512 * k + 512"
      | "512 * Suc k \<le> unat (x - a)" by fastforce
    then show ?thesis
    proof cases
      case 2
      then have "unat (x - a) div 512 = k \<and> unat (x - a) mod 512 = unat (x - a) - 512 * k" by (rule div512)
      then show ?thesis using 2 near off v'(5) v1(2) c by (simp add: put512_def)
    qed (use near v'(5) v1(2,3) h(3) in \<open>simp_all add: put512_def\<close>)
  qed
  moreover have "[k..<8] = k # [Suc k..<8]" using k by (simp add: upt_rec)
  ultimately show ?case using v1 v' h(3) by (intro exI [of _ v']) (auto simp: fun_eq_iff)
qed

lemma sectors_out:
  assumes "vs_ok v" and "dok (hw v)" and "vio_vb nsec no" and "k \<le> 8"
  shows "\<exists>v'. vio_sectors H VIRTIO_BLK_T_OUT (no * 8) a [k..<8] v = Inr v' \<and> vs_ok v' \<and> dok (hw v') \<and>
    dma v' = dma v \<and> (\<forall>j. k \<le> j \<longrightarrow> j < 8 \<longrightarrow> (\<forall>i. sect (hw v') (no * 8 + of_nat j) i = dma v (a + of_nat j * 512 + of_nat i))) \<and>
    (\<forall>s. (\<forall>j. k \<le> j \<longrightarrow> j < 8 \<longrightarrow> s \<noteq> no * 8 + of_nat j) \<longrightarrow> sect (hw v') s = sect (hw v) s)"
  using assms
proof (induction "8 - k" arbitrary: k v)
  case 0
  then show ?case by auto
next
  case (Suc d)
  then have k: "k < 8" and d: "d = 8 - Suc k" by auto
  let ?s = "no * 8 + of_nat k" and ?a = "a + of_nat k * 512"
  let ?p = "vio_prepare H VIRTIO_BLK_T_OUT ?s ?a v"
  have "unat ?s < nsec" using unat_sector [OF Suc.prems(3) k] Suc.prems(3) k by (simp add: vio_vb_def)
  then obtain h where h: "completes H ?p (dma v) h" "dok h"
      "sect h = (sect (hw v))(?s := (\<lambda>i. dma v (?a + of_nat i)))"
    using dev_out [of ?p] prepare_facts [OF Suc.prems(1), of H VIRTIO_BLK_T_OUT ?s ?a] Suc.prems(2) by auto
  obtain v1 where v1: "virtio_blk_submit H VIRTIO_BLK_T_OUT ?s ?a v = Inr v1" "dma v1 = dma v" "hw v1 = h" "vs_ok v1"
    using submit_completes [OF Suc.prems(1) h(1)] by blast
  obtain v' where v': "vio_sectors H VIRTIO_BLK_T_OUT (no * 8) a [Suc k..<8] v1 = Inr v'" "vs_ok v'" "dok (hw v')"
      "dma v' = dma v1"
      "\<forall>j. Suc k \<le> j \<longrightarrow> j < 8 \<longrightarrow> (\<forall>i. sect (hw v') (no * 8 + of_nat j) i = dma v1 (a + of_nat j * 512 + of_nat i))"
      "\<forall>s. (\<forall>j. Suc k \<le> j \<longrightarrow> j < 8 \<longrightarrow> s \<noteq> no * 8 + of_nat j) \<longrightarrow> sect (hw v') s = sect (hw v1) s"
    using Suc.hyps(1) [OF d v1(4)] v1(3) h(2) Suc.prems(3) k by auto
  have up: "[k..<8] = k # [Suc k..<8]" using k by (simp add: upt_rec)
  have "sect (hw v') ?s = sect h ?s"
    using v'(6) v1(3) sector_inj [OF Suc.prems(3) Suc.prems(3) k] by (metis Suc_n_not_le_n)
  then have here: "sect (hw v') ?s i = dma v (?a + of_nat i)" for i using h(3) by simp
  have "\<forall>i. sect (hw v') (no * 8 + of_nat j) i = dma v (a + of_nat j * 512 + of_nat i)" if "k \<le> j" "j < 8" for j
    using that here v'(5) v1(2) by (cases "j = k") auto
  moreover have "sect (hw v') s = sect (hw v) s" if s: "\<forall>j. k \<le> j \<longrightarrow> j < 8 \<longrightarrow> s \<noteq> no * 8 + of_nat j" for s
  proof -
    have "sect (hw v') s = sect (hw v1) s" using v'(6) s by simp
    moreover have "s \<noteq> ?s" using s k by simp
    ultimately show ?thesis using h(3) v1(3) by simp
  qed
  ultimately show ?case using v1 v' up by (intro exI [of _ v']) simp
qed

text \<open>The driver reads and writes whole blocks.\<close>

lemma driver_read:
  assumes "vs_ok v" and "dok (hw v)" and "vio_vb nsec no"
  shows "\<exists>v'. dev_read (virtio_blkdev H a) no v = Inr (vio_content sect nsec v no, v') \<and>
    (vs_ok v' \<and> dok (hw v')) \<and> vio_content sect nsec v' = vio_content sect nsec v"
proof -
  obtain v' where v': "vio_sectors H VIRTIO_BLK_T_IN (no * 8) a [0..<8] v = Inr v'" "vs_ok v'" "dok (hw v')"
      "sect (hw v') = sect (hw v)"
      "dma v' = (\<lambda>x. if 512 * 0 \<le> unat (x - a) \<and> unat (x - a) < 4096
        then sect (hw v) (no * 8 + of_nat (unat (x - a) div 512)) (unat (x - a) mod 512) else dma v x)"
    using sectors_in [OF assms, of 0] by auto
  have "nb (\<lambda>i. dma v' (a + of_nat i)) = vio_content sect nsec v no"
    using assms(3) v'(5) by (auto simp: nb_def vio_content_def fun_eq_iff BLKSZ_def)
  moreover have "vio_content sect nsec v' = vio_content sect nsec v"
    using v'(4) by (simp add: vio_content_def fun_eq_iff)
  ultimately show ?thesis using v' by (simp add: virtio_blkdev_def blkread_def)
qed

lemma driver_write:
  assumes "vs_ok v" and "dok (hw v)" and "vio_vb nsec no"
  shows "\<exists>v'. dev_write (virtio_blkdev H a) no b v = Inr v' \<and>
    (vs_ok v' \<and> dok (hw v')) \<and> vio_content sect nsec v' = (vio_content sect nsec v)(no := nb b)"
proof -
  let ?v = "v\<lparr>dma := (\<lambda>x. if unat (x - a) < BLKSZ then b (unat (x - a)) else dma v x)\<rparr>"
  have "vs_ok ?v" "dok (hw ?v)" using assms by (simp_all add: vs_ok_def)
  then obtain v' where v': "vio_sectors H VIRTIO_BLK_T_OUT (no * 8) a [0..<8] ?v = Inr v'" "vs_ok v'" "dok (hw v')"
      "\<forall>j. 0 \<le> j \<longrightarrow> j < 8 \<longrightarrow> (\<forall>i. sect (hw v') (no * 8 + of_nat j) i = dma ?v (a + of_nat j * 512 + of_nat i))"
      "\<forall>s. (\<forall>j. 0 \<le> j \<longrightarrow> j < 8 \<longrightarrow> s \<noteq> no * 8 + of_nat j) \<longrightarrow> sect (hw v') s = sect (hw v) s"
    using sectors_out [of ?v no 0 a] assms(3) by auto
  have "vio_content sect nsec v' x = ((vio_content sect nsec v)(no := nb b)) x" for x
  proof (cases "x = no")
    case True
    have "sect (hw v') (no * 8 + of_nat (i div 512)) (i mod 512) = b i" if "i < 4096" for i
    proof -
      have "i div 512 < 8" using that by (simp add: less_mult_imp_div_less)
      then have "sect (hw v') (no * 8 + of_nat (i div 512)) (i mod 512) =
          dma ?v (a + of_nat (i div 512) * 512 + of_nat (i mod 512))" using v'(4) by simp
      moreover have "of_nat (i div 512) * 512 + of_nat (i mod 512) = (of_nat i :: u64)"
        by (metis div_mult_mod_eq of_nat_add of_nat_mult of_nat_numeral)
      ultimately show ?thesis using that by (simp add: BLKSZ_def add.assoc)
    qed
    then show ?thesis using True assms(3) by (auto simp: vio_content_def nb_def BLKSZ_def fun_eq_iff)
  next
    case False
    have "sect (hw v') (x * 8 + of_nat (i div 512)) = sect (hw v) (x * 8 + of_nat (i div 512))"
      if "vio_vb nsec x" "i < 4096" for i
    proof -
      have "i div 512 < 8" using that by (simp add: less_mult_imp_div_less)
      then show ?thesis using v'(5) sector_inj [OF that(1) assms(3)] False by blast
    qed
    then show ?thesis using False by (auto simp: vio_content_def nb_def BLKSZ_def fun_eq_iff)
  qed
  then have "vio_content sect nsec v' = (vio_content sect nsec v)(no := nb b)" by (rule ext)
  then show ?thesis using v' by (auto simp: virtio_blkdev_def blkwrite_def)
qed

end

text \<open>A driver on such a device is the block device the cache relies on.\<close>

sublocale virtio_device \<subseteq> drv: block_device "virtio_blkdev H a" "vio_content sect nsec"
  "\<lambda>v. vs_ok v \<and> dok (hw v)" "vio_vb nsec"
  for a
proof unfold_locales
  show "nb (vio_content sect nsec d no) = vio_content sect nsec d no" for d no
    by (simp add: vio_content_def nb_def fun_eq_iff)
qed (use driver_read driver_write in blast)+

section \<open>A concrete device\<close>

text \<open>
  A device that performs a request when it is notified, with its status register and its
  sectors. It shows that the behaviour \<open>virtio_device\<close> asks for can be had.
\<close>

record ref_dev =
  rd_status :: u32
  rd_sectors :: "u64 \<Rightarrow> blk"

definition ref_request :: "ref_dev vstate \<Rightarrow> ref_dev vstate" where
  "ref_request v =
     (let s = req_sector (disk_io v); a = data_addr v;
          v' = v\<lparr>disk_queue := (disk_queue v)\<lparr>used_idx := used_idx (disk_queue v) + 1\<rparr>,
                disk_io := (disk_io v)\<lparr>io_status := 0\<rparr>\<rparr>
      in if req_type (disk_io v) = VIRTIO_BLK_T_IN then v'\<lparr>dma := put512 a (rd_sectors (hw v) s) (dma v)\<rparr>
         else v'\<lparr>hw := (hw v)\<lparr>rd_sectors := (rd_sectors (hw v))(s := (\<lambda>i. dma v (a + of_nat i)))\<rparr>\<rparr>)"

definition ref_reg_read :: "u32 \<Rightarrow> ref_dev vstate \<Rightarrow> u32 \<times> ref_dev vstate" where
  "ref_reg_read r v =
     (if r = VIRTIO_MMIO_MAGIC_OFFSET then VIRTIO_MMIO_MAGIC_VALUE
      else if r = VIRTIO_MMIO_VERSION_OFFSET then VIRTIO_MMIO_VERSION
      else if r = VIRTIO_MMIO_DEVICEID_OFFSET then VIRTIO_MMIO_DEVICEID_BLK
      else if r = VIRTIO_MMIO_STATUS_OFFSET then rd_status (hw v)
      else if r = VIRTIO_MMIO_QUEUE_NUM_MAX_OFFSET then 8
      else 0, v)"

definition ref_reg_write :: "u32 \<Rightarrow> u32 \<Rightarrow> ref_dev vstate \<Rightarrow> ref_dev vstate" where
  "ref_reg_write r x v =
     (if r = VIRTIO_MMIO_STATUS_OFFSET then v\<lparr>hw := (hw v)\<lparr>rd_status := x\<rparr>\<rparr>
      else if r = VIRTIO_MMIO_QUEUE_NOTIFY_OFFSET then ref_request v
      else v)"

definition ref_vio :: "ref_dev vio_hw" where
  "ref_vio = \<lparr>vio_read = ref_reg_read, vio_write = ref_reg_write, vio_run = (\<lambda>v. v),
     desc_addr = 0x80210000, avail_addr = 0x80210080, used_addr = 0x80211000,
     hdr_addr = 0x80212000, status_addr = 0x80212010\<rparr>"

definition ref_nsec :: nat where
  "ref_nsec = 262144"

interpretation rdev: virtio_device ref_vio rd_sectors "\<lambda>_. True" ref_nsec
proof
  fix v :: "ref_dev vstate"
  assume t: "req_type (disk_io v) = VIRTIO_BLK_T_IN"
  show "\<exists>h. completes ref_vio v (put512 (data_addr v) (rd_sectors (hw v) (req_sector (disk_io v))) (dma v)) h \<and>
      True \<and> rd_sectors h = rd_sectors (hw v)"
    using t by (intro exI [of _ "hw v"])
      (auto simp: completes_def ref_vio_def ref_reg_write_def ref_request_def Let_def intro!: exI [of _ 0])
next
  fix v :: "ref_dev vstate"
  let ?h = "(hw v)\<lparr>rd_sectors := (rd_sectors (hw v))(req_sector (disk_io v) := (\<lambda>i. dma v (data_addr v + of_nat i)))\<rparr>"
  assume t: "req_type (disk_io v) = VIRTIO_BLK_T_OUT"
  show "\<exists>h. completes ref_vio v (dma v) h \<and> True \<and>
      rd_sectors h = (rd_sectors (hw v))(req_sector (disk_io v) := (\<lambda>i. dma v (data_addr v + of_nat i)))"
    using t by (intro exI [of _ ?h])
      (auto simp: completes_def ref_vio_def ref_reg_write_def ref_request_def Let_def intro!: exI [of _ 0])
qed

text \<open>A state of driver and device, and an empty cache on it, used by the witnesses.\<close>

definition vs0 :: "ref_dev vstate" where
  "vs0 = \<lparr>disk_queue = \<lparr>vq_desc = replicate 8 \<lparr>vd_addr = 0, vd_len = 0, vd_flags = 0, vd_next = 0\<rparr>,
       avail_idx = 0, avail_ring = replicate 8 0, used_idx = 0\<rparr>,
     disk_io = \<lparr>req_type = 0, req_reserved = 0, req_sector = 0, io_status = 0\<rparr>,
     dma = (\<lambda>_. 0), hw = \<lparr>rd_status = 0, rd_sectors = (\<lambda>_ _. 7)\<rparr>\<rparr>"

definition bc0 :: "ref_dev vstate bc_state" where
  "bc0 = \<lparr>dst = vs0, slots = replicate 64 \<lparr>blk_no = 0, bvalid = False, bdirty = False, brefcnt = 0, bdata = (\<lambda>_. 0)\<rparr>\<rparr>"

abbreviation "ref_content \<equiv> vio_content rd_sectors ref_nsec"
abbreviation "ref_ok \<equiv> (\<lambda>v. vs_ok v \<and> True)"
abbreviation "ref_vb \<equiv> vio_vb ref_nsec"

lemma bc0_inv: "bc_inv ref_content ref_ok ref_vb bc0"
  by (simp add: bc_inv_def bc0_def slots_inv_def vs_ok_def vs0_def NBLKNUM_def)

lemma ref_device: "block_device (virtio_blkdev ref_vio a) ref_content ref_ok ref_vb"
  by (rule rdev.drv.block_device_axioms)

section \<open>Properties of driver and cache\<close>

text \<open>
  C20: on any device that behaves as the virtio specification says, \<open>blkwrite\<close> of a block and a
  later \<open>blkread\<close> of the same block return, and the buffer then holds what was written; all
  other blocks of the device are unchanged.
\<close>

theorem virtio_write_read:
  assumes "virtio_device H sect dok nsec" and "vs_ok v" and "dok (hw v)" and "vio_vb nsec no"
  shows "\<exists>v1 v2. dev_write (virtio_blkdev H a) no b v = Inr v1 \<and>
    dev_read (virtio_blkdev H a) no v1 = Inr (nb b, v2) \<and>
    (\<forall>x. x \<noteq> no \<longrightarrow> vio_content sect nsec v2 x = vio_content sect nsec v x)"
proof -
  obtain v1 where v1: "dev_write (virtio_blkdev H a) no b v = Inr v1" "vs_ok v1 \<and> dok (hw v1)"
      "vio_content sect nsec v1 = (vio_content sect nsec v)(no := nb b)"
    using virtio_device.driver_write [OF assms] by blast
  obtain v2 where "dev_read (virtio_blkdev H a) no v1 = Inr (vio_content sect nsec v1 no, v2)"
      "vio_content sect nsec v2 = vio_content sect nsec v1"
    using virtio_device.driver_read [OF assms(1) _ _ assms(4)] v1(2) by blast
  with v1 show ?thesis by simp
qed

theorem virtio_write_read_witness:
  "\<exists>v1 v2. dev_write (virtio_blkdev ref_vio 0x80220000) 3 (\<lambda>i. of_nat i) vs0 = Inr v1 \<and>
    dev_read (virtio_blkdev ref_vio 0x80220000) 3 v1 = Inr (nb (\<lambda>i. of_nat i), v2) \<and>
    (\<forall>x. x \<noteq> 3 \<longrightarrow> ref_content v2 x = ref_content vs0 x)"
proof (rule virtio_write_read)
  show "virtio_device ref_vio rd_sectors (\<lambda>_. True) ref_nsec" by (rule rdev.virtio_device_axioms)
  show "vs_ok vs0" by (simp add: vs_ok_def vs0_def)
  show "vio_vb ref_nsec 3" by (simp add: vio_vb_def ref_nsec_def)
qed simp

text \<open>
  C11: \<open>bread\<close> of a block of the device, when the block is cached or a slot is free: it
  returns a slot that holds the block as the file system sees it (the latest version, on
  disk or cached), evicting and writing back another block if it must without changing what
  is seen of any block, and takes a reference.
\<close>

theorem bread_correct:
  assumes "block_device D content ok vb" and "bc_inv content ok vb s" and "vb no"
    and "slot_of (slots s) no \<noteq> None \<or> (\<exists>i < NBLKNUM. brefcnt (slots s ! i) = 0)"
  shows "\<exists>i s'. bread D no s = Inr (i, s') \<and> i < NBLKNUM \<and> blk_no (slots s' ! i) = no \<and>
    nb (bdata (slots s' ! i)) = view content s no \<and> view content s' = view content s \<and>
    bc_inv content ok vb s' \<and>
    brefcnt (slots s' ! i) = (if slot_of (slots s) no = None then 0 else brefcnt (slots s ! i)) + 1 \<and>
    (\<forall>j < NBLKNUM. j \<noteq> i \<longrightarrow> slots s' ! j = slots s ! j)"
  using block_device.bread_ok [OF assms] by blast

theorem bread_correct_witness:
  "\<exists>i s'. bread (virtio_blkdev ref_vio 0x80220000) 5 bc0 = Inr (i, s') \<and> i < NBLKNUM \<and>
    blk_no (slots s' ! i) = 5 \<and> nb (bdata (slots s' ! i)) = view ref_content bc0 5"
proof -
  have "vio_vb ref_nsec 5" by (simp add: vio_vb_def ref_nsec_def)
  moreover have "\<exists>i < NBLKNUM. brefcnt (slots bc0 ! i) = 0"
    by (intro exI [of _ 0]) (simp add: bc0_def NBLKNUM_def)
  ultimately show ?thesis
    using bread_correct [OF ref_device bc0_inv, of 5 "0x80220000"] by blast
qed

text \<open>
  C19: \<open>bsync\<close> returns and makes the device hold exactly what the file system sees, for every
  block, so that no modification is lost.
\<close>

theorem bsync_correct:
  assumes "block_device D content ok vb" and "bc_inv content ok vb s"
  shows "\<exists>s'. bsync D s = Inr ((), s') \<and> bc_inv content ok vb s' \<and> content (dst s') = view content s"
  using block_device.bsync_ok [OF assms] by blast

theorem bsync_correct_witness:
  "\<exists>s'. bsync (virtio_blkdev ref_vio 0x80220000) bc0 = Inr ((), s') \<and>
    ref_content (dst s') = view ref_content bc0"
  using bsync_correct [OF ref_device bc0_inv, of "0x80220000"] by blast

text \<open>
  C1: reading a block, changing its buffer to \<open>b\<close>, marking it dirty, releasing it and
  synchronising puts exactly \<open>b\<close> on the device at that block and leaves every other block as
  the file system saw it.
\<close>

theorem cache_write_reaches_disk:
  assumes "block_device D content ok vb" and "bc_inv content ok vb s" and "vb no"
    and "slot_of (slots s) no = None" and "\<exists>i < NBLKNUM. brefcnt (slots s ! i) = 0"
  shows "\<exists>s'. bindK (bread D no) (\<lambda>c. thenK (bput c b) (thenK (bwrite c) (thenK (brelse c) (bsync D)))) s = Inr ((), s') \<and>
    content (dst s') = (view content s)(no := nb b)"
proof -
  obtain i s1 where s1: "bread D no s = Inr (i, s1)" "bc_inv content ok vb s1" "view content s1 = view content s"
      "i < NBLKNUM" "bvalid (slots s1 ! i)" "blk_no (slots s1 ! i) = no" "brefcnt (slots s1 ! i) = 1"
    using block_device.bread_ok [OF assms(1-3)] assms(4,5) by auto
  obtain s2 where s2: "thenK (bput i b) (bwrite i) s1 = Inr ((), s2)" "bc_inv content ok vb s2"
      "s2 = s1\<lparr>slots := (slots s1)[i := (slots s1 ! i)\<lparr>bdata := b, bdirty := True\<rparr>]\<rparr>"
      "view content s2 = (view content s1)(no := nb b)"
    using block_device.write_slot [OF assms(1) s1(2,4,5), of b] s1(6) by auto
  have len: "length (slots s1) = NBLKNUM" using s1(2) by (simp add: bc_inv_def slots_inv_def)
  have sl: "bvalid (slots s2 ! i)" "0 < sint (brefcnt (slots s2 ! i))"
    using s2(3) s1(4,5,7) len by auto
  obtain s3 where s3: "brelse i s2 = Inr ((), s3)" "bc_inv content ok vb s3" "view content s3 = view content s2"
    using block_device.brelse_ok [OF assms(1) s2(2) s1(4) sl] by blast
  obtain s4 where s4: "bsync D s3 = Inr ((), s4)" "content (dst s4) = view content s3"
    using block_device.bsync_ok [OF assms(1) s3(2)] by blast
  have "bindK (bread D no) (\<lambda>c. thenK (bput c b) (thenK (bwrite c) (thenK (brelse c) (bsync D)))) s = Inr ((), s4)"
    using s1(1) s2(1) s3(1) s4(1) by (auto simp: kop_simps bindR_def split: sum.splits)
  then show ?thesis using s4(2) s3(3) s2(4) s1(3) by auto
qed

theorem cache_write_reaches_disk_witness:
  "\<exists>s'. bindK (bread (virtio_blkdev ref_vio 0x80220000) 5)
      (\<lambda>c. thenK (bput c (\<lambda>_. 9)) (thenK (bwrite c) (thenK (brelse c) (bsync (virtio_blkdev ref_vio 0x80220000))))) bc0 =
    Inr ((), s') \<and> ref_content (dst s') = (view ref_content bc0)(5 := nb (\<lambda>_. 9))"
proof (rule cache_write_reaches_disk [OF ref_device bc0_inv])
  show "vio_vb ref_nsec 5" by (simp add: vio_vb_def ref_nsec_def)
  show "slot_of (slots bc0) 5 = None" by (simp add: slot_of_None bc0_def NBLKNUM_def)
  show "\<exists>i < NBLKNUM. brefcnt (slots bc0 ! i) = 0" by (intro exI [of _ 0]) (simp add: bc0_def NBLKNUM_def)
qed

end
