(* ===== verification/Console.thy ===== *)
theory Console
  imports Prelude
begin

text \<open>
  \<open>kernel/console.c\<close>: formatted output. Every function sends its characters with
  \<open>uart_putc\<close>, one by one; the model returns the characters in that order, with the count
  the function returns.
\<close>

section \<open>Operations\<close>

definition printstr :: "u8 list option \<Rightarrow> u8 list \<times> u64" where
  "printstr s = (case s of None \<Rightarrow> ([], 0) | Some cs \<Rightarrow> (cs, of_nat (length cs)))"

definition digit_char :: "u64 \<Rightarrow> u8" where
  "digit_char d = (if d < 10 then 0x30 + ucast d else 0x61 + ucast d - 10)"

text \<open>
  The \<open>do\<close> loop of \<open>printnum\<close>: the digits of \<open>val\<close>, the least significant first, as they are
  put into \<open>buf\<close>. A 64-bit number has at most 64 digits.
\<close>

fun num_digits :: "nat \<Rightarrow> u64 \<Rightarrow> u64 \<Rightarrow> u8 list" where
  "num_digits 0 base val = []"
| "num_digits (Suc fuel) base val =
     digit_char (val mod base) # (if val div base \<noteq> 0 then num_digits fuel base (val div base) else [])"

definition printnum :: "u64 \<Rightarrow> u64 \<Rightarrow> bool \<Rightarrow> bool \<Rightarrow> u8 list \<times> u64" where
  "printnum val base is_signed neg =
     (let val = (if is_signed \<and> neg then - val else val);
          buf = num_digits 64 base val;
          buf = (if neg then buf @ [0x2D] else buf);
          out = rev buf
      in (out, of_nat (length out)))"

text \<open>
  The variable arguments: a number as it lies in its 64-bit slot, or a string, \<open>None\<close> for a
  null pointer. \<open>va_arg\<close> of a 32-bit type takes the low half of the slot.
\<close>

datatype varg = VNum u64 | VStr "u8 list option"

definition va_i32 :: "u64 \<Rightarrow> u64" where
  "va_i32 v = scast (ucast v :: i32)"

definition va_u32 :: "u64 \<Rightarrow> u64" where
  "va_u32 v = ucast (ucast v :: u32)"

definition take_num :: "varg list \<Rightarrow> (u64 \<times> varg list) res" where
  "take_num ap = (case ap of VNum v # ap' \<Rightarrow> Inr (v, ap') | _ \<Rightarrow> Inl (Fault ''va_arg''))"

definition take_str :: "varg list \<Rightarrow> (u8 list option \<times> varg list) res" where
  "take_str ap = (case ap of VStr v # ap' \<Rightarrow> Inr (v, ap') | _ \<Rightarrow> Inl (Fault ''va_arg''))"

text \<open>
  The \<open>switch\<close> of \<open>vprintf\<close> on the conversion character \<open>c\<close>, after the length modifiers: the
  characters sent, what is added to \<open>cnt\<close> and the remaining arguments.
\<close>

definition vprintf_conv :: "u8 \<Rightarrow> bool \<Rightarrow> varg list \<Rightarrow> (u8 list \<times> u64 \<times> varg list) res" where
  "vprintf_conv c long ap =
     (if c = 0x64 then
        bindR (take_num ap) (\<lambda>(v, ap).
          let sval = (if long then v else va_i32 v);
              (out, n) = printnum sval 10 True (sint sval < 0)
          in Inr (out, n, ap))
      else if c = 0x75 then
        bindR (take_num ap) (\<lambda>(v, ap).
          let (out, n) = printnum (if long then v else va_u32 v) 10 False False in Inr (out, n, ap))
      else if c = 0x78 then
        bindR (take_num ap) (\<lambda>(v, ap).
          let (out, n) = printnum (if long then v else va_u32 v) 16 False False in Inr (out, n, ap))
      else if c = 0x70 then
        bindR (take_num ap) (\<lambda>(v, ap).
          let (out0, n0) = printstr (Some [0x30, 0x78]); (out, n) = printnum v 16 False False
          in Inr (out0 @ out, n0 + n, ap))
      else if c = 0x63 then
        bindR (take_num ap) (\<lambda>(v, ap). Inr ([ucast v], 1, ap))
      else if c = 0x73 then
        bindR (take_str ap) (\<lambda>(v, ap). let (out, n) = printstr v in Inr (out, n, ap))
      else if c = 0x25 then Inr ([0x25], 1, ap)
      else Inr ([0x25, c], 2, ap))"

text \<open>
  The length modifiers: \<open>l\<close> and \<open>ll\<close> both select a 64-bit argument. The list holds the bytes
  from the pointer on that belong to the array the pointer is into.
\<close>

fun vprintf_mod :: "u8 list \<Rightarrow> bool \<times> u8 list" where
  "vprintf_mod [] = (False, [])"
| "vprintf_mod (c # cs) =
     (if c = 0x6C then (True, (case cs of [] \<Rightarrow> [] | d # ds \<Rightarrow> if d = 0x6C then ds else d # ds))
      else (False, c # cs))"

lemma vprintf_mod_length: "vprintf_mod cs = (l, ds) \<Longrightarrow> length ds \<le> length cs"
  by (cases cs) (auto split: if_splits list.splits)

text \<open>
  The loop of \<open>vprintf\<close>. The format is the list of the bytes of its array from \<open>fmt\<close> on, with the
  terminating NUL and whatever lies behind it; a read behind the array is a fault. The first
  test is that of the \<open>for\<close> loop, the test for the NUL behind a percent sign is the code's own,
  and after a length modifier there is none: the \<open>switch\<close> gets what is there.
\<close>

function vprintf :: "u8 list \<Rightarrow> varg list \<Rightarrow> (u8 list \<times> i32) res" where
  "vprintf [] ap = Inl (Fault ''vprintf: read past the format'')"
| "vprintf (c # cs) ap =
     (if c = 0 then Inr ([], 0)
      else if c \<noteq> 0x25 then bindR (vprintf cs ap) (\<lambda>(out, n). Inr (c # out, 1 + n))
      else if cs \<noteq> [] \<and> hd cs = 0 then Inr ([0x25], 0)
      else
        (case vprintf_mod cs of (long, ds) \<Rightarrow>
          (case ds of
             [] \<Rightarrow> Inl (Fault ''vprintf: read past the format'')
           | d # ds' \<Rightarrow>
               bindR (vprintf_conv d long ap) (\<lambda>(out0, n0, ap).
               bindR (vprintf ds' ap) (\<lambda>(out, n). Inr (out0 @ out, ucast n0 + n))))))"
  by pat_completeness auto
termination
  by (relation "measure (\<lambda>(cs, ap). length cs)") (auto dest: vprintf_mod_length [OF sym])

definition printf :: "u8 list \<Rightarrow> varg list \<Rightarrow> (u8 list \<times> i32) res" where
  "printf fmt ap = vprintf fmt ap"


section \<open>Numbers\<close>

text \<open>Reading a number back: the value of a digit and of a list of digits.\<close>

definition digit_val :: "u8 \<Rightarrow> nat" where
  "digit_val c = (if c \<le> 0x39 then unat c - 0x30 else unat c - 0x57)"

definition parse_nat :: "nat \<Rightarrow> u8 list \<Rightarrow> nat" where
  "parse_nat base cs = foldl (\<lambda>n c. n * base + digit_val c) 0 cs"

fun parse_int :: "nat \<Rightarrow> u8 list \<Rightarrow> int" where
  "parse_int base (c # cs) = (if c = 0x2D then - int (parse_nat base cs) else int (parse_nat base (c # cs)))"
| "parse_int base [] = 0"

lemma digit_table: "\<forall>n \<in> set [0..<16]. digit_val (digit_char (of_nat n)) = n \<and> digit_char (of_nat n) \<noteq> 0x2D"
  by code_simp

lemma digit_val_char: "unat d < 16 \<Longrightarrow> digit_val (digit_char d) = unat d"
  using digit_table [rule_format, of "unat d"] by simp

lemma digit_char_not_sign: "unat d < 16 \<Longrightarrow> digit_char d \<noteq> 0x2D"
  using digit_table [rule_format, of "unat d"] by simp

lemma unat_mod_base: "0 < unat base \<Longrightarrow> unat base \<le> 16 \<Longrightarrow> unat (v mod base :: u64) < 16"
  by (metis less_le_trans mod_less_divisor unat_mod_distrib)

lemma num_digits_value:
  assumes "1 < unat base" and "unat base \<le> 16" and "unat v < unat base ^ fuel"
  shows "foldr (\<lambda>c n. n * unat base + digit_val c) (num_digits fuel base v) 0 = unat v"
  using assms(3)
proof (induction fuel arbitrary: v)
  case 0
  then show ?case
    by simp
next
  case (Suc fuel)
  have d: "digit_val (digit_char (v mod base)) = unat v mod unat base"
    using unat_mod_base [of base v] assms(1,2) by (simp add: digit_val_char unat_mod_distrib)
  have "unat (v div base) < unat base ^ fuel"
    using Suc.prems by (simp add: unat_div_distrib less_mult_imp_div_less mult.commute)
  note ih = Suc.IH [OF this]
  show ?case
  proof (cases "v div base = 0")
    case True
    then have "unat v div unat base = 0"
      by (metis unat_0 unat_div_distrib)
    then have "unat v mod unat base = unat v"
      by (metis add.left_neutral div_mult_mod_eq mult_0)
    then show ?thesis
      using True d by simp
  next
    case False
    then show ?thesis
      using ih d by (simp add: unat_div_distrib)
  qed
qed

lemma num_digits_chars:
  assumes "1 < unat base" and "unat base \<le> 16"
  shows "c \<in> set (num_digits fuel base v) \<Longrightarrow> c \<noteq> 0x2D \<and> digit_val c < unat base"
proof (induction fuel arbitrary: v)
  case (Suc fuel)
  have "digit_char (v mod base) \<noteq> 0x2D" "digit_val (digit_char (v mod base)) < unat base"
    using unat_mod_base [of base v] assms by (simp_all add: digit_char_not_sign digit_val_char unat_mod_distrib)
  then show ?case
    using Suc by (auto split: if_splits)
qed simp

lemma num_digits_not_Nil: "num_digits (Suc fuel) base v \<noteq> []"
  by simp

lemma num_digits_lead:
  assumes "1 < unat base" and "unat base \<le> 16" and "v \<noteq> 0" and "unat v < unat base ^ fuel"
  shows "digit_val (List.last (num_digits fuel base v)) \<noteq> 0"
  using assms(3,4)
proof (induction fuel arbitrary: v)
  case (Suc fuel)
  show ?case
  proof (cases "v div base = 0")
    case True
    then have "unat v div unat base = 0"
      by (metis unat_0 unat_div_distrib)
    then have "unat v mod unat base = unat v"
      by (metis add.left_neutral div_mult_mod_eq mult_0)
    then show ?thesis
      using True unat_mod_base [of base v] assms(1,2) Suc.prems(1)
      by (simp add: digit_val_char unat_mod_distrib unat_eq_zero)
  next
    case False
    have b: "unat (v div base) < unat base ^ fuel"
      using Suc.prems by (simp add: unat_div_distrib less_mult_imp_div_less mult.commute)
    then have "fuel \<noteq> 0"
      using False by (intro notI) (simp add: unat_eq_zero)
    then show ?thesis
      using Suc.IH [OF False b] False num_digits_not_Nil by (cases fuel) auto
  qed
qed (simp add: unat_eq_zero)

lemma pow64_le_base: "1 < b \<Longrightarrow> unat (v :: u64) < b ^ 64"
  using power_mono [of 2 b 64] less_le_trans [OF unat_lt_pow64 [of v]] by simp

lemma printnum_unsigned:
  assumes "1 < unat base" and "unat base \<le> 16"
  shows "parse_nat (unat base) (fst (printnum v base False False)) = unat v"
    and "v \<noteq> 0 \<Longrightarrow> digit_val (hd (fst (printnum v base False False))) \<noteq> 0"
    and "set (fst (printnum v base False False)) \<subseteq> {c. c \<noteq> 0x2D \<and> digit_val c < unat base}"
  using num_digits_value [OF assms pow64_le_base [OF assms(1)], of v]
    num_digits_lead [OF assms _ pow64_le_base [OF assms(1)], of v] num_digits_chars [OF assms, of _ 64 v]
  by (auto simp: printnum_def parse_nat_def Let_def foldl_conv_foldr hd_rev)


text \<open>A signed number is printed with its sign; the most negative one, whose negation
  overflows, is printed right as well.\<close>

lemma parse_int_unsigned: "cs \<noteq> [] \<Longrightarrow> hd cs \<noteq> 0x2D \<Longrightarrow> parse_int base cs = int (parse_nat base cs)"
  by (cases cs) simp_all

lemma printnum_unsigned_hd:
  assumes "1 < unat base" and "unat base \<le> 16"
  shows "fst (printnum v base False False) \<noteq> []" "hd (fst (printnum v base False False)) \<noteq> 0x2D"
  using num_digits_not_Nil [of 63 base v] num_digits_chars [OF assms, of _ 64 v]
  by (auto simp: printnum_def Let_def hd_rev)

lemma printnum_neg: "fst (printnum v base True True) = 0x2D # fst (printnum (- v) base False False)"
  by (simp add: printnum_def Let_def)

lemma printnum_pos: "fst (printnum v base True False) = fst (printnum v base False False)"
  by (simp add: printnum_def Let_def)


lemma printnum_signed:
  "parse_int 10 (fst (printnum v 10 True (sint v < 0))) = sint v"
proof (cases "sint v < 0")
  case True
  then show ?thesis
    using printnum_unsigned(1) [of 10 "- v"] unat_neg_sint [of v] by (simp add: printnum_neg)
next
  case False
  have "parse_int 10 (fst (printnum v 10 False False)) = int (parse_nat 10 (fst (printnum v 10 False False)))"
    using printnum_unsigned_hd [of 10 v] by (intro parse_int_unsigned) simp_all
  then show ?thesis
    using False printnum_unsigned(1) [of 10 v] unat_sint_pos [of v] by (simp add: printnum_pos)
qed

lemma printnum_count: "snd (printnum v base is neg) = of_nat (length (fst (printnum v base is neg)))"
  by (simp add: printnum_def Let_def)

section \<open>The formatted output\<close>

text \<open>A digit string and the result of the rest of the format.\<close>

lemma vprintf_conv_step:
  assumes "vprintf_mod cs = (long, d # fmt)" and "hd cs \<noteq> 0"
    and "vprintf_conv d long ap = Inr (ds, of_nat (length ds), ap')"
  shows "vprintf (0x25 # cs) ap =
    bindR (vprintf fmt ap') (\<lambda>(out, n). Inr (ds @ out, of_nat (length ds) + n))"
  using assms by simp

lemma conv_signed:
  "vprintf_conv 0x64 long (VNum v # ap) =
     (let ds = fst (printnum (if long then v else va_i32 v) 10 True (sint (if long then v else va_i32 v) < 0))
      in Inr (ds, of_nat (length ds), ap))"
  by (simp add: vprintf_conv_def take_num_def Let_def case_prod_beta printnum_count)

lemma conv_unsigned:
  "vprintf_conv (if hex then 0x78 else 0x75) long (VNum v # ap) =
     (let ds = fst (printnum (if long then v else va_u32 v) (if hex then 16 else 10) False False)
      in Inr (ds, of_nat (length ds), ap))"
  by (simp add: vprintf_conv_def take_num_def Let_def case_prod_beta printnum_count)

text \<open>C35: \<open>%d\<close> and \<open>%ld\<close> print the argument, read as a 32-bit or a 64-bit signed number, in
  decimal: the characters sent read back as exactly that number, the most negative numbers
  included, and the rest of the format goes on behind them.\<close>

theorem printf_signed:
  "\<exists>ds. vprintf (0x25 # (if long then [0x6C] else []) @ 0x64 # fmt) (VNum v # ap) =
          bindR (vprintf fmt ap) (\<lambda>(out, n). Inr (ds @ out, of_nat (length ds) + n)) \<and>
        parse_int 10 ds = (if long then sint v else sint (ucast v :: i32))"
proof (intro exI conjI)
  let ?v = "if long then v else va_i32 v"
  let ?ds = "fst (printnum ?v 10 True (sint ?v < 0))"
  show "vprintf (0x25 # (if long then [0x6C] else []) @ 0x64 # fmt) (VNum v # ap) =
      bindR (vprintf fmt ap) (\<lambda>(out, n). Inr (?ds @ out, of_nat (length ?ds) + n))"
    by (rule vprintf_conv_step [where long = long], simp, simp) (simp only: conv_signed Let_def)
  show "parse_int 10 ?ds = (if long then sint v else sint (ucast v :: i32))"
    unfolding printnum_signed by (simp add: va_i32_def sint_scast_i64)
qed

text \<open>C36: \<open>%u\<close>, \<open>%x\<close>, \<open>%lu\<close> and \<open>%lx\<close> print the argument as an unsigned number in base 10 or
  16: the digits read back as the number, all of them are digits of the base, and there is no
  leading zero unless the number is 0.\<close>

theorem printf_unsigned:
  "\<exists>ds. vprintf (0x25 # (if long then [0x6C] else []) @ (if hex then 0x78 else 0x75) # fmt) (VNum v # ap) =
          bindR (vprintf fmt ap) (\<lambda>(out, n). Inr (ds @ out, of_nat (length ds) + n)) \<and>
        parse_nat (if hex then 16 else 10) ds = (if long then unat v else unat (ucast v :: u32)) \<and>
        (parse_nat (if hex then 16 else 10) ds = 0 \<or> digit_val (hd ds) \<noteq> 0)"
proof (intro exI conjI)
  let ?v = "if long then v else va_u32 v" and ?b = "(if hex then 16 else 10) :: u64"
  have b: "1 < unat ?b" "unat ?b \<le> 16" "unat ?b = (if hex then 16 else 10)"
    by simp_all
  have v: "unat ?v = (if long then unat v else unat (ucast v :: u32))"
    by (simp add: va_u32_def unsigned_ucast_eq unsigned_take_bit_eq)
  show "vprintf (0x25 # (if long then [0x6C] else []) @ (if hex then 0x78 else 0x75) # fmt) (VNum v # ap) =
      bindR (vprintf fmt ap) (\<lambda>(out, n). Inr (fst (printnum ?v ?b False False) @ out,
        of_nat (length (fst (printnum ?v ?b False False))) + n))"
    by (rule vprintf_conv_step [where long = long and d = "if hex then 0x78 else 0x75"],
        simp split: if_split, simp, simp only: conv_unsigned Let_def)
  show p: "parse_nat (if hex then 16 else 10) (fst (printnum ?v ?b False False)) =
      (if long then unat v else unat (ucast v :: u32))"
    using printnum_unsigned(1) [OF b(1,2), of ?v] unfolding b(3) v .
  show "parse_nat (if hex then 16 else 10) (fst (printnum ?v ?b False False)) = 0 \<or>
      digit_val (hd (fst (printnum ?v ?b False False))) \<noteq> 0"
    using printnum_unsigned(2) [OF b(1,2), of ?v] unfolding p v [symmetric] by (metis unsigned_0)
qed

lemma printf_unsigned_witness:
  "\<exists>ds. vprintf [0x25, 0x78, 0] [VNum 0x1F] = Inr (ds, of_nat (length ds)) \<and> parse_nat 16 ds = 31 \<and> digit_val (hd ds) \<noteq> 0"
  using printf_unsigned [where long = False and hex = True and fmt = "[0]" and v = "0x1F" and ap = "[]"] by auto

lemma conv_count:
  "vprintf_conv d long ap = Inr (out, n, ap') \<Longrightarrow> n = of_nat (length out)"
  by (auto simp: vprintf_conv_def bindR_eq_Inr Let_def case_prod_beta printnum_count
      printstr_def split: if_splits option.splits)

lemma vprintf_mod_suffix: "vprintf_mod cs = (long, ds) \<Longrightarrow> \<exists>pre. cs = pre @ ds"
  by (cases cs) (auto split: if_splits list.splits intro: exI [of _ "[]"] exI [of _ "[0x6C]"] exI [of _ "[0x6C, 0x6C]"])

lemma percent_end_append:
  "\<exists>pre rest. ds = pre @ [0x25, 0] @ rest \<Longrightarrow> \<exists>pre rest. xs @ ds = pre @ [0x25, 0] @ (rest :: u8 list)"
  by (metis append_assoc)

text \<open>C37: \<open>vprintf\<close> returns the number of the characters it sent, modulo the width of \<open>int\<close>; the
  one exception is a format with a percent sign right before its NUL, which is sent last and
  not counted.\<close>

theorem vprintf_count:
  assumes "vprintf fmt ap = Inr (out, n)"
  shows "n = of_nat (length out) \<or>
    (\<exists>pre rest. fmt = pre @ [0x25, 0] @ rest) \<and> out \<noteq> [] \<and> last out = 0x25 \<and> n + 1 = of_nat (length out)"
  using assms
proof (induction fmt ap arbitrary: out n rule: vprintf.induct)
  case (1 ap)
  then show ?case
    by simp
next
  case (2 c cs ap)
  consider "c = 0" | "c \<noteq> 0" "c \<noteq> 0x25" | "c = 0x25" "cs \<noteq> []" "hd cs = 0" | "c = 0x25" "\<not> (cs \<noteq> [] \<and> hd cs = 0)"
    by blast
  then show ?case
  proof cases
    case 1
    then show ?thesis
      using "2.prems" by simp
  next
    case 2
    then obtain o1 m where *: "vprintf cs ap = Inr (o1, m)" "out = c # o1" "n = 1 + m"
      using "2.prems" by (auto simp: bindR_eq_Inr)
    then show ?thesis
      using "2.IH"(1) [OF 2 *(1)] percent_end_append [of cs "[c]"] by (auto simp: add_ac)
  next
    case 3
    then have "c # cs = [] @ [0x25, 0] @ tl cs"
      by (cases cs) auto
    then have "\<exists>pre rest. c # cs = pre @ [0x25, 0] @ rest"
      by blast
    moreover have "out = [0x25]" "n = 0"
      using "2.prems" 3 by simp_all
    ultimately show ?thesis
      by simp
  next
    case 4
    then obtain long d ds o0 n0 ap' o1 m where
      m: "vprintf_mod cs = (long, d # ds)" and c: "vprintf_conv d long ap = Inr (o0, n0, ap')"
      and r: "vprintf ds ap' = Inr (o1, m)" and o: "out = o0 @ o1" "n = ucast n0 + m"
      using "2.prems" by (auto simp: bindR_eq_Inr split: prod.splits list.splits if_splits)
    have n0: "ucast n0 = (of_nat (length o0) :: i32)"
      using conv_count [OF c] by simp
    obtain pre where pre: "cs = pre @ d # ds"
      using vprintf_mod_suffix [OF m] by blast
    have "m = of_nat (length o1) \<or>
        (\<exists>pre rest. ds = pre @ [0x25, 0] @ rest) \<and> o1 \<noteq> [] \<and> last o1 = 0x25 \<and> m + 1 = of_nat (length o1)"
      using "2.IH"(2) [OF _ _ _ m [symmetric] refl r] 4 by simp
    then show ?thesis
      using o n0 percent_end_append [of ds "c # pre @ [d]"] pre by (auto simp: add_ac)
  qed
qed

lemma vprintf_count_witness:
  "vprintf [0x61, 0x25, 0x64, 0x25, 0] [VNum (- 5)] = Inr ([0x61, 0x2D, 0x35, 0x25], 3) \<and>
   (3 = (of_nat (length [0x61, 0x2D, 0x35, 0x25 :: u8]) :: i32) \<or>
    (\<exists>pre rest. [0x61, 0x25, 0x64, 0x25, 0] = pre @ [0x25, 0 :: u8] @ rest) \<and>
    [0x61, 0x2D, 0x35, 0x25 :: u8] \<noteq> [] \<and> last [0x61, 0x2D, 0x35, 0x25 :: u8] = 0x25 \<and> 3 + 1 = (of_nat (length [0x61, 0x2D, 0x35, 0x25 :: u8]) :: i32))"
proof -
  have "vprintf [0x61, 0x25, 0x64, 0x25, 0] [VNum (- 5)] = Inr ([0x61, 0x2D, 0x35, 0x25], 3)"
    by code_simp
  then show ?thesis
    using vprintf_count by blast
qed

text \<open>
  A format that \<open>vprintf\<close> reads to its end, and of which it counts every character, can be
  continued: the characters in front of the NUL have the same effect before any other format.
\<close>

lemma vprintf_mod_append: "vprintf_mod cs = (long, d # ds) \<Longrightarrow> vprintf_mod (cs @ xs) = (long, d # ds @ xs)"
  by (cases cs) (auto split: if_splits list.splits)

lemma vprintf_mod_Nil: "vprintf_mod cs = (long, []) \<Longrightarrow> cs = [] \<or> vprintf_mod (cs @ [0]) = (True, [0])"
  by (cases cs) (auto split: if_splits list.splits)

lemma vprintf_prefix:
  assumes "vprintf (cs @ [0]) ap = Inr (out, of_nat (length out))" and "0 \<notin> set cs"
  shows "\<exists>ap'. \<forall>fmt. vprintf (cs @ fmt) ap =
    bindR (vprintf fmt ap') (\<lambda>(o2, k). Inr (out @ o2, of_nat (length out) + k))"
  using assms
proof (induction cs ap arbitrary: out rule: vprintf.induct)
  case (1 ap)
  then show ?case
    by (auto simp: case_prod_beta intro!: exI [of _ ap])
next
  case (2 c cs ap)
  have c0: "c \<noteq> 0" and cs0: "0 \<notin> set cs"
    using "2.prems"(2) by auto
  show ?case
  proof (cases "c = 0x25")
    case False
    then obtain o1 m where *: "vprintf (cs @ [0]) ap = Inr (o1, m)" "out = c # o1" "of_nat (length out) = 1 + m"
      using "2.prems"(1) c0 by (auto simp: bindR_eq_Inr)
    then have "vprintf (cs @ [0]) ap = Inr (o1, of_nat (length o1))"
      by simp
    from "2.IH"(1) [OF c0 False this cs0] show ?thesis
      using c0 False *(2) by (auto simp: bindR_assoc case_prod_beta add_ac)
  next
    case True
    have "cs \<noteq> []"
      using "2.prems"(1) True by auto
    then have hd: "hd cs \<noteq> 0" "\<And>fmt. hd (cs @ fmt) = hd cs"
      using cs0 by (auto dest: hd_in_set)
    obtain long d ds where m: "vprintf_mod cs = (long, d # ds)"
      using vprintf_mod_Nil [of cs] "2.prems"(1) True \<open>cs \<noteq> []\<close> hd
      by (cases "vprintf_mod cs"; cases "snd (vprintf_mod cs)") (auto simp: vprintf_conv_def)
    note mf = vprintf_mod_append [OF m]
    obtain o0 n0 ap' o1 k where c: "vprintf_conv d long ap = Inr (o0, n0, ap')"
      and r: "vprintf (ds @ [0]) ap' = Inr (o1, k)" and o: "out = o0 @ o1" "of_nat (length out) = ucast n0 + k"
      using "2.prems"(1) True hd mf [of "[0]"] by (auto simp: bindR_eq_Inr)
    have n0: "ucast n0 = (of_nat (length o0) :: i32)"
      using conv_count [OF c] by simp
    then have "vprintf (ds @ [0]) ap' = Inr (o1, of_nat (length o1))"
      using r o by simp
    moreover have "0 \<notin> set ds"
      using vprintf_mod_suffix [OF m] cs0 by auto
    moreover have "\<not> (cs \<noteq> [] \<and> hd cs = 0)"
      using hd by simp
    ultimately obtain ap2 where "\<And>fmt. vprintf (ds @ fmt) ap' =
        bindR (vprintf fmt ap2) (\<lambda>(o2, k). Inr (o1 @ o2, of_nat (length o1) + k))"
      using "2.IH"(2) [OF c0 _ _ m [symmetric] refl] True by blast
    then have "vprintf (c # cs @ fmt) ap =
        bindR (vprintf fmt ap2) (\<lambda>(o2, k). Inr (out @ o2, of_nat (length out) + k))" for fmt
      using c0 True hd mf [of fmt] c n0 o(1) by (simp add: bindR_assoc case_prod_unfold add_ac)
    then show ?thesis
      by auto
  qed
qed

text \<open>
  C38: a format that ends in a length modifier makes \<open>vprintf\<close> step over the terminating NUL. When
  it has printed what comes before, whatever conversions that has, it sends a percent sign and
  the NUL and goes on with the bytes behind the string as its format; if nothing belongs to the
  program there, it reads past the end of the array.
\<close>

theorem vprintf_dangling_modifier:
  assumes "0 \<notin> set cs" and "vprintf (cs @ [0]) ap = Inr (out, of_nat (length out))"
    and "m = [0x6C] \<or> m = [0x6C, 0x6C]"
  shows "(\<exists>ap'. \<forall>rest. vprintf (cs @ 0x25 # m @ 0 # rest) ap =
        bindR (vprintf rest ap') (\<lambda>(o2, k). Inr (out @ [0x25, 0] @ o2, of_nat (length out) + (2 + k)))) \<and>
    vprintf (cs @ 0x25 # m @ [0]) ap = Inl (Fault ''vprintf: read past the format'')"
proof -
  obtain ap' where p: "\<And>fmt. vprintf (cs @ fmt) ap =
      bindR (vprintf fmt ap') (\<lambda>(o2, k). Inr (out @ o2, of_nat (length out) + k))"
    using vprintf_prefix [OF assms(2,1)] by blast
  have m: "hd (m @ 0 # rest) \<noteq> 0" "vprintf_mod (m @ 0 # rest) = (True, 0 # rest)" for rest
    using assms(3) by auto
  have d: "vprintf (0x25 # m @ 0 # rest) ap' = bindR (vprintf rest ap') (\<lambda>(o2, k). Inr ([0x25, 0] @ o2, 2 + k))" for rest
    by (simp add: m vprintf_conv_def)
  have "vprintf (cs @ 0x25 # m @ 0 # rest) ap =
      bindR (vprintf rest ap') (\<lambda>(o2, k). Inr (out @ [0x25, 0] @ o2, of_nat (length out) + (2 + k)))" for rest
    unfolding p d by (simp add: bindR_assoc case_prod_unfold)
  from this this [of "[]"] show ?thesis
    by auto
qed

lemma vprintf_dangling_modifier_witness:
  "vprintf ([0x61, 0x25, 0x64] @ 0x25 # [0x6C] @ [0]) [VNum 7] = Inl (Fault ''vprintf: read past the format'')"
proof -
  have "vprintf ([0x61, 0x25, 0x64] @ [0]) [VNum 7] = Inr ([0x61, 0x37], of_nat (length [0x61, 0x37 :: u8]))"
    by code_simp
  from vprintf_dangling_modifier [OF _ this, of "[0x6C]"] show ?thesis
    by simp
qed

lemma num_digits_length:
  "1 < unat base \<Longrightarrow> unat v < unat base ^ Suc k \<Longrightarrow> length (num_digits fuel base v) \<le> Suc k"
proof (induction k arbitrary: v fuel)
  case 0
  then have "v div base = 0"
    by (simp add: unat_div_distrib flip: unat_eq_zero)
  then show ?case
    by (cases fuel) simp_all
next
  case (Suc k)
  have "unat (v div base) < unat base ^ Suc k"
    using Suc.prems by (simp add: unat_div_distrib less_mult_imp_div_less mult_ac)
  then show ?case
    using Suc.IH Suc.prems(1) by (cases fuel) auto
qed

text \<open>C39: whatever the number, \<open>printnum\<close> puts at most 21 characters into its buffer of 32, for
  every base the callers use.\<close>

theorem printnum_fits_buffer:
  assumes "10 \<le> unat base"
  shows "0 < length (fst (printnum v base is_signed neg)) \<and> length (fst (printnum v base is_signed neg)) \<le> 21"
proof -
  have "unat w < unat base ^ Suc 19" for w :: u64
    using power_mono [OF assms, of "Suc 19"] by (intro less_le_trans [OF unat_lt_pow64 [of w]]) simp
  then have "length (num_digits 64 base w) \<le> Suc 19" for w :: u64
    using assms by (intro num_digits_length) simp_all
  then show ?thesis
    using num_digits_not_Nil [of 63 base]
    by (auto simp: printnum_def Let_def intro: order_trans [of _ 20])
qed

lemma printnum_fits_buffer_witness:
  "0 < length (fst (printnum (2 ^ 63) 10 True True)) \<and> length (fst (printnum (2 ^ 63) 10 True True)) \<le> 21"
  by (rule printnum_fits_buffer) simp

end
