(* ===== verification/Kalloc.thy ===== *)
theory Kalloc
  imports CString
begin

text \<open>
  \<open>mm/kalloc.c\<close>: the physical page allocator. The free pages form a singly linked list whose
  links are stored in the first word of each free page, so the model keeps the list where
  the code keeps it, in the bytes of \<open>ram\<close>. The interface the slab allocator and the page
  tables rely on is the locale \<open>page_allocator\<close>, interpreted on \<open>kalloc\<close> and \<open>kfree\<close>.
\<close>

section \<open>Constants and rounding\<close>

abbreviation PGSIZE :: u64 where "PGSIZE \<equiv> 4096"

abbreviation PHYEND :: u64 where "PHYEND \<equiv> 0x88000000"

definition PGROUNDUP :: "u64 \<Rightarrow> u64" where
  "PGROUNDUP sz = (sz + PGSIZE - 1) AND NOT (PGSIZE - 1)"

definition PGROUNDDOWN :: "u64 \<Rightarrow> u64" where
  "PGROUNDDOWN a = a AND NOT (PGSIZE - 1)"

lemma and_not_mask_unat: "unat (x AND NOT (mask n)) = unat x - unat x mod 2 ^ n" for x :: u64
proof -
  have "(x AND NOT (mask n)) + (x AND mask n) = x"
  proof -
    have "(x AND NOT (mask n)) + (x AND mask n) = (x AND NOT (mask n)) OR (x AND mask n)"
      by (rule disjunctive_add) (auto simp: bit_simps)
    also have "\<dots> = x" by (rule bit_word_eqI) (auto simp: bit_simps)
    finally show ?thesis .
  qed
  then have "x AND NOT (mask n) = x - (x AND mask n)" by (simp add: eq_diff_eq)
  moreover have "x AND mask n \<le> x"
    by (simp add: word_le_nat_alt unat_mask_low)
  ultimately show ?thesis by (simp add: unat_sub_le unat_mask_low)
qed

lemma unat_PGROUNDDOWN: "unat (PGROUNDDOWN a) = unat a - unat a mod 4096"
  using and_not_mask_unat [of a 12] by (simp add: PGROUNDDOWN_def mask_eq_exp_minus_1)

lemma unat_PGROUNDUP:
  "unat a \<le> 18446744073709547520 \<Longrightarrow> unat (PGROUNDUP a) = (unat a + 4095) - (unat a + 4095) mod 4096"
proof -
  assume h: "unat a \<le> 18446744073709547520"
  have e: "PGROUNDUP a = (a + 4095) AND NOT (mask 12)"
    by (simp add: PGROUNDUP_def mask_eq_exp_minus_1 add.commute)
  have "unat (a + 4095) = unat a + 4095" using h by (subst unat_add64_small) auto
  then show ?thesis unfolding e and_not_mask_unat by simp
qed

lemma al_page_PGROUNDDOWN [simp]: "al_page (PGROUNDDOWN a)"
  by (simp add: al_page_def unat_PGROUNDDOWN)

lemma PGROUNDDOWN_page_add:
  assumes "al_page p" and "unat i < 4096"
  shows "PGROUNDDOWN (p + i) = p"
proof -
  obtain k where "unat p = 4096 * k" using assms(1) by (auto simp: al_page_def mod_eq_0_iff_dvd)
  with assms(2) have "(unat p + unat i) mod 4096 = unat i" by simp
  then show ?thesis
    using page_add_unat [OF assms] by (simp add: word_unat_eq_iff unat_PGROUNDDOWN)
qed

lemma PGROUNDDOWN_page [simp]: "al_page p \<Longrightarrow> PGROUNDDOWN p = p"
  using PGROUNDDOWN_page_add [of p 0] by simp

lemma page_decompose: "\<exists>i. x = PGROUNDDOWN x + i \<and> unat i < 4096"
proof -
  have "PGROUNDDOWN x \<le> x" by (simp add: word_le_nat_alt unat_PGROUNDDOWN)
  then have "unat (x - PGROUNDDOWN x) = unat x mod 4096" by (simp add: unat_sub_le unat_PGROUNDDOWN)
  then show ?thesis by (intro exI [of _ "x - PGROUNDDOWN x"]) simp
qed

lemma in_page_iff: "al_page p \<Longrightarrow> unat (x - p) < 4096 \<longleftrightarrow> PGROUNDDOWN x = p"
  using PGROUNDDOWN_page_add [of p "x - p"] page_decompose [of x] by (metis add_diff_cancel_left' diff_add_cancel add.commute)

section \<open>State and operations\<close>

text \<open>
  The physical memory, \<open>kmem.memlist\<close>, the linker symbol \<open>ekernel\<close> (the first address after
  the kernel image) and \<open>caches\<close>, the array of slab caches of \<open>mm/kmalloc.c\<close>.
\<close>

record pmem =
  ram :: mem
  memlist :: u64
  ekernel :: u64
  kcaches :: "u64 list"

definition kfree :: "u64 \<Rightarrow> pmem \<Rightarrow> pmem res" where
  "kfree pa s =
     (if unat pa mod 4096 \<noteq> 0 \<or> pa < ekernel s \<or> PHYEND \<le> pa then Inl (Panic ''kfree'')
      else Inr (s\<lparr>ram := st64 (ram s) pa (memlist s), memlist := pa\<rparr>))"

definition kalloc :: "pmem \<Rightarrow> u64 \<times> pmem" where
  "kalloc s =
     (let head = memlist s in
      if head \<noteq> 0
      then (head, s\<lparr>memlist := ld64 (ram s) head, ram := memset (ram s) head 0 PGSIZE\<rparr>)
      else (head, s))"

text \<open>The loop of \<open>freerange\<close>; the fuel counts the pages it may still free.\<close>

fun freerange_loop :: "nat \<Rightarrow> u64 \<Rightarrow> u64 \<Rightarrow> pmem \<Rightarrow> pmem res" where
  "freerange_loop fuel p pa_end s =
     (if p + PGSIZE \<le> pa_end
      then (case fuel of
          0 \<Rightarrow> Inl Diverge
        | Suc fuel' \<Rightarrow> bindR (kfree p s) (\<lambda>s. freerange_loop fuel' (p + PGSIZE) pa_end s))
      else Inr s)"

definition freerange :: "u64 \<Rightarrow> u64 \<Rightarrow> pmem \<Rightarrow> pmem res" where
  "freerange pa_start pa_end s = freerange_loop 32768 (PGROUNDUP pa_start) pa_end s"

declare freerange_loop.simps [simp del]

section \<open>The free list\<close>

text \<open>The list of free pages reachable from \<open>h\<close> through the links stored in the pages.\<close>

fun free_list :: "mem \<Rightarrow> u64 \<Rightarrow> u64 list \<Rightarrow> bool" where
  "free_list m h [] \<longleftrightarrow> h = 0"
| "free_list m h (p # ps) \<longleftrightarrow> h = p \<and> p \<noteq> 0 \<and> free_list m (ld64 m p) ps"

text \<open>A page frame the allocator may hand out: aligned, after the kernel, inside the RAM.\<close>

definition frame_ok :: "pmem \<Rightarrow> u64 \<Rightarrow> bool" where
  "frame_ok s p \<longleftrightarrow> al_page p \<and> ekernel s \<le> p \<and> p < PHYEND"

definition kmem_inv :: "pmem \<Rightarrow> u64 list \<Rightarrow> bool" where
  "kmem_inv s ps \<longleftrightarrow> ekernel s \<noteq> 0 \<and> free_list (ram s) (memlist s) ps \<and> distinct ps \<and>
     (\<forall>p \<in> set ps. frame_ok s p)"

text \<open>Memories that agree outside one page.\<close>

definition same_outside :: "u64 set \<Rightarrow> mem \<Rightarrow> mem \<Rightarrow> bool" where
  "same_outside P m m' \<longleftrightarrow> (\<forall>x. PGROUNDDOWN x \<notin> P \<longrightarrow> m' x = m x)"

lemma same_outside_refl [simp]: "same_outside P m m"
  by (simp add: same_outside_def)

lemma same_outside_trans: "same_outside P m m' \<Longrightarrow> same_outside Q m' m'' \<Longrightarrow> same_outside (P \<union> Q) m m''"
  by (simp add: same_outside_def)

lemma same_outside_mono: "same_outside P m m' \<Longrightarrow> P \<subseteq> Q \<Longrightarrow> same_outside Q m m'"
  by (auto simp: same_outside_def)

lemma same_outside_byte: "same_outside P m m' \<Longrightarrow> al_page q \<Longrightarrow> q \<notin> P \<Longrightarrow> unat i < 4096 \<Longrightarrow> m' (q + i) = m (q + i)"
  by (simp add: same_outside_def PGROUNDDOWN_page_add)

lemma unat_page_off: "unat (i :: u64) < 4096 \<Longrightarrow> al8 i \<Longrightarrow> unat j < 8 \<Longrightarrow> unat (i + j) < 4096"
proof -
  assume h: "unat i < 4096" "al8 i" "unat j < 8"
  then have "unat i + 8 \<le> 4096" unfolding al8_def by presburger
  then show ?thesis using h unat_add64_small [of i j] by simp
qed

lemma unat_page_off4: "unat (i :: u64) < 4096 \<Longrightarrow> al4 i \<Longrightarrow> unat j < 4 \<Longrightarrow> unat (i + j) < 4096"
proof -
  assume h: "unat i < 4096" "al4 i" "unat j < 4"
  then have "unat i + 4 \<le> 4096" unfolding al4_def by presburger
  then show ?thesis using h unat_add64_small [of i j] by simp
qed

lemma same_outside_ld64:
  assumes "same_outside P m m'" and "al_page q" and "q \<notin> P" and "unat i < 4096" and "al8 i"
  shows "ld64 m' (q + i) = ld64 m (q + i)"
proof (rule ld64_cong)
  fix j :: u64
  assume "unat j < 8"
  then show "m' (q + i + j) = m (q + i + j)"
    using same_outside_byte [OF assms(1-3), of "i + j"] unat_page_off [OF assms(4,5)]
    by (simp add: add.assoc)
qed

lemma same_outside_ld64_0:
  "same_outside P m m' \<Longrightarrow> al_page q \<Longrightarrow> q \<notin> P \<Longrightarrow> ld64 m' q = ld64 m q"
  using same_outside_ld64 [of P m m' q 0] by (simp add: al8_def)

lemma same_outside_ld32:
  assumes "same_outside P m m'" and "al_page q" and "q \<notin> P" and "unat i < 4096" and "al4 i"
  shows "ld32 m' (q + i) = ld32 m (q + i)"
proof (rule ld32_cong)
  fix j :: u64
  assume "unat j < 4"
  then show "m' (q + i + j) = m (q + i + j)"
    using same_outside_byte [OF assms(1-3), of "i + j"] unat_page_off4 [OF assms(4,5)]
    by (simp add: add.assoc)
qed

lemma same_outside_st64:
  assumes "al_page p" and "unat i < 4096" and "al8 i"
  shows "same_outside {p} m (st64 m (p + i) v)"
  unfolding same_outside_def
proof (intro allI impI)
  fix x
  assume x: "PGROUNDDOWN x \<notin> {p}"
  have "\<not> unat (x - (p + i)) < 8"
  proof
    assume "unat (x - (p + i)) < 8"
    then have "unat (i + (x - (p + i))) < 4096" by (rule unat_page_off [OF assms(2,3)])
    then have "PGROUNDDOWN (p + (i + (x - (p + i)))) = p" by (rule PGROUNDDOWN_page_add [OF assms(1)])
    with x show False by (simp add: algebra_simps)
  qed
  then show "st64 m (p + i) v x = m x" by (rule st64_other)
qed

lemma same_outside_st32:
  assumes "al_page p" and "unat i < 4096" and "al4 i"
  shows "same_outside {p} m (st32 m (p + i) v)"
  unfolding same_outside_def
proof (intro allI impI)
  fix x
  assume x: "PGROUNDDOWN x \<notin> {p}"
  have "\<not> unat (x - (p + i)) < 4"
  proof
    assume "unat (x - (p + i)) < 4"
    then have "unat (i + (x - (p + i))) < 4096" by (rule unat_page_off4 [OF assms(2,3)])
    then have "PGROUNDDOWN (p + (i + (x - (p + i)))) = p" by (rule PGROUNDDOWN_page_add [OF assms(1)])
    with x show False by (simp add: algebra_simps)
  qed
  then show "st32 m (p + i) v x = m x" by (rule st32_other)
qed

lemma same_outside_st64_0: "al_page p \<Longrightarrow> same_outside {p} m (st64 m p v)"
  using same_outside_st64 [of p 0] by (simp add: al8_def)

lemma memset_page: "al_page p \<Longrightarrow> memset m p 0 PGSIZE = (\<lambda>x. if PGROUNDDOWN x = p then 0 else m x)"
  by (auto simp: memset_eq in_page_iff)

lemma free_list_frame:
  "same_outside P m m' \<Longrightarrow> (\<forall>p \<in> set ps. al_page p \<and> p \<notin> P) \<Longrightarrow> free_list m' h ps = free_list m h ps"
proof (induction ps arbitrary: h)
  case (Cons p ps)
  then show ?case using same_outside_ld64_0 [of P m m' p] by auto
qed simp

section \<open>The page allocator as an interface\<close>

text \<open>
  What a client of the allocator relies on: \<open>inv s ps\<close> says that \<open>ps\<close> are the free pages
  in the order they will be handed out, \<open>poke\<close> is the client writing to memory. The client
  may write any page that is not free; a page it is given is zero.
\<close>

locale page_allocator =
  fixes alloc :: "'s \<Rightarrow> u64 \<times> 's"
    and free :: "u64 \<Rightarrow> 's \<Rightarrow> 's res"
    and mem_of :: "'s \<Rightarrow> mem"
    and poke :: "mem \<Rightarrow> 's \<Rightarrow> 's"
    and inv :: "'s \<Rightarrow> u64 list \<Rightarrow> bool"
    and ok :: "'s \<Rightarrow> u64 \<Rightarrow> bool"
  assumes alloc_none: "inv s [] \<Longrightarrow> alloc s = (0, s)"
    and alloc_some: "inv s (p # ps) \<Longrightarrow> \<exists>s'. alloc s = (p, s') \<and> inv s' ps \<and>
      mem_of s' = (\<lambda>x. if PGROUNDDOWN x = p then 0 else mem_of s x) \<and> (\<forall>q. ok s' q = ok s q)"
    and free_page: "inv s ps \<Longrightarrow> ok s p \<Longrightarrow> p \<notin> set ps \<Longrightarrow>
      \<exists>s'. free p s = Inr s' \<and> inv s' (p # ps) \<and> same_outside {p} (mem_of s) (mem_of s') \<and>
        (\<forall>q. ok s' q = ok s q)"
    and free_bad: "\<not> ok s p \<Longrightarrow> \<exists>e. free p s = Inl e"
    and poke_inv: "inv s ps \<Longrightarrow> same_outside P (mem_of s) m \<Longrightarrow> P \<inter> set ps = {} \<Longrightarrow> inv (poke m s) ps"
    and inv_pages: "inv s ps \<Longrightarrow> p \<in> set ps \<Longrightarrow> ok s p \<and> al_page p \<and> p \<noteq> 0"
    and inv_distinct: "inv s ps \<Longrightarrow> distinct ps"
begin

lemma alloc_fresh:
  assumes "inv s ps" and "alloc s = (p, s')" and "p \<noteq> 0"
  obtains qs where "ps = p # qs" "inv s' qs" "p \<notin> set qs" "al_page p"
    "mem_of s' = (\<lambda>x. if PGROUNDDOWN x = p then 0 else mem_of s x)"
proof (cases ps)
  case Nil
  with assms alloc_none [of s] show thesis by simp
next
  case (Cons q qs)
  with assms alloc_some [of s q qs] have "p = q" "inv s' qs"
    "mem_of s' = (\<lambda>x. if PGROUNDDOWN x = p then 0 else mem_of s x)" by auto
  moreover have "al_page q" "q \<notin> set qs" using inv_pages [of s ps q] inv_distinct [of s ps] assms(1) Cons by auto
  ultimately show thesis using that Cons by blast
qed

lemma alloc_same_outside: "inv s (p # ps) \<Longrightarrow> alloc s = (p, s') \<Longrightarrow> same_outside {p} (mem_of s) (mem_of s')"
  using alloc_some [of s p ps] by (auto simp: same_outside_def)

text \<open>Two pages handed out one after the other are different.\<close>

lemma alloc_twice:
  assumes "inv s ps" and "alloc s = (p, s1)" and "alloc s1 = (q, s2)" and "p \<noteq> 0" and "q \<noteq> 0"
  shows "p \<noteq> q"
proof -
  obtain qs where qs: "inv s1 qs" "p \<notin> set qs" by (rule alloc_fresh [OF assms(1,2,4)])
  obtain rs where "qs = q # rs" by (rule alloc_fresh [OF qs(1) assms(3,5)])
  with qs show ?thesis by auto
qed

text \<open>A page that is given back is the next one handed out.\<close>

lemma free_alloc:
  assumes "inv s ps" and "ok s p" and "p \<notin> set ps"
  shows "\<exists>s1 s2. free p s = Inr s1 \<and> alloc s1 = (p, s2) \<and> inv s2 ps"
proof -
  obtain s1 where "free p s = Inr s1" "inv s1 (p # ps)" using free_page [OF assms] by blast
  with alloc_some [of s1 p ps] show ?thesis by blast
qed

lemma alloc_free:
  assumes "inv s (p # ps)"
  shows "\<exists>s1 s2. alloc s = (p, s1) \<and> free p s1 = Inr s2 \<and> inv s2 (p # ps)"
proof -
  obtain s1 where s1: "alloc s = (p, s1)" "inv s1 ps" "\<forall>q. ok s1 q = ok s q"
    using alloc_some [OF assms] by blast
  have "ok s1 p" "p \<notin> set ps"
    using inv_pages [OF assms, of p] inv_distinct [OF assms] s1(3) by auto
  then obtain s2 where "free p s1 = Inr s2" "inv s2 (p # ps)"
    using free_page [OF s1(2)] by blast
  with s1(1) show ?thesis by blast
qed

end

section \<open>\<open>kalloc\<close> and \<open>kfree\<close> implement the interface\<close>

lemma frame_okD: "frame_ok s p \<Longrightarrow> al_page p" "frame_ok s p \<Longrightarrow> ekernel s \<noteq> 0 \<Longrightarrow> p \<noteq> 0"
  by (auto simp: frame_ok_def)

lemma frame_ok_cong: "ekernel s' = ekernel s \<Longrightarrow> frame_ok s' p = frame_ok s p"
  by (simp add: frame_ok_def)

lemma kmem_inv_page: "kmem_inv s ps \<Longrightarrow> p \<in> set ps \<Longrightarrow> frame_ok s p \<and> al_page p \<and> p \<noteq> 0"
proof -
  assume h: "kmem_inv s ps" "p \<in> set ps"
  then have "frame_ok s p" "ekernel s \<noteq> 0" by (auto simp: kmem_inv_def)
  then show ?thesis using frame_okD by blast
qed

lemma kmem_inv_poke:
  assumes "kmem_inv s ps" and "same_outside P (ram s) m" and "P \<inter> set ps = {}"
  shows "kmem_inv (s\<lparr>ram := m\<rparr>) ps"
proof -
  have "\<forall>p \<in> set ps. al_page p \<and> p \<notin> P" using kmem_inv_page [OF assms(1)] assms(3) by blast
  then have "free_list m (memlist s) ps"
    using free_list_frame [OF assms(2)] assms(1) by (simp add: kmem_inv_def)
  with assms(1) show ?thesis by (auto simp: kmem_inv_def frame_ok_def)
qed

lemma kalloc_none: "kmem_inv s [] \<Longrightarrow> kalloc s = (0, s)"
  by (simp add: kmem_inv_def kalloc_def)

lemma kalloc_some:
  assumes "kmem_inv s (p # ps)"
  shows "\<exists>s'. kalloc s = (p, s') \<and> kmem_inv s' ps \<and>
    ram s' = (\<lambda>x. if PGROUNDDOWN x = p then 0 else ram s x) \<and> (\<forall>q. frame_ok s' q = frame_ok s q)"
proof -
  let ?m = "\<lambda>x. if PGROUNDDOWN x = p then 0 else ram s x"
  have p: "memlist s = p" "p \<noteq> 0" "al_page p" "free_list (ram s) (ld64 (ram s) p) ps" "p \<notin> set ps"
    "\<forall>q \<in> set ps. al_page q"
    using assms kmem_inv_page [OF assms] frame_okD by (auto simp: kmem_inv_def)
  have "free_list ?m (ld64 (ram s) p) ps"
    using p free_list_frame [of "{p}" "ram s" ?m ps] by (auto simp: same_outside_def)
  then show ?thesis
    using assms p by (simp add: kalloc_def memset_page kmem_inv_def frame_ok_def)
qed

lemma kfree_page:
  assumes "kmem_inv s ps" and "frame_ok s p" and "p \<notin> set ps"
  shows "\<exists>s'. kfree p s = Inr s' \<and> kmem_inv s' (p # ps) \<and> same_outside {p} (ram s) (ram s') \<and>
    (\<forall>q. frame_ok s' q = frame_ok s q)"
proof -
  let ?m = "st64 (ram s) p (memlist s)"
  have p: "al_page p" "p \<noteq> 0" using assms frame_okD by (auto simp: kmem_inv_def)
  have so: "same_outside {p} (ram s) ?m" using p(1) by (rule same_outside_st64_0)
  have "\<forall>q \<in> set ps. al_page q \<and> q \<notin> {p}" using kmem_inv_page [OF assms(1)] assms(3) by blast
  then have "free_list ?m (memlist s) ps"
    using free_list_frame [OF so, of ps] assms(1) by (simp add: kmem_inv_def)
  then show ?thesis
    using assms p so by (auto simp: kfree_def kmem_inv_def frame_ok_def al_page_def)
qed

lemma kfree_bad: "\<not> frame_ok s p \<Longrightarrow> kfree p s = Inl (Panic ''kfree'')"
  by (auto simp: frame_ok_def kfree_def al_page_def)

interpretation kpages: page_allocator kalloc kfree ram "\<lambda>m. ram_update (\<lambda>_. m)" kmem_inv frame_ok
proof unfold_locales
  show "kmem_inv s ps \<Longrightarrow> distinct ps" for s ps by (simp add: kmem_inv_def)
  show "kmem_inv s ps \<Longrightarrow> p \<in> set ps \<Longrightarrow> frame_ok s p \<and> al_page p \<and> p \<noteq> 0" for s ps p
    by (rule kmem_inv_page)
qed (simp_all add: kalloc_none kalloc_some kfree_page kfree_bad kmem_inv_poke)

text \<open>
  C21: a page that \<open>kalloc\<close> hands out was free, is page-aligned, lies between the end of the
  kernel image and the end of RAM, is filled with zeros, is no longer on the free list, and
  no byte outside it changes.
\<close>

theorem kalloc_correct:
  assumes "kmem_inv s ps" and "kalloc s = (p, s')" and "p \<noteq> 0"
  shows "\<exists>qs. ps = p # qs \<and> kmem_inv s' qs \<and> frame_ok s p \<and> p \<notin> set qs \<and>
    (\<forall>i. unat i < 4096 \<longrightarrow> ram s' (p + i) = 0) \<and> same_outside {p} (ram s) (ram s')"
proof -
  obtain qs where qs: "ps = p # qs" "kmem_inv s' qs" "p \<notin> set qs" "al_page p"
      "ram s' = (\<lambda>x. if PGROUNDDOWN x = p then 0 else ram s x)"
    by (rule kpages.alloc_fresh [OF assms])
  then show ?thesis
    using kmem_inv_page [OF assms(1), of p] by (auto simp: PGROUNDDOWN_page_add same_outside_def)
qed

text \<open>A machine with one free page, used by the witnesses.\<close>

definition one_page :: pmem where
  "one_page = \<lparr>ram = (\<lambda>_. 0), memlist = 0x80300000, ekernel = 0x80200000, kcaches = replicate 9 0\<rparr>"

lemma ld64_zero [simp]: "ld64 (\<lambda>_. 0) a = 0"
  by (simp add: ld64_def)

lemma ld32_zero [simp]: "ld32 (\<lambda>_. 0) a = 0"
  by (simp add: ld32_def)

lemma one_page_inv: "kmem_inv one_page [0x80300000]"
  by (simp add: kmem_inv_def one_page_def frame_ok_def al_page_def)

theorem kalloc_correct_witness:
  "\<exists>s'. kalloc one_page = (0x80300000, s') \<and> kmem_inv s' [] \<and> ram s' 0x80300004 = 0"
proof -
  obtain s' where s': "kalloc one_page = (0x80300000, s')"
    using kalloc_some [OF one_page_inv] by blast
  have "\<exists>qs. [0x80300000] = 0x80300000 # qs \<and> kmem_inv s' qs \<and> frame_ok one_page 0x80300000 \<and>
      0x80300000 \<notin> set qs \<and> (\<forall>i. unat i < 4096 \<longrightarrow> ram s' (0x80300000 + i) = 0) \<and>
      same_outside {0x80300000} (ram one_page) (ram s')"
    using kalloc_correct [OF one_page_inv s'] by simp
  then have "kmem_inv s' []" "\<forall>i. unat i < 4096 \<longrightarrow> ram s' (0x80300000 + i) = 0" by auto
  from this(1) spec [OF this(2), of 4] have "kmem_inv s' []" "ram s' (0x80300000 + 4) = 0" by simp_all
  with s' show ?thesis by simp
qed

section \<open>\<open>freerange\<close>\<close>

fun pages :: "u64 \<Rightarrow> nat \<Rightarrow> u64 list" where
  "pages p 0 = []"
| "pages p (Suc n) = p # pages (p + PGSIZE) n"

lemma pages_bounds:
  "al_page p \<Longrightarrow> unat p + 4096 * n \<le> 0x88000000 \<Longrightarrow> q \<in> set (pages p n) \<Longrightarrow>
   al_page q \<and> unat p \<le> unat q \<and> unat q < unat p + 4096 * n"
proof (induction n arbitrary: p)
  case (Suc n)
  have u: "unat (p + PGSIZE) = unat p + 4096" using Suc.prems(2) by (subst unat_add64_small) auto
  then have "al_page (p + PGSIZE)" using Suc.prems(1) by (simp add: al_page_def)
  then show ?case
    using Suc.IH [of "p + PGSIZE"] Suc.prems u by auto
qed simp

lemma pages_distinct: "al_page p \<Longrightarrow> unat p + 4096 * n \<le> 0x88000000 \<Longrightarrow> distinct (pages p n)"
proof (induction n arbitrary: p)
  case (Suc n)
  have u: "unat (p + PGSIZE) = unat p + 4096" using Suc.prems(2) by (subst unat_add64_small) auto
  then have "al_page (p + PGSIZE)" using Suc.prems(1) by (simp add: al_page_def)
  then show ?case
    using Suc.IH [of "p + PGSIZE"] pages_bounds [of "p + PGSIZE" n p] Suc.prems u by auto
qed simp

lemma freerange_loop_ok:
  assumes "kmem_inv s ps" and "al_page p" and "ekernel s \<le> p" and "unat p \<le> unat e" and "e \<le> PHYEND"
    and "n = (unat e - unat p) div 4096" and "n \<le> fuel" and "set (pages p n) \<inter> set ps = {}"
  shows "\<exists>s'. freerange_loop fuel p e s = Inr s' \<and> kmem_inv s' (rev (pages p n) @ ps)"
  using assms
proof (induction n arbitrary: p ps s fuel)
  case 0
  have "unat e \<le> 2281701376" using 0 by (simp add: word_le_nat_alt)
  then have "unat (p + PGSIZE) = unat p + 4096" using 0 by (subst unat_add64_small) auto
  then have "\<not> p + PGSIZE \<le> e" using 0 by (simp add: word_le_nat_alt)
  with 0 show ?case by (subst freerange_loop.simps) simp
next
  case (Suc n)
  then obtain fuel' where f: "fuel = Suc fuel'" by (cases fuel) auto
  have e: "unat e \<le> 2281701376" using Suc by (simp add: word_le_nat_alt)
  have div_Suc: "k = Suc j \<Longrightarrow> k = d div 4096 \<Longrightarrow> 4096 \<le> d \<and> j = (d - 4096) div 4096" for k j d :: nat
    by (metis div_less le_div_geq linorder_not_le nat.distinct(1) nat.inject zero_less_numeral)
  have gap: "unat p + 4096 \<le> unat e" "n = (unat e - (unat p + 4096)) div 4096"
    using div_Suc [OF refl Suc.prems(6)] Suc.prems(4) by auto
  then have u: "unat (p + PGSIZE) = unat p + 4096" using e by (subst unat_add64_small) auto
  have le: "p + PGSIZE \<le> e" using gap u by (simp add: word_le_nat_alt)
  have al: "al_page (p + PGSIZE)" using Suc.prems(2) u by (simp add: al_page_def)
  have "4096 * n \<le> unat e - (unat p + 4096)" unfolding gap(2) by simp
  then have n4: "unat p + 4096 * Suc n \<le> 0x88000000" using gap(1) e by simp
  have ok: "frame_ok s p"
    using Suc.prems(2,3) gap(1) e by (auto simp: frame_ok_def word_less_nat_alt)
  have "p \<notin> set ps" using Suc.prems(8) by auto
  then obtain s1 where s1: "kfree p s = Inr s1" "kmem_inv s1 (p # ps)" "\<forall>q. frame_ok s1 q = frame_ok s q"
    using kfree_page [OF Suc.prems(1) ok] by blast
  have ek: "ekernel s1 = ekernel s" using s1(1) by (auto simp: kfree_def split: if_splits)
  have "\<exists>s'. freerange_loop fuel' (p + PGSIZE) e s1 = Inr s' \<and>
      kmem_inv s' (rev (pages (p + PGSIZE) n) @ p # ps)"
  proof (rule Suc.IH [OF s1(2) al])
    show "ekernel s1 \<le> p + PGSIZE"
      using Suc.prems(3) u ek by (simp add: word_le_nat_alt)
    show "set (pages (p + PGSIZE) n) \<inter> set (p # ps) = {}"
      using Suc.prems(8) pages_distinct [OF Suc.prems(2) n4] by auto
    show "unat (p + PGSIZE) \<le> unat e" using gap(1) u by simp
    show "n = (unat e - unat (p + PGSIZE)) div 4096" using gap(2) u by simp
    show "n \<le> fuel'" using Suc.prems(7) f by simp
  qed (rule Suc.prems(5))
  then show ?case using le s1(1) f by (subst freerange_loop.simps) simp
qed

lemma kmem_inv_empty: "ekernel s \<noteq> 0 \<Longrightarrow> memlist s = 0 \<Longrightarrow> kmem_inv s []"
  by (simp add: kmem_inv_def)

text \<open>
  C30: \<open>freerange\<close> of the memory after the kernel, as \<open>kinit\<close> calls it, returns, and then
  every whole page frame between the rounded-up end of the kernel and \<open>PHYEND\<close> is on the
  free list exactly once, the highest first.
\<close>

theorem freerange_correct:
  assumes "memlist s = 0" and "0x80000000 \<le> ekernel s" and "ekernel s \<le> PHYEND"
  shows "\<exists>s'. freerange (ekernel s) PHYEND s = Inr s' \<and>
    kmem_inv s' (rev (pages (PGROUNDUP (ekernel s)) ((0x88000000 - unat (PGROUNDUP (ekernel s))) div 4096)))"
proof -
  let ?p = "PGROUNDUP (ekernel s)"
  have b: "2147483648 \<le> unat (ekernel s)" "unat (ekernel s) \<le> 2281701376"
    using assms by (auto simp: word_le_nat_alt)
  then have up: "unat ?p = unat (ekernel s) + 4095 - (unat (ekernel s) + 4095) mod 4096"
    by (intro unat_PGROUNDUP) simp
  have "al_page ?p" unfolding al_page_def up by simp
  moreover have ge: "unat (ekernel s) \<le> unat ?p"
    unfolding up using mod_less_divisor [of 4096 "unat (ekernel s) + 4095"] by linarith
  moreover have "unat ?p \<le> 2281701376"
  proof -
    have "(unat (ekernel s) + 4095) div 4096 \<le> 2281705471 div 4096" using b by (intro div_le_mono) simp
    then show ?thesis unfolding up minus_mod_eq_mult_div by simp
  qed
  moreover have "(2281701376 - unat ?p) div 4096 \<le> 32768"
  proof -
    have "2281701376 - unat ?p \<le> 134217728" using b ge by simp
    then have "(2281701376 - unat ?p) div 4096 \<le> 134217728 div 4096" by (rule div_le_mono)
    then show ?thesis by simp
  qed
  moreover have "kmem_inv s []" using assms b by (intro kmem_inv_empty) auto
  ultimately show ?thesis
    using freerange_loop_ok [of s "[]" ?p PHYEND "(2281701376 - unat ?p) div 4096" 32768]
    by (simp add: freerange_def word_le_nat_alt)
qed

theorem freerange_correct_witness:
  "\<exists>s'. freerange 0x80200000 PHYEND (one_page\<lparr>memlist := 0\<rparr>) = Inr s' \<and>
    kmem_inv s' (rev (pages (PGROUNDUP 0x80200000) ((0x88000000 - unat (PGROUNDUP 0x80200000)) div 4096)))"
proof -
  have h: "memlist (one_page\<lparr>memlist := 0\<rparr>) = 0" "0x80000000 \<le> ekernel (one_page\<lparr>memlist := 0\<rparr>)"
    "ekernel (one_page\<lparr>memlist := 0\<rparr>) \<le> PHYEND"
    by (simp_all add: one_page_def)
  have "ekernel (one_page\<lparr>memlist := 0\<rparr>) = 0x80200000" by (simp add: one_page_def)
  then show ?thesis using freerange_correct [OF h] by simp
qed

end
