(* ===== verification/Slab.thy ===== *)
theory Slab
  imports Kalloc
begin

text \<open>
  \<open>mm/slab.c\<close>: the slab allocator. A \<open>struct cache\<close> and the \<open>struct slab\<close> headers live in
  pages of \<open>ram\<close>, at the byte offsets the RISC-V ABI gives their fields; the free objects of
  a slab are linked through their own first words.
\<close>

section \<open>Layout\<close>

text \<open>\<open>struct cache\<close> of \<open>include/utils.h\<close>: the offsets of its fields.\<close>

definition cache_slabs_full :: "u64 \<Rightarrow> u64" where
  "cache_slabs_full c = c + 8"

definition cache_slabs_partial :: "u64 \<Rightarrow> u64" where
  "cache_slabs_partial c = c + 16"

definition cache_slabs_empty :: "u64 \<Rightarrow> u64" where
  "cache_slabs_empty c = c + 24"

definition cache_empty_slabs :: "u64 \<Rightarrow> u64" where
  "cache_empty_slabs c = c + 32"

text \<open>\<open>struct slab\<close> of \<open>include/utils.h\<close>; \<open>next\<close> is at offset 0.\<close>

definition slab_prev :: "u64 \<Rightarrow> u64" where
  "slab_prev s = s + 8"

definition slab_list :: "u64 \<Rightarrow> u64" where
  "slab_list s = s + 16"

definition slab_freenum :: "u64 \<Rightarrow> u64" where
  "slab_freenum s = s + 24"

definition slab_objectsnum :: "u64 \<Rightarrow> u64" where
  "slab_objectsnum s = s + 28"

definition slab_cache :: "u64 \<Rightarrow> u64" where
  "slab_cache s = s + 32"

abbreviation SLAB_SIZE :: u64 where "SLAB_SIZE \<equiv> 40"

lemmas slab_fields = cache_slabs_full_def cache_slabs_partial_def cache_slabs_empty_def
  cache_empty_slabs_def slab_prev_def slab_list_def slab_freenum_def slab_objectsnum_def slab_cache_def

section \<open>Operations\<close>

definition list_remove :: "u64 \<Rightarrow> u64 \<Rightarrow> mem \<Rightarrow> mem" where
  "list_remove head s m =
     (let m1 = (if ld64 m (slab_prev s) \<noteq> 0 then st64 m (ld64 m (slab_prev s)) (ld64 m s)
                else st64 m head (ld64 m s))
      in if ld64 m1 s \<noteq> 0 then st64 m1 (slab_prev (ld64 m1 s)) (ld64 m1 (slab_prev s)) else m1)"

definition list_insert :: "u64 \<Rightarrow> u64 \<Rightarrow> mem \<Rightarrow> mem" where
  "list_insert head s m =
     (let m1 = st64 m s (ld64 m head);
          m2 = st64 m1 (slab_prev s) 0;
          m3 = (if ld64 m2 head \<noteq> 0 then st64 m2 (slab_prev (ld64 m2 head)) s else m2)
      in st64 m3 head s)"

definition cache_create :: "u32 \<Rightarrow> pmem \<Rightarrow> u64 \<times> pmem" where
  "cache_create sz s =
     (let (c, s) = kalloc s in
      if c = 0 then (0, s)
      else
        let m = st32 (ram s) c (ucast ((ucast sz + 8 - 1 :: u64) AND NOT (8 - 1)));
            m = st64 m (cache_slabs_full c) 0;
            m = st64 m (cache_slabs_partial c) 0;
            m = st64 m (cache_slabs_empty c) 0;
            m = st32 m (cache_empty_slabs c) 0
        in (c, s\<lparr>ram := m\<rparr>))"

text \<open>
  The \<open>for\<close> loop of \<open>slabinit\<close>: links the object at \<open>p\<close> to the next one. A slab never holds
  more than 4056 objects, which is the fuel it is given.
\<close>

fun slabinit_loop :: "nat \<Rightarrow> u64 \<Rightarrow> u64 \<Rightarrow> u64 \<Rightarrow> i32 \<Rightarrow> mem \<Rightarrow> (u64 \<times> mem) res" where
  "slabinit_loop fuel c s p i m =
     (if sint i < sint (ld32 m (slab_objectsnum s))
      then (case fuel of
          0 \<Rightarrow> Inl Diverge
        | Suc fuel' \<Rightarrow>
            (let next_obj = p + ucast (ld32 m c)
             in slabinit_loop fuel' c s next_obj (i + 1) (st64 m p next_obj)))
      else Inr (p, m))"

declare slabinit_loop.simps [simp del]

definition slabinit :: "u64 \<Rightarrow> u64 \<Rightarrow> mem \<Rightarrow> mem res" where
  "slabinit c s m =
     (let p = s + SLAB_SIZE;
          m = st64 m (slab_list s) p
      in assertR (ld32 m c \<noteq> 0) (Fault ''slabinit: division by zero'')
        (let m = st32 m (slab_objectsnum s) (ucast ((PGSIZE - SLAB_SIZE) div ucast (ld32 m c)));
             m = st32 m (slab_freenum s) (ld32 m (slab_objectsnum s));
             m = st64 m s 0;
             m = st64 m (slab_prev s) 0;
             m = st64 m (slab_cache s) c
         in bindR (slabinit_loop 4056 c s p 0 m) (\<lambda>(p, m). Inr (st64 m p 0))))"

definition cache_alloc :: "u64 \<Rightarrow> pmem \<Rightarrow> (u64 \<times> pmem) res" where
  "cache_alloc c s0 =
     bindR
       (let sl = ld64 (ram s0) (cache_slabs_partial c) in
        if sl \<noteq> 0 then Inr (sl, s0)
        else
          bindR
            (let sl = ld64 (ram s0) (cache_slabs_empty c) in
             if sl = 0 then
               (let (sl, s1) = kalloc s0 in
                if sl = 0 then Inr (0, s1)
                else bindR (slabinit c sl (ram s1)) (\<lambda>m. Inr (sl, s1\<lparr>ram := m\<rparr>)))
             else
               (let m = list_remove (cache_slabs_empty c) sl (ram s0);
                    m = st32 m (cache_empty_slabs c) (ld32 m (cache_empty_slabs c) - 1)
                in Inr (sl, s0\<lparr>ram := m\<rparr>)))
            (\<lambda>(sl, s1). if sl = 0 then Inr (0, s1)
               else Inr (sl, s1\<lparr>ram := list_insert (cache_slabs_partial c) sl (ram s1)\<rparr>)))
       (\<lambda>(sl, s1).
          if sl = 0 then Inr (0, s1)
          else
            let m = ram s1;
                obj = ld64 m (slab_list sl);
                m = st64 m (slab_list sl) (ld64 m obj);
                m = st32 m (slab_freenum sl) (ld32 m (slab_freenum sl) - 1);
                m = (if ld32 m (slab_freenum sl) = 0
                     then list_insert (cache_slabs_full c) sl (list_remove (cache_slabs_partial c) sl m)
                     else m)
            in Inr (obj, s1\<lparr>ram := m\<rparr>))"

abbreviation MAX_EMPTY_SLABS :: int where "MAX_EMPTY_SLABS \<equiv> 2"

fun cache_shrink_loop :: "nat \<Rightarrow> u64 \<Rightarrow> u64 \<Rightarrow> pmem \<Rightarrow> pmem res" where
  "cache_shrink_loop fuel c sl s =
     (if sl \<noteq> 0 \<and> MAX_EMPTY_SLABS < sint (ld32 (ram s) (cache_empty_slabs c))
      then (case fuel of
          0 \<Rightarrow> Inl Diverge
        | Suc fuel' \<Rightarrow>
            (let nx = ld64 (ram s) sl;
                 m = list_remove (cache_slabs_empty c) sl (ram s);
                 m = st32 m (cache_empty_slabs c) (ld32 m (cache_empty_slabs c) - 1)
             in bindR (kfree sl (s\<lparr>ram := m\<rparr>)) (\<lambda>s. cache_shrink_loop fuel' c nx s)))
      else Inr s)"

declare cache_shrink_loop.simps [simp del]

definition cache_shrink :: "u64 \<Rightarrow> pmem \<Rightarrow> pmem res" where
  "cache_shrink c s =
     cache_shrink_loop (nat (sint (ld32 (ram s) (cache_empty_slabs c)))) c (ld64 (ram s) (cache_slabs_empty c)) s"

definition cache_free :: "u64 \<Rightarrow> u64 \<Rightarrow> pmem \<Rightarrow> pmem res" where
  "cache_free c obj s0 =
     (let sl = PGROUNDDOWN obj;
          m = st64 (ram s0) obj (ld64 (ram s0) (slab_list sl));
          m = st64 m (slab_list sl) obj;
          m = st32 m (slab_freenum sl) (ld32 m (slab_freenum sl) + 1)
      in if ld32 m (slab_freenum sl) = 1
         then Inr (s0\<lparr>ram := list_insert (cache_slabs_partial c) sl (list_remove (cache_slabs_full c) sl m)\<rparr>)
         else if ld32 m (slab_freenum sl) = ld32 m (slab_objectsnum sl)
         then
           (let m = list_insert (cache_slabs_empty c) sl (list_remove (cache_slabs_partial c) sl m);
                m = st32 m (cache_empty_slabs c) (ld32 m (cache_empty_slabs c) + 1);
                s1 = s0\<lparr>ram := m\<rparr>
            in if MAX_EMPTY_SLABS < sint (ld32 m (cache_empty_slabs c)) then cache_shrink c s1 else Inr s1)
         else Inr (s0\<lparr>ram := m\<rparr>))"

section \<open>A fresh slab\<close>

text \<open>The address of object \<open>k\<close> of the slab at \<open>s\<close>, objects being \<open>z\<close> bytes apart.\<close>

definition obj_at :: "u64 \<Rightarrow> u64 \<Rightarrow> nat \<Rightarrow> u64" where
  "obj_at s z k = s + (40 + of_nat k * z)"

text \<open>The objects linked from \<open>h\<close> are \<open>xs\<close>, in this order, and the last one links to \<open>t\<close>.\<close>

fun obj_chain :: "mem \<Rightarrow> u64 \<Rightarrow> u64 list \<Rightarrow> u64 \<Rightarrow> bool" where
  "obj_chain m h [] t \<longleftrightarrow> h = t"
| "obj_chain m h (x # xs) t \<longleftrightarrow> h = x \<and> obj_chain m (ld64 m x) xs t"

text \<open>\<open>objectsnum\<close> of a slab whose objects have size \<open>z\<close>.\<close>

definition objs_per_slab :: "u64 \<Rightarrow> nat" where
  "objs_per_slab z = 4056 div unat z"

lemma unat_obj_off:
  assumes "40 + k * unat z \<le> 4096"
  shows "unat (40 + of_nat k * z :: u64) = 40 + k * unat z"
proof -
  have "of_nat k * z = of_nat (k * unat z)" by simp
  moreover have "k * unat z < 18446744073709551616" using assms by simp
  ultimately have "unat (of_nat k * z) = k * unat z" by (metis unat_of_nat64)
  then show ?thesis using assms by (subst unat_add64_small) auto
qed

lemma obj_at_Suc: "obj_at s z (Suc k) = obj_at s z k + z"
  by (simp add: obj_at_def algebra_simps)

lemma al8_mult: "al8 z \<Longrightarrow> al8 (40 + of_nat k * z)"
proof -
  assume "al8 z"
  then have "unat (of_nat k * z) mod 8 = 0"
    by (simp add: al8_def unat_word_ariths mod_mod_cancel)
      (metis mod_mult_right_eq mult_0_right mod_0)
  then show ?thesis by (simp add: al8_def unat_mod_add64 mod_add_eq [of _ 8, symmetric])
qed

lemma obj_at_al8: "al_page s \<Longrightarrow> al8 z \<Longrightarrow> al8 (obj_at s z k)"
  by (simp add: obj_at_def al8_mult)

lemma obj_at_inj:
  assumes "0 < unat z" and "40 + j * unat z \<le> 4096" and "40 + k * unat z \<le> 4096"
  shows "obj_at s z j = obj_at s z k \<longleftrightarrow> j = k"
proof
  assume "obj_at s z j = obj_at s z k"
  then have "unat (40 + of_nat j * z) = unat (40 + of_nat k * z)" by (simp add: obj_at_def)
  then have "j * unat z = k * unat z" using unat_obj_off assms(2,3) by simp
  then show "j = k" using assms(1) by simp
qed simp

lemma obj_at_header:
  assumes "40 + k * unat z \<le> 4096" and "unat i < 40"
  shows "obj_at s z k \<noteq> s + i"
proof
  assume "obj_at s z k = s + i"
  then have "40 + of_nat k * z = i" by (simp add: obj_at_def)
  with unat_obj_off [OF assms(1)] assms(2) show False by simp
qed

lemma obj_at_other_page:
  assumes "al_page s" and "al_page q" and "s \<noteq> q" and "40 + k * unat z < 4096" and "unat i < 4096"
  shows "obj_at s z k \<noteq> q + i"
proof -
  have "unat (40 + of_nat k * z :: u64) < 4096" using unat_obj_off [of k z] assms(4) by simp
  then show ?thesis unfolding obj_at_def using assms by (intro page_add_neq)
qed

lemma obj_chain_objs:
  "(\<forall>k \<in> {i..<i + r}. ld64 m (obj_at s z k) = obj_at s z (Suc k)) \<Longrightarrow>
   obj_chain m (obj_at s z i) (map (obj_at s z) [i..<i + r]) (obj_at s z (i + r))"
proof (induction r arbitrary: i)
  case (Suc r)
  have "[i..<i + Suc r] = i # [Suc i..<Suc i + r]" by (simp add: upt_rec)
  then show ?case using Suc.IH [of "Suc i"] Suc.prems by simp
qed simp

lemma sint_of_nat32: "n < 2147483648 \<Longrightarrow> sint (of_nat n :: i32) = int n"
  by (simp add: sint_uint signed_take_bit_eq_if_positive take_bit_eq_mod uint_nat)
     (simp add: signed_take_bit_int_eq_self)

lemma slabinit_loop_ok:
  assumes "al_page s" and "al_page c" and "c \<noteq> s" and "al8 z" and "0 < unat z" and "40 + n * unat z \<le> 4096"
    and "i \<le> n" and "n - i \<le> fuel"
    and "ucast (ld32 m c) = z" and "ld32 m (slab_objectsnum s) = of_nat n"
  shows "\<exists>m'. slabinit_loop fuel c s (obj_at s z i) (of_nat i) m = Inr (obj_at s z n, m') \<and>
    upd_only (obj_at s z ` {i..<n}) m m' \<and> (\<forall>k \<in> {i..<n}. ld64 m' (obj_at s z k) = obj_at s z (Suc k))"
  using assms(7-10)
proof (induction fuel arbitrary: i m)
  case (0 i m)
  then have "i = n" by simp
  with 0 show ?case by (subst slabinit_loop.simps) simp
next
  case (Suc fuel)
  show ?case
  proof (cases "i = n")
    case True
    with Suc.prems show ?thesis by (subst slabinit_loop.simps) simp
  next
    case False
    then have lt: "i < n" using Suc.prems(1) by simp
    have n: "n \<le> 4056"
    proof -
      have "n * 1 \<le> n * unat z" using assms(5) by (intro mult_le_mono2) simp
      then show ?thesis using assms(6) by linarith
    qed
    have off: "40 + k * unat z \<le> 4096" if "k \<le> n" for k
    proof -
      have "k * unat z \<le> n * unat z" using that by (rule mult_le_mono1)
      then show ?thesis using assms(6) by linarith
    qed
    have "Suc i * unat z \<le> n * unat z" using lt by (intro mult_le_mono1) simp
    then have "unat z + i * unat z \<le> n * unat z" by simp
    then have off_i: "40 + i * unat z < 4096" using assms(5,6) by linarith
    let ?o = "obj_at s z i" and ?o' = "obj_at s z (Suc i)"
    let ?m = "st64 m ?o ?o'"
    have al: "al8 ?o" "al8 s" "al8 c" using assms(1,2,4) by (simp_all add: obj_at_al8)
    have "?o \<noteq> c + 0" using assms(1-3) off_i by (intro obj_at_other_page) auto
    then have oc: "?o \<noteq> c" "c \<noteq> ?o + 4"
    proof -
      have "al8 (?o + 4) \<Longrightarrow> False"
        using al(1) by (simp add: al8_def unat_mod_add64) presburger
      with al(3) show "c \<noteq> ?o + 4" by blast
    qed simp
    have oh: "s + 24 \<noteq> ?o" using obj_at_header [OF off [of i], of 24 s] lt by auto
    have up: "upd_only {?o} m ?m" by (simp add: upd_only_st64)
    have "ld32 ?m (s + 24 + 4) = ld32 m (s + 24 + 4)"
      using upd_only_ld32(2) [OF up, of "s + 24"] al assms(1) oh by (simp add: al8_def [of 24])
    then have hd: "ld32 ?m (slab_objectsnum s) = of_nat n"
      using Suc.prems(4) by (simp add: slab_objectsnum_def add.assoc)
    have cz: "ucast (ld32 ?m c) = z"
      using upd_only_ld32(1) [OF up, of c] al oc Suc.prems(3) by simp
    obtain m' where m': "slabinit_loop fuel c s ?o' (of_nat (Suc i)) ?m = Inr (obj_at s z n, m')"
        "upd_only (obj_at s z ` {Suc i..<n}) ?m m'"
        "\<forall>k \<in> {Suc i..<n}. ld64 m' (obj_at s z k) = obj_at s z (Suc k)"
      using Suc.IH [OF _ _ cz hd, of "Suc i"] Suc.prems(2) lt by force
    have "slabinit_loop (Suc fuel) c s ?o (of_nat i) m = slabinit_loop fuel c s ?o' (of_nat (Suc i)) ?m"
      using lt n Suc.prems(3,4)
      by (subst slabinit_loop.simps) (simp add: sint_of_nat32 obj_at_Suc Let_def add.commute)
    moreover have "upd_only (obj_at s z ` {i..<n}) m m'"
      using upd_only_trans [OF up m'(2)] by (rule upd_only_mono) (use lt in auto)
    moreover have "ld64 m' ?o = ?o'"
    proof -
      have "?o \<notin> obj_at s z ` {Suc i..<n}"
        using obj_at_inj [OF assms(5) off [of i]] off lt by auto
      then have "ld64 m' ?o = ld64 ?m ?o"
        using upd_only_ld64 [OF m'(2)] al(1) assms(1,4) by (auto simp: obj_at_al8)
      then show ?thesis by simp
    qed
    ultimately show ?thesis using m'(1,3) by (auto simp: le_less Suc_le_eq)
  qed
qed

text \<open>
  The geometry of a cache whose object size is \<open>z\<close>: a multiple of 8 and small enough for
  one object to fit.
\<close>

definition size_ok :: "u64 \<Rightarrow> bool" where
  "size_ok z \<longleftrightarrow> al8 z \<and> 0 < unat z \<and> unat z \<le> 4056"

lemma objs_fit: "40 + objs_per_slab z * unat z \<le> 4096"
  using div_times_less_eq_dividend [of 4056 "unat z"] by (simp add: objs_per_slab_def)

lemma objs_per_slab_le: "size_ok z \<Longrightarrow> objs_per_slab z \<le> 507"
proof -
  assume h: "size_ok z"
  then have "8 \<le> unat z" unfolding size_ok_def al8_def by presburger
  then have "4056 div unat z \<le> 4056 div 8" by (intro div_le_mono2) auto
  then show ?thesis by (simp add: objs_per_slab_def)
qed

lemma objs_per_slab_pos: "size_ok z \<Longrightarrow> 0 < objs_per_slab z"
  by (simp add: size_ok_def objs_per_slab_def div_greater_zero_iff)

text \<open>
  What \<open>slabinit\<close> does to memory: it sets the header, links object \<open>k\<close> to \<open>k + 1\<close> for each of
  the \<open>n\<close> objects and finally clears the word at \<open>obj_at s z n\<close>, one object past the last.
\<close>

lemma slabinit_ok:
  assumes "al_page s" and "al_page c" and "c \<noteq> s" and "ucast (ld32 m c) = z" and "size_ok z"
  defines "n \<equiv> objs_per_slab z"
  shows "\<exists>m1. slabinit c s m = Inr (st64 m1 (obj_at s z n) 0) \<and>
    upd_only ({s, s + 8, s + 16, s + 24, s + 32} \<union> obj_at s z ` {0..<n}) m m1 \<and>
    ld64 m1 s = 0 \<and> ld64 m1 (s + 8) = 0 \<and> ld64 m1 (s + 16) = obj_at s z 0 \<and>
    ld32 m1 (s + 24) = of_nat n \<and> ld32 m1 (s + 28) = of_nat n \<and> ld64 m1 (s + 32) = c \<and>
    (\<forall>k < n. ld64 m1 (obj_at s z k) = obj_at s z (Suc k))"
proof -
  have z: "al8 z" "0 < unat z" "40 + n * unat z \<le> 4096" "n \<le> 507"
    using assms(5) objs_fit [of z] objs_per_slab_le [of z] by (auto simp: size_ok_def n_def)
  have z0: "ld32 m c \<noteq> 0" using assms(4) z(2) by auto
  have "unat ((4056 :: u64) div z) = n" by (simp add: n_def objs_per_slab_def unat_div)
  then have N: "(ucast ((4056 :: u64) div z) :: u32) = of_nat n" by (metis of_nat_unat)
  define m0 where "m0 = st64 (st64 (st64 (st32 (st32 (st64 m (s + 16) (s + 40)) (s + 28) (of_nat n))
    (s + 24) (of_nat n)) s 0) (s + 8) 0) (s + 32) c"
  let ?H = "{s, s + 8, s + 16, s + 24, s + 32}"
  have n8: "al8 8" "al8 16" "al8 24" "al8 32" "al4 24" "al4 28" "\<not> al8 4" "al8 0"
    by (simp_all add: al8_def al4_def)
  have s28: "s + 28 = s + 24 + 4" by simp
  have up0: "upd_only ?H m m0"
    unfolding m0_def s28
    by (intro upd_only_step upd_only_refl) auto
  have hd0: "ld64 m0 s = 0" "ld64 m0 (s + 8) = 0" "ld64 m0 (s + 16) = s + 40" "ld32 m0 (s + 24) = of_nat n"
    "ld32 m0 (s + 28) = of_nat n" "ld64 m0 (s + 32) = c"
    using assms(1) n8 unfolding m0_def by (simp_all add: al_page_al8)
  have H8: "\<forall>w \<in> ?H. al8 w" using assms(1) n8 by auto
  have cH: "c \<notin> ?H" using assms(1-3) by (auto simp: addr_neq)
  have cz: "ucast (ld32 m0 c) = z" using upd_only_ld32(1) [OF up0 H8 _ cH] assms(2,4) by simp
  have "slabinit_loop 4056 c s (obj_at s z 0) (of_nat 0) m0 = slabinit_loop 4056 c s (s + 40) 0 m0"
    by (simp add: obj_at_def)
  then obtain m1 where m1: "slabinit_loop 4056 c s (s + 40) 0 m0 = Inr (obj_at s z n, m1)"
      "upd_only (obj_at s z ` {0..<n}) m0 m1" "\<forall>k \<in> {0..<n}. ld64 m1 (obj_at s z k) = obj_at s z (Suc k)"
    using slabinit_loop_ok [OF assms(1-3) z(1-3), of 0 4056 m0] cz hd0(5) z(4)
    by (auto simp: slab_objectsnum_def)
  have "slabinit c s m = Inr (st64 m1 (obj_at s z n) 0)"
  proof -
    have "c \<noteq> s + 16" "c \<noteq> s + 20" using assms(1-3) by (intro page_neq_add; simp)+
    then have "c \<noteq> s + 16" "c \<noteq> s + 16 + 4" by (simp_all add: add.commute)
    then have "ld32 (st64 m (s + 16) (s + 40)) c = ld32 m c"
      using assms(1,2) n8 by (intro ld32_st64_neq) auto
    then show ?thesis
      using assms(1-4) z0 m1(1) N n8 unfolding m0_def
      by (simp add: slabinit_def slab_fields Let_def)
  qed
  moreover have "upd_only (?H \<union> obj_at s z ` {0..<n}) m m1" by (rule upd_only_trans [OF up0 m1(2)])
  moreover have keep: "ld64 m1 (s + i) = ld64 m0 (s + i)" "ld32 m1 (s + i) = ld32 m0 (s + i)"
    "ld32 m1 (s + i + 4) = ld32 m0 (s + i + 4)" if "unat i < 40" "al8 i" for i
  proof -
    have "s + i \<noteq> obj_at s z k" if "k < n" for k
      using mult_le_mono1 [of k n "unat z"] that z(3) \<open>unat i < 40\<close>
      by (intro obj_at_header [symmetric]) linarith+
    then have "s + i \<notin> obj_at s z ` {0..<n}" by (metis atLeastLessThan_iff imageE)
    then show "ld64 m1 (s + i) = ld64 m0 (s + i)" "ld32 m1 (s + i) = ld32 m0 (s + i)"
      "ld32 m1 (s + i + 4) = ld32 m0 (s + i + 4)"
      using upd_only_ld64 [OF m1(2)] upd_only_ld32 [OF m1(2)] assms(1) z(1) that(2) by (auto simp: obj_at_al8)
  qed
  moreover have u: "unat (0 :: u64) < 40" "unat (8 :: u64) < 40" "unat (16 :: u64) < 40"
    "unat (24 :: u64) < 40" "unat (32 :: u64) < 40" by simp_all
  moreover have "ld64 m1 s = 0" "ld64 m1 (s + 8) = 0" "ld64 m1 (s + 16) = s + 40" "ld64 m1 (s + 32) = c"
      "ld32 m1 (s + 24) = of_nat n" "ld32 m1 (s + 28) = of_nat n"
    using keep(1) [OF u(1) n8(8)] keep(1) [OF u(2) n8(1)] keep(1) [OF u(3) n8(2)] keep(1) [OF u(5) n8(4)]
      keep(2) [OF u(4) n8(3)] keep(3) [OF u(4) n8(3)] hd0
    by (simp_all add: add.commute)
  moreover have "obj_at s z 0 = s + 40" by (simp add: obj_at_def)
  moreover have "\<forall>k < n. ld64 m1 (obj_at s z k) = obj_at s z (Suc k)" using m1(3) by simp
  ultimately show ?thesis by (intro exI [of _ m1] conjI) (assumption | simp)+
qed

text \<open>
  C31: \<open>slabinit\<close> of a page for a cache whose object size is a multiple of 8 that leaves a
  spare word after the last object: it returns, changes nothing outside that page, and the
  free list of the slab then holds every object of the page once, in address order, with the
  free count and the object count both equal to the number of objects that fit.
\<close>

theorem slabinit_correct:
  assumes "al_page s" and "al_page c" and "c \<noteq> s" and "ucast (ld32 m c) = z" and "size_ok z"
    and "40 + objs_per_slab z * unat z + 8 \<le> 4096"
  shows "\<exists>m'. slabinit c s m = Inr m' \<and> same_outside {s} m m' \<and>
    obj_chain m' (ld64 m' (slab_list s)) (map (obj_at s z) [0..<objs_per_slab z]) (obj_at s z (objs_per_slab z)) \<and>
    ld32 m' (slab_freenum s) = of_nat (objs_per_slab z) \<and> ld32 m' (slab_objectsnum s) = of_nat (objs_per_slab z) \<and>
    ld64 m' (slab_cache s) = c \<and> ld64 m' s = 0 \<and> ld64 m' (slab_prev s) = 0 \<and>
    distinct (map (obj_at s z) [0..<objs_per_slab z])"
proof -
  let ?n = "objs_per_slab z"
  have z: "al8 z" "0 < unat z" using assms(5) by (auto simp: size_ok_def)
  obtain m1 where m1: "slabinit c s m = Inr (st64 m1 (obj_at s z ?n) 0)"
    "upd_only ({s, s + 8, s + 16, s + 24, s + 32} \<union> obj_at s z ` {0..<?n}) m m1"
    "ld64 m1 s = 0" "ld64 m1 (s + 8) = 0" "ld64 m1 (s + 16) = obj_at s z 0"
    "ld32 m1 (s + 24) = of_nat ?n" "ld32 m1 (s + 28) = of_nat ?n" "ld64 m1 (s + 32) = c"
    "\<forall>k < ?n. ld64 m1 (obj_at s z k) = obj_at s z (Suc k)"
    using slabinit_ok [OF assms(1-5)] by blast
  let ?m' = "st64 m1 (obj_at s z ?n) 0"
  have off: "40 + k * unat z + 8 \<le> 4096" if "k \<le> ?n" for k
    using mult_le_mono1 [OF that, of "unat z"] assms(6) by linarith
  have al: "al8 (obj_at s z k)" for k using assms(1) z(1) by (rule obj_at_al8)
  have hdr: "ld64 ?m' (s + i) = ld64 m1 (s + i)" "ld32 ?m' (s + i) = ld32 m1 (s + i)"
    "ld32 ?m' (s + i + 4) = ld32 m1 (s + i + 4)" if "unat i < 40" "al8 i" for i
  proof -
    have "obj_at s z ?n \<noteq> s + i" using off [of ?n] that(1) by (intro obj_at_header) auto
    then have w: "\<forall>w \<in> {obj_at s z ?n}. al8 w" "al8 (s + i)" "s + i \<notin> {obj_at s z ?n}"
      using al assms(1) that(2) by auto
    have up: "upd_only {obj_at s z ?n} m1 ?m'" by (simp add: upd_only_st64)
    show "ld64 ?m' (s + i) = ld64 m1 (s + i)" "ld32 ?m' (s + i) = ld32 m1 (s + i)"
      "ld32 ?m' (s + i + 4) = ld32 m1 (s + i + 4)"
      using upd_only_ld64 [OF up w] upd_only_ld32 [OF up w] by simp_all
  qed
  have u: "unat (0 :: u64) < 40" "al8 0" "unat (8 :: u64) < 40" "al8 8" "unat (16 :: u64) < 40" "al8 16"
    "unat (24 :: u64) < 40" "al8 24" "unat (32 :: u64) < 40" "al8 32" by (simp_all add: al8_def)
  have inj: "obj_at s z j = obj_at s z k \<longleftrightarrow> j = k" if "j \<le> ?n" "k \<le> ?n" for j k
    using off [OF that(1)] off [OF that(2)] by (intro obj_at_inj [OF z(2)]) auto
  have links: "ld64 ?m' (obj_at s z k) = obj_at s z (Suc k)" if "k < ?n" for k
    using m1(9) that al inj [of k ?n] by simp
  have page: "obj_at s z k = s + (40 + of_nat k * z)" "unat (40 + of_nat k * z :: u64) + 8 \<le> 4096" if "k \<le> ?n" for k
    using off [OF that] unat_obj_off [of k z] by (auto simp: obj_at_def)
  have "same_outside {s} m1 ?m'"
    using page [of ?n] same_outside_st64 [OF assms(1), of "40 + of_nat ?n * z"] al8_mult [OF z(1)] by simp
  moreover have "same_outside {s} m m1"
    unfolding same_outside_def
  proof (intro allI impI)
    fix x
    assume x: "PGROUNDDOWN x \<notin> {s}"
    have out: "\<not> unat (x - (s + i)) < 8" if "unat i < 4096" "al8 i" for i
      using x unat_page_off [OF that, of "x - (s + i)"]
        PGROUNDDOWN_page_add [OF assms(1), of "i + (x - (s + i))"] by (auto simp: algebra_simps)
    have "\<not> unat (x - w) < 8" if "w \<in> {s, s + 8, s + 16, s + 24, s + 32} \<union> obj_at s z ` {0..<?n}" for w
    proof -
      from that consider i where "w = s + i" "unat i < 40" "al8 i" | k where "k < ?n" "w = obj_at s z k"
        using u by force
      then show ?thesis
      proof cases
        case 1
        then show ?thesis using out [of i] by simp
      next
        case 2
        then show ?thesis using out [of "40 + of_nat k * z"] page [of k] al8_mult [OF z(1)] by simp
      qed
    qed
    then show "m1 x = m x" using m1(2) by (simp add: upd_only_def)
  qed
  ultimately have "same_outside {s} m ?m'" using same_outside_trans by fastforce
  moreover have "ld64 ?m' (s + 16) = obj_at s z 0" using hdr(1) [OF u(5,6)] m1(5) by simp
  moreover have "obj_chain ?m' (obj_at s z 0) (map (obj_at s z) [0..<?n]) (obj_at s z ?n)"
    using obj_chain_objs [of 0 ?n ?m' s z] links by simp
  moreover have "distinct (map (obj_at s z) [0..<?n])"
    using inj by (simp add: distinct_map inj_on_def)
  ultimately show ?thesis
    using m1 hdr(1) [OF u(1,2)] hdr(1) [OF u(3,4)] hdr(1) [OF u(9,10)] hdr(2) [OF u(7,8)] hdr(3) [OF u(7,8)]
    by (intro exI [of _ ?m']) (simp add: slab_fields add.commute)
qed

text \<open>A cache of objects of \<open>z\<close> bytes, in an otherwise zero memory.\<close>

definition cache_mem :: "u32 \<Rightarrow> mem" where
  "cache_mem z = st32 (\<lambda>_. 0) 0x80301000 z"

lemma cache_mem_objsz: "ucast (ld32 (cache_mem z) 0x80301000) = (ucast z :: u64)"
  by (simp add: cache_mem_def)

theorem slabinit_correct_witness:
  "\<exists>m'. slabinit 0x80301000 0x80300000 (cache_mem 16) = Inr m' \<and>
    ld32 m' (slab_freenum 0x80300000) = 253 \<and>
    obj_chain m' 0x80300028 (map (obj_at 0x80300000 16) [0..<253]) (obj_at 0x80300000 16 253)"
proof -
  have h: "al_page 0x80300000" "al_page 0x80301000" "(0x80301000 :: u64) \<noteq> 0x80300000"
    "ucast (ld32 (cache_mem 16) 0x80301000) = (16 :: u64)" "size_ok 16" "objs_per_slab 16 = 253"
    using cache_mem_objsz [of 16] by (simp_all add: al_page_def size_ok_def al8_def objs_per_slab_def)
  then have sp: "40 + objs_per_slab 16 * unat (16 :: u64) + 8 \<le> 4096" by simp
  obtain m' where m': "slabinit 0x80301000 0x80300000 (cache_mem 16) = Inr m'"
    "obj_chain m' (ld64 m' (slab_list 0x80300000)) (map (obj_at 0x80300000 16) [0..<253]) (obj_at 0x80300000 16 253)"
    "ld32 m' (slab_freenum 0x80300000) = of_nat 253"
    using slabinit_correct [OF h(1-5) sp] unfolding h(6) by blast
  have "[0..<253] = 0 # [1..<253]" by (simp add: upt_rec)
  then have "ld64 m' (slab_list 0x80300000) = obj_at 0x80300000 16 0" using m'(2) by simp
  then show ?thesis using m' by (auto simp: obj_at_def)
qed

text \<open>
  C32: in the cache of 8-byte objects the terminating null of the object list falls outside
  the slab: \<open>slabinit\<close> clears the first word of the physical page that follows, whatever
  that page holds.
\<close>

theorem slabinit_overflow:
  assumes "al_page s" and "al_page c" and "c \<noteq> s" and "ld32 m c = 8"
  shows "\<exists>m'. slabinit c s m = Inr m' \<and> ld64 m' (s + 4096) = 0"
proof -
  have "size_ok 8" by (simp add: size_ok_def al8_def)
  moreover have "objs_per_slab 8 = 507" by (simp add: objs_per_slab_def)
  moreover have "obj_at s 8 507 = s + 4096" by (simp add: obj_at_def)
  ultimately show ?thesis using slabinit_ok [OF assms(1-3), of m 8] assms(4) by auto
qed

theorem slabinit_overflow_witness:
  "\<exists>m'. slabinit 0x80303000 0x80300000 (st64 (st32 (\<lambda>_. 0) 0x80303000 8) 0x80301000 77) = Inr m' \<and>
    ld64 m' 0x80301000 = 0"
proof -
  let ?m = "st64 (st32 (\<lambda>_. 0) 0x80303000 8) 0x80301000 77"
  have h: "al_page 0x80300000" "al_page 0x80303000" "(0x80303000 :: u64) \<noteq> 0x80300000" "ld32 ?m 0x80303000 = 8"
    by (simp_all add: al_page_def al4_def al8_def)
  show ?thesis using slabinit_overflow [OF h] by auto
qed

end
