(* ===== verification/Kmalloc.thy ===== *)
theory Kmalloc
  imports Slab
begin

text \<open>
  \<open>mm/kmalloc.c\<close> and \<open>kinit\<close> of \<open>mm/kalloc.c\<close>: the general allocator, which serves small
  requests from nine slab caches and the others from whole pages, each marked by a magic
  number in its first word.
\<close>

section \<open>Operations\<close>

definition NUM_CACHES :: nat where
  "NUM_CACHES = 9"

definition MAX_CACHE_SIZE :: u64 where
  "MAX_CACHE_SIZE = 2048"

definition LARGE_ALLOC_MAGIC :: u64 where
  "LARGE_ALLOC_MAGIC = 0xDEADBEEFCAFEBABE"

definition sizes :: "u32 list" where
  "sizes = [8, 16, 32, 64, 128, 256, 512, 1024, 2048]"

fun kmallocinit_loop :: "nat list \<Rightarrow> pmem \<Rightarrow> pmem" where
  "kmallocinit_loop [] s = s"
| "kmallocinit_loop (i # is) s =
     (let (c, s) = cache_create (sizes ! i) s
      in kmallocinit_loop is (s\<lparr>kcaches := (kcaches s)[i := c]\<rparr>))"

definition kmallocinit :: "pmem \<Rightarrow> pmem" where
  "kmallocinit s = kmallocinit_loop [0..<NUM_CACHES] s"

definition kinit :: "pmem \<Rightarrow> pmem res" where
  "kinit s = bindR (freerange (ekernel s) PHYEND s) (\<lambda>s. Inr (kmallocinit s))"

text \<open>The \<open>for\<close> loop of \<open>kmalloc\<close>: the first cache whose objects are large enough.\<close>

fun kmalloc_pick :: "u64 \<Rightarrow> nat list \<Rightarrow> nat option" where
  "kmalloc_pick sz [] = None"
| "kmalloc_pick sz (i # is) = (if sz \<le> ucast (sizes ! i) then Some i else kmalloc_pick sz is)"

definition kmalloc :: "u64 \<Rightarrow> pmem \<Rightarrow> (u64 \<times> pmem) res" where
  "kmalloc sz s =
     (if sz = 0 then Inr (0, s)
      else if MAX_CACHE_SIZE < sz then
        (let (page, s) = kalloc s in
         if page = 0 then Inr (0, s)
         else Inr (page + 8, s\<lparr>ram := st64 (ram s) page LARGE_ALLOC_MAGIC\<rparr>))
      else
        (case kmalloc_pick sz [0..<NUM_CACHES] of
           None \<Rightarrow> Inr (0, s)
         | Some i \<Rightarrow>
             assertR (kcaches s ! i \<noteq> 0) (Fault ''kmalloc: null cache'') (cache_alloc (kcaches s ! i) s)))"

definition kmfree :: "u64 \<Rightarrow> pmem \<Rightarrow> pmem res" where
  "kmfree ptr s =
     (if ptr = 0 then Inr s
      else
        let page = PGROUNDDOWN ptr in
        if ld64 (ram s) page = LARGE_ALLOC_MAGIC then kfree page s
        else cache_free (ld64 (ram s) (slab_cache page)) ptr s)"

fun cache_shrink_all_loop :: "nat list \<Rightarrow> pmem \<Rightarrow> pmem res" where
  "cache_shrink_all_loop [] s = Inr s"
| "cache_shrink_all_loop (i # is) s =
     bindR (if kcaches s ! i \<noteq> 0 then cache_shrink (kcaches s ! i) s else Inr s)
       (\<lambda>s. cache_shrink_all_loop is s)"

definition cache_shrink_all :: "pmem \<Rightarrow> pmem res" where
  "cache_shrink_all s = cache_shrink_all_loop [0..<NUM_CACHES] s"

section \<open>Size classes\<close>

lemma kmalloc_pick_find: "kmalloc_pick sz is = find (\<lambda>i. sz \<le> ucast (sizes ! i)) is"
  by (induction "is") simp_all

lemma kmalloc_pick_upt:
  assumes "kmalloc_pick sz [0..<n] = Some j"
  shows "j < n \<and> sz \<le> ucast (sizes ! j) \<and> (\<forall>k < j. ucast (sizes ! k) < sz)"
  using assms by (auto simp: kmalloc_pick_find find_Some_iff)

lemma kmalloc_pick_some:
  assumes "sz \<le> 2048"
  shows "\<exists>j. kmalloc_pick sz [0..<NUM_CACHES] = Some j"
proof (rule ccontr)
  assume "\<not> ?thesis"
  then have "kmalloc_pick sz [0..<NUM_CACHES] = None" by simp
  then have "\<forall>i < 9. \<not> sz \<le> ucast (sizes ! i)"
    by (auto simp: kmalloc_pick_find find_None_iff NUM_CACHES_def)
  then have "\<not> sz \<le> ucast (sizes ! 8)" by simp
  with assms show False by (simp add: sizes_def)
qed

text \<open>
  A request of at most 2048 bytes is served from the smallest of the nine caches whose
  objects are large enough for it.
\<close>

theorem kmalloc_class:
  assumes "0 < sz" and "sz \<le> 2048" and "kcaches s = cs" and "\<forall>i < 9. cs ! i \<noteq> 0"
  shows "\<exists>i < 9. kmalloc sz s = cache_alloc (cs ! i) s \<and> sz \<le> ucast (sizes ! i) \<and>
    (\<forall>k < i. ucast (sizes ! k) < sz)"
proof -
  obtain j where j: "kmalloc_pick sz [0..<NUM_CACHES] = Some j"
    using kmalloc_pick_some [OF assms(2)] by blast
  then have "j < 9 \<and> sz \<le> ucast (sizes ! j) \<and> (\<forall>k < j. ucast (sizes ! k) < sz)"
    using kmalloc_pick_upt [of sz NUM_CACHES j] by (simp add: NUM_CACHES_def)
  moreover from this have "kmalloc sz s = cache_alloc (cs ! j) s"
    using assms j by (auto simp: kmalloc_def MAX_CACHE_SIZE_def)
  ultimately show ?thesis by blast
qed

theorem kmalloc_class_witness:
  "\<exists>i < 9. kmalloc 100 (one_page\<lparr>kcaches := replicate 9 0x80301000\<rparr>) =
      cache_alloc (replicate 9 0x80301000 ! i) (one_page\<lparr>kcaches := replicate 9 0x80301000\<rparr>) \<and>
    (100 :: u64) \<le> ucast (sizes ! i) \<and> (\<forall>k < i. ucast (sizes ! k) < (100 :: u64))"
  by (rule kmalloc_class) simp_all

text \<open>
  C33: a request larger than 2048 bytes takes one page, whatever its size, and returns the
  address just after the magic number it stores in the first word; giving that address to
  \<open>kmfree\<close> puts the page back as the next one to be handed out.
\<close>

theorem kmalloc_large:
  assumes "kmem_inv s (p # ps)" and "2048 < sz"
  shows "\<exists>s1 s2. kmalloc sz s = Inr (p + 8, s1) \<and> kmem_inv s1 ps \<and> same_outside {p} (ram s) (ram s1) \<and>
    kmfree (p + 8) s1 = Inr s2 \<and> kmem_inv s2 (p # ps)"
proof -
  have p: "al_page p" "p \<noteq> 0" "frame_ok s p" "p \<notin> set ps"
    using kmem_inv_page [OF assms(1), of p] kpages.inv_distinct [OF assms(1)] by auto
  obtain s0 where s0: "kalloc s = (p, s0)" "kmem_inv s0 ps"
      "ram s0 = (\<lambda>x. if PGROUNDDOWN x = p then 0 else ram s x)" "\<forall>q. frame_ok s0 q = frame_ok s q"
    using kalloc_some [OF assms(1)] by blast
  let ?s1 = "s0\<lparr>ram := st64 (ram s0) p LARGE_ALLOC_MAGIC\<rparr>"
  have so: "same_outside {p} (ram s0) (ram ?s1)" using same_outside_st64_0 [OF p(1)] by simp
  have "same_outside {p} (ram s) (ram s0)" using s0(3) by (simp add: same_outside_def)
  from same_outside_trans [OF this so] have so': "same_outside {p} (ram s) (ram ?s1)" by simp
  have inv1: "kmem_inv ?s1 ps" using kmem_inv_poke [OF s0(2), of "{p}"] so p(4) by simp
  have "frame_ok ?s1 p" using p(3) s0(4) frame_ok_cong [of ?s1 s0 p] by simp
  then obtain s2 where s2: "kfree p ?s1 = Inr s2" "kmem_inv s2 (p # ps)"
    using kpages.free_page [OF inv1 _ p(4)] by blast
  have "sz \<noteq> 0" "MAX_CACHE_SIZE < sz" using assms(2) by (auto simp: MAX_CACHE_SIZE_def)
  then have "kmalloc sz s = Inr (p + 8, ?s1)" using s0(1) p(2) by (simp add: kmalloc_def)
  moreover have "kmfree (p + 8) ?s1 = Inr s2"
  proof -
    have "PGROUNDDOWN (p + 8) = p" using PGROUNDDOWN_page_add [OF p(1), of 8] by simp
    moreover have "p + 8 \<noteq> 0" using page_add_unat [OF p(1), of 8] by auto
    ultimately show ?thesis using s2(1) by (simp add: kmfree_def)
  qed
  ultimately show ?thesis using inv1 so' s2(2) by blast
qed

theorem kmalloc_large_witness:
  "\<exists>s1 s2. kmalloc 5000 one_page = Inr (0x80300008, s1) \<and> kmfree 0x80300008 s1 = Inr s2 \<and>
    kmem_inv s2 [0x80300000]"
  using kmalloc_large [OF one_page_inv, of 5000] by auto

end
