(* ===== verification/Ext2Def.thy ===== *)
theory Ext2Def
  imports BlkCache Kmalloc
begin

text \<open>
  The data of the file system: the little-endian fields of the on-disk structures of
  \<open>include/ext2/ext2_def.h\<close>, read from and written to block buffers, and the in-memory
  objects of \<open>include/fs.h\<close>. Objects that the code allocates with \<open>kmalloc\<close> are records
  in a typed heap, found under the address \<open>kmalloc\<close> returned.
\<close>

section \<open>Fields of block buffers\<close>

definition rd16 :: "blk \<Rightarrow> nat \<Rightarrow> u16" where
  "rd16 b i = ucast (b i) OR push_bit 8 (ucast (b (i + 1)))"

definition rd32 :: "blk \<Rightarrow> nat \<Rightarrow> u32" where
  "rd32 b i = ucast (b i) OR push_bit 8 (ucast (b (i + 1))) OR push_bit 16 (ucast (b (i + 2))) OR
     push_bit 24 (ucast (b (i + 3)))"

definition wr16 :: "nat \<Rightarrow> u16 \<Rightarrow> blk \<Rightarrow> blk" where
  "wr16 i v b = b(i := ucast v, i + 1 := ucast (drop_bit 8 v))"

definition wr32 :: "nat \<Rightarrow> u32 \<Rightarrow> blk \<Rightarrow> blk" where
  "wr32 i v b = b(i := ucast v, i + 1 := ucast (drop_bit 8 v), i + 2 := ucast (drop_bit 16 v),
     i + 3 := ucast (drop_bit 24 v))"

text \<open>\<open>memset(b + i, 0, n)\<close> and \<open>memcpy(dst + i, src + j, n)\<close> on buffers.\<close>

definition bzero :: "nat \<Rightarrow> nat \<Rightarrow> blk \<Rightarrow> blk" where
  "bzero i n b = (\<lambda>x. if i \<le> x \<and> x < i + n then 0 else b x)"

definition bcopy :: "nat \<Rightarrow> blk \<Rightarrow> nat \<Rightarrow> nat \<Rightarrow> blk \<Rightarrow> blk" where
  "bcopy i src j n b = (\<lambda>x. if i \<le> x \<and> x < i + n then src (j + (x - i)) else b x)"

lemma u16_bytes: "(ucast (ucast v :: u8) :: u16) OR push_bit 8 (ucast (ucast (drop_bit 8 v) :: u8)) = v"
proof (rule bit_word_eqI)
  fix n
  assume "n < LENGTH(16)"
  then have "n < 8 \<or> 8 \<le> n \<and> n < 16" by auto
  then show "bit ((ucast (ucast v :: u8) :: u16) OR push_bit 8 (ucast (ucast (drop_bit 8 v) :: u8))) n = bit v n"
    by (auto simp: bit_simps)
qed

lemma rd16_wr16 [simp, rd_wr]: "rd16 (wr16 i v b) i = v"
  by (simp add: rd16_def wr16_def u16_bytes)

lemma rd32_wr32 [simp, rd_wr]: "rd32 (wr32 i v b) i = v"
  by (simp add: rd32_def wr32_def bytes_combine32)

lemma rd16_wr16_other [rd_wr]: "i + 2 \<le> j \<or> j + 2 \<le> i \<Longrightarrow> rd16 (wr16 i v b) j = rd16 b j"
  by (auto simp: rd16_def wr16_def)

lemma rd16_wr32_other [rd_wr]: "i + 4 \<le> j \<or> j + 2 \<le> i \<Longrightarrow> rd16 (wr32 i v b) j = rd16 b j"
  by (auto simp: rd16_def wr32_def)

lemma rd32_wr16_other [rd_wr]: "i + 2 \<le> j \<or> j + 4 \<le> i \<Longrightarrow> rd32 (wr16 i v b) j = rd32 b j"
  by (auto simp: rd32_def wr16_def)

lemma rd32_wr32_other [rd_wr]: "i + 4 \<le> j \<or> j + 4 \<le> i \<Longrightarrow> rd32 (wr32 i v b) j = rd32 b j"
  by (auto simp: rd32_def wr32_def)

lemma wr16_other: "x < i \<or> i + 2 \<le> x \<Longrightarrow> wr16 i v b x = b x"
  by (auto simp: wr16_def)

lemma wr32_other: "x < i \<or> i + 4 \<le> x \<Longrightarrow> wr32 i v b x = b x"
  by (auto simp: wr32_def)

lemma rd32_nb [rd_wr]: "i + 4 \<le> BLKSZ \<Longrightarrow> rd32 (nb b) i = rd32 b i"
  by (simp add: rd32_def nb_def)

lemma rd16_nb [rd_wr]: "i + 2 \<le> BLKSZ \<Longrightarrow> rd16 (nb b) i = rd16 b i"
  by (simp add: rd16_def nb_def)

section \<open>On-disk structures\<close>

text \<open>\<open>struct ext2_bg_desc\<close>, 32 bytes.\<close>

record bg_desc =
  bg_block_bitmap :: u32
  bg_inode_bitmap :: u32
  bg_inode_table :: u32
  bg_free_blocks_count :: u16
  bg_free_inodes_count :: u16
  bg_used_dirs_count :: u16
  bg_pad :: u16
  bg_reserved :: "u32 \<times> u32 \<times> u32"

definition bg_load :: "blk \<Rightarrow> nat \<Rightarrow> bg_desc" where
  "bg_load b i = \<lparr>bg_block_bitmap = rd32 b i, bg_inode_bitmap = rd32 b (i + 4), bg_inode_table = rd32 b (i + 8),
     bg_free_blocks_count = rd16 b (i + 12), bg_free_inodes_count = rd16 b (i + 14),
     bg_used_dirs_count = rd16 b (i + 16), bg_pad = rd16 b (i + 18),
     bg_reserved = (rd32 b (i + 20), rd32 b (i + 24), rd32 b (i + 28))\<rparr>"

definition bg_store :: "bg_desc \<Rightarrow> nat \<Rightarrow> blk \<Rightarrow> blk" where
  "bg_store g i b =
     (case bg_reserved g of (r0, r1, r2) \<Rightarrow>
        wr32 (i + 28) r2 (wr32 (i + 24) r1 (wr32 (i + 20) r0 (wr16 (i + 18) (bg_pad g)
        (wr16 (i + 16) (bg_used_dirs_count g) (wr16 (i + 14) (bg_free_inodes_count g)
        (wr16 (i + 12) (bg_free_blocks_count g) (wr32 (i + 8) (bg_inode_table g)
        (wr32 (i + 4) (bg_inode_bitmap g) (wr32 i (bg_block_bitmap g) b))))))))))"

lemma bg_load_store: "bg_load (bg_store g i b) i = g"
  by (cases g) (auto simp: bg_load_def bg_store_def rd_wr)

lemma bg_load_store_other:
  "i + 32 \<le> j \<or> j + 32 \<le> i \<Longrightarrow> bg_load (bg_store g i b) j = bg_load b j"
  by (cases g) (auto simp: bg_load_def bg_store_def rd_wr)

text \<open>\<open>struct ext2_super_block\<close>: the offsets of the fields the code uses, from byte 1024 on.\<close>

definition EXT2_SUPER_OFFSET :: nat where
  "EXT2_SUPER_OFFSET = 1024"

abbreviation "sb_s_inode_count \<equiv> 1024 :: nat"
abbreviation "sb_s_blocks_count \<equiv> 1028 :: nat"
abbreviation "sb_s_free_blocks_count \<equiv> 1036 :: nat"
abbreviation "sb_s_free_inodes_count \<equiv> 1040 :: nat"
abbreviation "sb_s_first_data_block \<equiv> 1044 :: nat"
abbreviation "sb_s_log_block_size \<equiv> 1048 :: nat"
abbreviation "sb_s_blocks_per_group \<equiv> 1056 :: nat"
abbreviation "sb_s_inodes_per_group \<equiv> 1064 :: nat"
abbreviation "sb_s_magic \<equiv> 1080 :: nat"
abbreviation "sb_s_rev_level \<equiv> 1100 :: nat"
abbreviation "sb_s_inode_size \<equiv> 1112 :: nat"

text \<open>\<open>struct ext2_inode\<close>: the offsets of the fields the code uses.\<close>

abbreviation "in_i_mode \<equiv> 0 :: nat"
abbreviation "in_i_uid \<equiv> 2 :: nat"
abbreviation "in_i_size \<equiv> 4 :: nat"
abbreviation "in_i_gid \<equiv> 24 :: nat"
abbreviation "in_i_links_count \<equiv> 26 :: nat"
abbreviation "in_i_blocks \<equiv> 28 :: nat"
abbreviation "in_i_flags \<equiv> 32 :: nat"
abbreviation "in_i_block \<equiv> 40 :: nat"

definition EXT2_NDIR_BLOCKS :: nat where "EXT2_NDIR_BLOCKS = 12"
definition EXT2_IND_BLOCK :: nat where "EXT2_IND_BLOCK = 12"
definition EXT2_DIND_BLOCK :: nat where "EXT2_DIND_BLOCK = 13"
definition EXT2_TIND_BLOCK :: nat where "EXT2_TIND_BLOCK = 14"
definition EXT2_N_BLOCKS :: nat where "EXT2_N_BLOCKS = 15"

lemmas ext2_consts = EXT2_NDIR_BLOCKS_def EXT2_IND_BLOCK_def EXT2_DIND_BLOCK_def EXT2_TIND_BLOCK_def
  EXT2_N_BLOCKS_def

text \<open>\<open>struct ext2_dir_entry\<close>: an 8-byte header and the name.\<close>

definition de_inode :: "blk \<Rightarrow> nat \<Rightarrow> u32" where
  "de_inode b p = rd32 b p"

definition de_rec_len :: "blk \<Rightarrow> nat \<Rightarrow> u16" where
  "de_rec_len b p = rd16 b (p + 4)"

definition de_name_len :: "blk \<Rightarrow> nat \<Rightarrow> u8" where
  "de_name_len b p = b (p + 6)"

definition de_name :: "blk \<Rightarrow> nat \<Rightarrow> nat \<Rightarrow> u8 list" where
  "de_name b p n = map (\<lambda>i. b (p + 8 + i)) [0..<n]"

definition de_store :: "nat \<Rightarrow> u32 \<Rightarrow> u16 \<Rightarrow> u8 \<Rightarrow> u8 \<Rightarrow> u8 list \<Rightarrow> blk \<Rightarrow> blk" where
  "de_store p ino rl nl ft name b =
     bcopy (p + 8) (\<lambda>i. name ! i) 0 (length name)
       ((wr16 (p + 4) rl (wr32 p ino b))(p + 6 := nl, p + 7 := ft))"

section \<open>In-memory objects\<close>

datatype inode_type = INODE_FILE | INODE_DIR | INODE_SYNLINK | INODE_DEV

text \<open>
  The operation tables an inode or a file may point to: \<open>ext2_file_ops\<close> and \<open>uart_ops\<close>. The
  only \<open>inode_ops\<close> table of the kernel is \<open>ext2_inode_ops\<close>, so calls through \<open>iops\<close> are
  direct calls.
\<close>

datatype file_ops = ext2_file_ops | uart_ops

record inode =
  i_ino :: u32
  i_type :: inode_type
  i_mode :: u32
  i_uid :: u32
  i_gid :: u32
  i_size :: u32
  i_nlinks :: u32
  i_ref :: i32
  i_dirty :: bool
  i_valid :: bool
  i_fops :: "file_ops option"
  i_fs_private :: u64

text \<open>\<open>struct ext2_inode_info\<close>; \<open>i_block\<close> has \<open>EXT2_N_BLOCKS\<close> elements.\<close>

record inode_info =
  i_block :: "u32 list"
  i_flags :: u32

record vfile =
  f_ref :: i32
  f_flags :: i32
  f_offset :: u32
  f_inode :: u64
  f_ops :: "file_ops option"

text \<open>
  \<open>struct ext2_sb_info\<close>. \<open>raw_sb\<close> points into the buffer of the pinned slot \<open>sb_buf\<close>, at
  offset 1024, so it has no field of its own.
\<close>

record sb_info =
  gb_table :: "bg_desc list"
  group_count :: u32
  inode_size :: u32
  inode_per_group :: u32
  sb_buf :: nat

text \<open>
  The file system state: the block cache, the allocator, the global \<open>struct vfs fs\<close>, the
  heap of inode, inode-info and file objects, and the global file table. The intrusive lists
  \<open>fs.inode_cache\<close> and \<open>ftable.head\<close> are the lists of the objects linked on them, in order.
\<close>

record 'd fs_state = "'d bc_state" +
  kmem :: pmem
  fs_block_size :: u32
  fs_blocks_count :: u32
  fs_root :: u64
  fs_private :: "sb_info option"
  fs_inode_cache :: "u64 list"
  fs_icache_size :: u32
  inodes :: "u64 \<Rightarrow> inode option"
  infos :: "u64 \<Rightarrow> inode_info option"
  files :: "u64 \<Rightarrow> vfile option"
  ftable_head :: "u64 list"
  ftable_count :: u64
  file_cache :: u64

text \<open>Dereferencing object pointers.\<close>

definition get_inode :: "u64 \<Rightarrow> ('d fs_state, inode) kop" where
  "get_inode p = needK (Fault ''inode pointer'') (\<lambda>s. inodes s p)"

definition put_inode :: "u64 \<Rightarrow> inode \<Rightarrow> ('d fs_state, unit) kop" where
  "put_inode p x = modK (\<lambda>s. s\<lparr>inodes := (inodes s)(p \<mapsto> x)\<rparr>)"

definition get_info :: "u64 \<Rightarrow> ('d fs_state, inode_info) kop" where
  "get_info p = needK (Fault ''inode info pointer'') (\<lambda>s. infos s p)"

definition put_info :: "u64 \<Rightarrow> inode_info \<Rightarrow> ('d fs_state, unit) kop" where
  "put_info p x = modK (\<lambda>s. s\<lparr>infos := (infos s)(p \<mapsto> x)\<rparr>)"

definition get_sbi :: "('d fs_state, sb_info) kop" where
  "get_sbi = needK (Fault ''fs_private'') fs_private"

definition put_gdesc :: "nat \<Rightarrow> bg_desc \<Rightarrow> ('d fs_state, unit) kop" where
  "put_gdesc g x = modK (\<lambda>s. s\<lparr>fs_private := map_option (\<lambda>i. i\<lparr>gb_table := (gb_table i)[g := x]\<rparr>) (fs_private s)\<rparr>)"

text \<open>A field of the superblock, through \<open>raw_sb\<close>.\<close>

definition sb_get :: "nat \<Rightarrow> sb_info \<Rightarrow> ('d fs_state, u32) kop" where
  "sb_get off sbi = getK (\<lambda>s. rd32 (bdata (slots s ! sb_buf sbi)) off)"

text \<open>\<open>raw_sb->field = v; bwrite(sbi->sb_buf)\<close>.\<close>

definition sb_put :: "nat \<Rightarrow> u32 \<Rightarrow> sb_info \<Rightarrow> ('d fs_state, unit) kop" where
  "sb_put off v sbi = bindK (bget (sb_buf sbi)) (\<lambda>b. thenK (bput (sb_buf sbi) (wr32 off v b)) (bwrite (sb_buf sbi)))"

text \<open>\<open>kmalloc\<close> and \<open>kmfree\<close> on the allocator of the file system state.\<close>

definition kmallocK :: "u64 \<Rightarrow> ('d fs_state, u64) kop" where
  "kmallocK sz s = bindR (kmalloc sz (kmem s)) (\<lambda>(p, m). Inr (p, s\<lparr>kmem := m\<rparr>))"

definition kmfreeK :: "u64 \<Rightarrow> ('d fs_state, unit) kop" where
  "kmfreeK p s = bindR (kmfree p (kmem s)) (\<lambda>m. Inr ((), s\<lparr>kmem := m\<rparr>))"

end
