(* ===== verification/Balloc.thy ===== *)
theory Balloc
  imports Ext2Def
begin

text \<open>
  \<open>fs/ext2/balloc.c\<close> and \<open>fs/ext2/ialloc.c\<close>: allocation of blocks and of inodes from the
  bitmaps of the block groups, with the free counts of the group descriptor and of the
  superblock.
\<close>

section \<open>Bitmap search\<close>

text \<open>The inner loop of both allocators, over the bits \<open>ks\<close> of byte \<open>y\<close>.\<close>

fun scan_bits :: "u8 \<Rightarrow> nat \<Rightarrow> nat \<Rightarrow> nat list \<Rightarrow> nat option" where
  "scan_bits b y lim [] = None"
| "scan_bits b y lim (k # ks) =
     (if bit b k then scan_bits b y lim ks
      else if lim \<le> y * 8 + k then None
      else Some k)"

text \<open>The outer loop, over the bytes \<open>ys\<close> of the bitmap.\<close>

fun scan_bytes :: "blk \<Rightarrow> nat \<Rightarrow> nat list \<Rightarrow> (nat \<times> nat) option res" where
  "scan_bytes d lim [] = Inr None"
| "scan_bytes d lim (y # ys) =
     (if BLKSZ \<le> y then Inl (Fault ''bitmap index'')
      else if d y = 0xFF then scan_bytes d lim ys
      else (case scan_bits (d y) y lim [0..<8] of
          None \<Rightarrow> scan_bytes d lim ys
        | Some k \<Rightarrow> Inr (Some (y, k))))"

definition bit_set :: "nat \<Rightarrow> nat \<Rightarrow> blk \<Rightarrow> blk" where
  "bit_set y k d = d(y := d y OR push_bit k 1)"

definition bit_clear :: "nat \<Rightarrow> nat \<Rightarrow> blk \<Rightarrow> blk" where
  "bit_clear y k d = d(y := d y AND NOT (push_bit k 1))"

section \<open>Group descriptors on disk\<close>

text \<open>Copies descriptor \<open>g\<close> to its place in the descriptor table on disk.\<close>

definition gdt_writeback :: "'d blkdev \<Rightarrow> u32 \<Rightarrow> ('d fs_state, unit) kop" where
  "gdt_writeback D g =
     bindK get_sbi (\<lambda>sbi.
     bindK (getK fs_block_size) (\<lambda>bs.
     bindK (sb_get sb_s_first_data_block sbi) (\<lambda>fdb.
     let gdesc_per_blk = bs div 32 in
     assertK (gdesc_per_blk \<noteq> 0) (Fault ''division by zero'')
     (let gdt_blk = fdb + 1 + g div gdesc_per_blk;
          gdt_off = unat (g mod gdesc_per_blk * 32) in
      assertK (gdt_off + 32 \<le> BLKSZ) (Fault ''group descriptor offset'')
      (bindK (bread D (ucast gdt_blk)) (\<lambda>c.
       bindK (bget c) (\<lambda>b.
       thenK (bput c (bg_store (gb_table sbi ! unat g) gdt_off b))
      (thenK (bwrite c) (brelse c)))))))))"

section \<open>Blocks\<close>

text \<open>The loop over the block groups: \<open>n\<close> groups remain, the next one is \<open>g\<close>.\<close>

fun ext2_alloc_block_loop :: "'d blkdev \<Rightarrow> nat \<Rightarrow> u32 \<Rightarrow> ('d fs_state, u32) kop" where
  "ext2_alloc_block_loop D 0 g = retK 0"
| "ext2_alloc_block_loop D (Suc n) g =
     bindK get_sbi (\<lambda>sbi.
     assertK (unat g < length (gb_table sbi)) (Fault ''gb_table'')
     (let gdesc = gb_table sbi ! unat g in
      if bg_free_blocks_count gdesc = 0 then ext2_alloc_block_loop D n (g + 1)
      else
       bindK (bread D (ucast (bg_block_bitmap gdesc))) (\<lambda>bmap.
       bindK (sb_get sb_s_first_data_block sbi) (\<lambda>fdb.
       bindK (sb_get sb_s_blocks_per_group sbi) (\<lambda>bpg.
       bindK (sb_get sb_s_blocks_count sbi) (\<lambda>cnt.
       let base = fdb + g * bpg;
           blocks_in_group = (if cnt < base + bpg then cnt - base else bpg);
           nbytes = (blocks_in_group + 7) div 8 in
       bindK (bget bmap) (\<lambda>d.
       bindK (liftK (scan_bytes d (unat blocks_in_group) [0..<unat nbytes])) (\<lambda>r.
       case r of
         None \<Rightarrow> thenK (brelse bmap) (ext2_alloc_block_loop D n (g + 1))
       | Some (y, k) \<Rightarrow>
           thenK (bput bmap (bit_set y k d))
          (thenK (bwrite bmap)
          (thenK (brelse bmap)
          (thenK (put_gdesc (unat g) (gdesc\<lparr>bg_free_blocks_count := bg_free_blocks_count gdesc - 1\<rparr>))
          (thenK (gdt_writeback D g)
          (bindK (sb_get sb_s_free_blocks_count sbi) (\<lambda>free.
           thenK (sb_put sb_s_free_blocks_count (free - 1) sbi)
          (retK (base + of_nat (y * 8 + k)))))))))))))))))"

definition ext2_alloc_block :: "'d blkdev \<Rightarrow> ('d fs_state, u32) kop" where
  "ext2_alloc_block D = bindK get_sbi (\<lambda>sbi. ext2_alloc_block_loop D (unat (group_count sbi)) 0)"

definition ext2_free_block :: "'d blkdev \<Rightarrow> u32 \<Rightarrow> ('d fs_state, unit) kop" where
  "ext2_free_block D no =
     bindK get_sbi (\<lambda>sbi.
     if no = 0 then retK ()
     else
     bindK (sb_get sb_s_first_data_block sbi) (\<lambda>fdb.
     if no < fdb then retK ()
     else
     bindK (sb_get sb_s_blocks_per_group sbi) (\<lambda>bpg.
     assertK (bpg \<noteq> 0) (Fault ''division by zero'')
     (let rel = no - fdb; g = rel div bpg; bt = rel mod bpg in
      if group_count sbi \<le> g then retK ()
      else
      assertK (unat g < length (gb_table sbi)) (Fault ''gb_table'')
      (let gdesc = gb_table sbi ! unat g in
       bindK (bread D (ucast (bg_block_bitmap gdesc))) (\<lambda>bmap.
       let y = unat (bt div 8); k = unat (bt mod 8) in
       assertK (y < BLKSZ) (Fault ''bitmap index'')
       (bindK (bget bmap) (\<lambda>d.
        thenK (bput bmap (bit_clear y k d))
       (thenK (bwrite bmap)
       (thenK (brelse bmap)
       (thenK (put_gdesc (unat g) (gdesc\<lparr>bg_free_blocks_count := bg_free_blocks_count gdesc + 1\<rparr>))
       (thenK (gdt_writeback D g)
       (bindK (sb_get sb_s_free_blocks_count sbi) (\<lambda>free.
        sb_put sb_s_free_blocks_count (free + 1) sbi))))))))))))))"

section \<open>Inodes\<close>

fun ext2_alloc_inode_loop :: "'d blkdev \<Rightarrow> nat \<Rightarrow> u32 \<Rightarrow> ('d fs_state, u32) kop" where
  "ext2_alloc_inode_loop D 0 g = retK 0"
| "ext2_alloc_inode_loop D (Suc n) g =
     bindK get_sbi (\<lambda>sbi.
     assertK (unat g < length (gb_table sbi)) (Fault ''gb_table'')
     (let gdesc = gb_table sbi ! unat g in
      if bg_free_inodes_count gdesc = 0 then ext2_alloc_inode_loop D n (g + 1)
      else
       bindK (bread D (ucast (bg_inode_bitmap gdesc))) (\<lambda>bmap.
       bindK (sb_get sb_s_inode_count sbi) (\<lambda>cnt.
       let base_ino = g * inode_per_group sbi;
           inodes_in_group = (if cnt < base_ino + inode_per_group sbi then cnt - base_ino else inode_per_group sbi);
           nbytes = (inodes_in_group + 7) div 8 in
       bindK (bget bmap) (\<lambda>d.
       bindK (liftK (scan_bytes d (unat inodes_in_group) [0..<unat nbytes])) (\<lambda>r.
       case r of
         None \<Rightarrow> thenK (brelse bmap) (ext2_alloc_inode_loop D n (g + 1))
       | Some (y, k) \<Rightarrow>
           thenK (bput bmap (bit_set y k d))
          (thenK (bwrite bmap)
          (thenK (brelse bmap)
          (thenK (put_gdesc (unat g) (gdesc\<lparr>bg_free_inodes_count := bg_free_inodes_count gdesc - 1\<rparr>))
          (thenK (gdt_writeback D g)
          (bindK (sb_get sb_s_free_inodes_count sbi) (\<lambda>free.
           thenK (sb_put sb_s_free_inodes_count (free - 1) sbi)
          (retK (base_ino + of_nat (y * 8 + k) + 1))))))))))))))"

definition ext2_alloc_inode :: "'d blkdev \<Rightarrow> ('d fs_state, u32) kop" where
  "ext2_alloc_inode D = bindK get_sbi (\<lambda>sbi. ext2_alloc_inode_loop D (unat (group_count sbi)) 0)"

definition ext2_free_inode :: "'d blkdev \<Rightarrow> u32 \<Rightarrow> ('d fs_state, unit) kop" where
  "ext2_free_inode D ino =
     bindK get_sbi (\<lambda>sbi.
     if ino = 0 then retK ()
     else
     assertK (inode_per_group sbi \<noteq> 0) (Fault ''division by zero'')
     (let idx = ino - 1; g = idx div inode_per_group sbi; bt = idx mod inode_per_group sbi in
      if group_count sbi \<le> g then retK ()
      else
      assertK (unat g < length (gb_table sbi)) (Fault ''gb_table'')
      (let gdesc = gb_table sbi ! unat g in
       bindK (bread D (ucast (bg_inode_bitmap gdesc))) (\<lambda>bmap.
       let y = unat (bt div 8); k = unat (bt mod 8) in
       assertK (y < BLKSZ) (Fault ''bitmap index'')
       (bindK (bget bmap) (\<lambda>d.
        thenK (bput bmap (bit_clear y k d))
       (thenK (bwrite bmap)
       (thenK (brelse bmap)
       (thenK (put_gdesc (unat g) (gdesc\<lparr>bg_free_inodes_count := bg_free_inodes_count gdesc + 1\<rparr>))
       (thenK (gdt_writeback D g)
       (bindK (sb_get sb_s_free_inodes_count sbi) (\<lambda>free.
        sb_put sb_s_free_inodes_count (free + 1) sbi))))))))))))"

end
