(* ===== verification/Inode.thy ===== *)
theory Inode
  imports Balloc
begin

text \<open>
  \<open>fs/ext2/inode.c\<close>, and \<open>iput\<close> of \<open>fs/vfs.c\<close>, which calls back into it: location, loading,
  storing, caching and release of inodes.
\<close>

section \<open>Inode and disk format\<close>

definition S_ISDIR :: "u16 \<Rightarrow> bool" where
  "S_ISDIR m \<longleftrightarrow> m AND 0xF000 = 0x4000"

definition S_ISREG :: "u16 \<Rightarrow> bool" where
  "S_ISREG m \<longleftrightarrow> m AND 0xF000 = 0x8000"

definition S_ISLNK :: "u16 \<Rightarrow> bool" where
  "S_ISLNK m \<longleftrightarrow> m AND 0xF000 = 0xA000"

text \<open>What \<open>ext2_read_inode\<close> copies from the raw inode at byte \<open>off\<close> of a block.\<close>

definition inode_load :: "blk \<Rightarrow> nat \<Rightarrow> inode \<Rightarrow> inode" where
  "inode_load b off x = x\<lparr>
     i_mode := ucast (rd16 b (off + in_i_mode)),
     i_uid := ucast (rd16 b (off + in_i_uid)),
     i_gid := ucast (rd16 b (off + in_i_gid)),
     i_size := rd32 b (off + in_i_size),
     i_nlinks := ucast (rd16 b (off + in_i_links_count)),
     i_type := (if S_ISDIR (rd16 b (off + in_i_mode)) then INODE_DIR
       else if S_ISREG (rd16 b (off + in_i_mode)) then INODE_FILE
       else if S_ISLNK (rd16 b (off + in_i_mode)) then INODE_SYNLINK
       else INODE_FILE)\<rparr>"

definition info_load :: "blk \<Rightarrow> nat \<Rightarrow> inode_info" where
  "info_load b off = \<lparr>i_block = map (\<lambda>i. rd32 b (off + in_i_block + 4 * i)) [0..<EXT2_N_BLOCKS],
     i_flags = rd32 b (off + in_i_flags)\<rparr>"

text \<open>Writes the words \<open>xs\<close> one after the other from byte \<open>i\<close> on.\<close>

fun wr32s :: "nat \<Rightarrow> u32 list \<Rightarrow> blk \<Rightarrow> blk" where
  "wr32s i [] b = b"
| "wr32s i (x # xs) b = wr32s (i + 4) xs (wr32 i x b)"

definition used_blocks :: "u32 list \<Rightarrow> u32" where
  "used_blocks bs = of_nat (length (filter (\<lambda>x. x \<noteq> 0) bs))"

definition inode_store :: "u32 \<Rightarrow> inode \<Rightarrow> inode_info \<Rightarrow> nat \<Rightarrow> blk \<Rightarrow> blk" where
  "inode_store bs x info off b =
     wr32 (off + in_i_flags) (i_flags info)
       (wr32s (off + in_i_block) (i_block info)
       (wr32 (off + in_i_blocks) (used_blocks (i_block info) * (bs div 512))
       (wr16 (off + in_i_links_count) (ucast (i_nlinks x))
       (wr32 (off + in_i_size) (i_size x)
       (wr16 (off + in_i_gid) (ucast (i_gid x))
       (wr16 (off + in_i_uid) (ucast (i_uid x))
       (wr16 (off + in_i_mode) (ucast (i_mode x)) b)))))))"

section \<open>Operations\<close>

definition ext2_inode_loc :: "u32 \<Rightarrow> ('d fs_state, u32 \<times> u32) kop" where
  "ext2_inode_loc ino =
     bindK get_sbi (\<lambda>sbi.
     bindK (getK fs_block_size) (\<lambda>bs.
     assertK (inode_per_group sbi \<noteq> 0 \<and> bs \<noteq> 0) (Fault ''division by zero'')
     (let ino_idx = ino - 1; group = ino_idx div inode_per_group sbi in
      if group_count sbi \<le> group then failK (Panic ''ext2: inode %u out of range'')
      else
      assertK (unat group < length (gb_table sbi)) (Fault ''gb_table'')
      (let local_ino = ino_idx mod inode_per_group sbi;
           gdesc = gb_table sbi ! unat group;
           ino_table_offset = local_ino * inode_size sbi
       in retK (bg_inode_table gdesc + ino_table_offset div bs, ino_table_offset mod bs)))))"

definition ext2_read_inode :: "'d blkdev \<Rightarrow> u64 \<Rightarrow> ('d fs_state, i32) kop" where
  "ext2_read_inode D p =
     bindK (get_inode p) (\<lambda>x.
     if i_valid x then retK 0
     else
     bindK (ext2_inode_loc (i_ino x)) (\<lambda>(blkno, offset).
     bindK (bread D (ucast blkno)) (\<lambda>c.
     assertK (unat offset + 100 \<le> BLKSZ) (Fault ''raw inode'')
     (bindK (bget c) (\<lambda>b.
      thenK (put_info (i_fs_private x) (info_load b (unat offset)))
     (thenK (put_inode p ((inode_load b (unat offset) x)\<lparr>i_valid := True\<rparr>))
     (thenK (brelse c)
     (retK 0))))))))"

definition ext2_write_inode :: "'d blkdev \<Rightarrow> u64 \<Rightarrow> ('d fs_state, i32) kop" where
  "ext2_write_inode D p =
     (if p = 0 then retK (- 1)
      else
      bindK (get_inode p) (\<lambda>x.
      if \<not> i_valid x then retK (- 1)
      else
      bindK (ext2_inode_loc (i_ino x)) (\<lambda>(blkno, offset).
      bindK (bread D (ucast blkno)) (\<lambda>c.
      assertK (unat offset + 100 \<le> BLKSZ) (Fault ''raw inode'')
      (bindK (get_info (i_fs_private x)) (\<lambda>info.
       bindK (getK fs_block_size) (\<lambda>bs.
       bindK (bget c) (\<lambda>b.
       thenK (bput c (inode_store bs x info (unat offset) b))
      (thenK (bwrite c)
      (thenK (brelse c)
      (thenK (put_inode p (x\<lparr>i_dirty := False\<rparr>))
      (retK 0))))))))))))"

definition ext2_destroy_inode :: "u64 \<Rightarrow> ('d fs_state, unit) kop" where
  "ext2_destroy_inode p =
     (if p = 0 then retK ()
      else
      bindK (get_inode p) (\<lambda>x.
      thenK
        (if i_fs_private x \<noteq> 0 then
           thenK (kmfreeK (i_fs_private x))
          (thenK (modK (\<lambda>s. s\<lparr>infos := (infos s)(i_fs_private x := None)\<rparr>))
          (put_inode p (x\<lparr>i_fs_private := 0\<rparr>)))
         else retK ())
     (thenK (kmfreeK p)
     (modK (\<lambda>s. s\<lparr>inodes := (inodes s)(p := None)\<rparr>)))))"

text \<open>The search of the inode cache: \<open>list_for_each\<close> with the pointer of each inode.\<close>

fun icache_find :: "u32 \<Rightarrow> u64 list \<Rightarrow> ('d fs_state, u64) kop" where
  "icache_find ino [] = retK 0"
| "icache_find ino (p # ps) =
     bindK (get_inode p) (\<lambda>x. if i_ino x = ino then retK p else icache_find ino ps)"

abbreviation SIZEOF_INODE :: u64 where "SIZEOF_INODE \<equiv> 96"
abbreviation SIZEOF_INODE_INFO :: u64 where "SIZEOF_INODE_INFO \<equiv> 64"

text \<open>
  A fresh inode: the fields \<open>ext2_iget\<close> sets. The other fields are not initialised by the
  code; \<open>ext2_read_inode\<close> overwrites them before they are used.
\<close>

definition fresh_inode :: "u32 \<Rightarrow> u64 \<Rightarrow> inode" where
  "fresh_inode ino private = \<lparr>i_ino = ino, i_type = INODE_FILE, i_mode = 0, i_uid = 0, i_gid = 0, i_size = 0,
     i_nlinks = 0, i_ref = 1, i_dirty = False, i_valid = False, i_fops = Some ext2_file_ops,
     i_fs_private = private\<rparr>"

definition ext2_iget :: "'d blkdev \<Rightarrow> u32 \<Rightarrow> ('d fs_state, u64) kop" where
  "ext2_iget D ino =
     (if ino = 0 then retK 0
      else
      bindK (getK fs_inode_cache) (\<lambda>cache.
      bindK (icache_find ino cache) (\<lambda>cached.
      if cached \<noteq> 0 then
        bindK (get_inode cached) (\<lambda>x.
        thenK (put_inode cached (x\<lparr>i_ref := i_ref x + 1\<rparr>)) (retK cached))
      else
      bindK (kmallocK SIZEOF_INODE) (\<lambda>p.
      if p = 0 then retK 0
      else
      bindK (kmallocK SIZEOF_INODE_INFO) (\<lambda>q.
      if q = 0 then thenK (kmfreeK p) (retK 0)
      else
      thenK (put_inode p (fresh_inode ino q))
     (bindK (ext2_read_inode D p) (\<lambda>r.
      if sint r < 0 then
        thenK (kmfreeK q) (thenK (kmfreeK p)
       (thenK (modK (\<lambda>s. s\<lparr>inodes := (inodes s)(p := None), infos := (infos s)(q := None)\<rparr>)) (retK 0)))
      else
      thenK (modK (\<lambda>s. s\<lparr>fs_inode_cache := p # fs_inode_cache s, fs_icache_size := fs_icache_size s + 1\<rparr>))
     (retK p))))))))"

text \<open>
  \<open>ext2_free_branch\<close>; \<open>level\<close> is at most 3. The pointer \<open>ptrs[i]\<close> is read from the pinned
  buffer in every iteration, as the code does.
\<close>

fun ext2_free_branch :: "'d blkdev \<Rightarrow> nat \<Rightarrow> u32 \<Rightarrow> ('d fs_state, unit) kop" where
  "ext2_free_branch D 0 no = (if no = 0 then retK () else ext2_free_block D no)"
| "ext2_free_branch D (Suc level) no =
     (if no = 0 then retK ()
      else
      bindK (bread D (ucast no)) (\<lambda>c.
      bindK (getK fs_block_size) (\<lambda>bs.
      thenK
        (forK (\<lambda>i.
           assertK (4 * i + 4 \<le> BLKSZ) (Fault ''block pointer'')
           (bindK (bget c) (\<lambda>b.
            if rd32 b (4 * i) \<noteq> 0 then ext2_free_branch D level (rd32 b (4 * i)) else retK ())))
         [0..<unat (bs div 4)])
     (thenK (brelse c)
     (ext2_free_block D no)))))"

text \<open>One step of the truncation: release branch \<open>i\<close> of the inode and clear its pointer.\<close>

definition truncate_branch :: "'d blkdev \<Rightarrow> u64 \<Rightarrow> nat \<Rightarrow> nat \<Rightarrow> ('d fs_state, unit) kop" where
  "truncate_branch D q level i =
     bindK (get_info q) (\<lambda>info.
     thenK (ext2_free_branch D level (i_block info ! i))
    (bindK (get_info q) (\<lambda>info. put_info q (info\<lparr>i_block := (i_block info)[i := 0]\<rparr>))))"

definition ext2_truncate_inode :: "'d blkdev \<Rightarrow> u64 \<Rightarrow> ('d fs_state, unit) kop" where
  "ext2_truncate_inode D p =
     (if p = 0 then retK ()
      else
      bindK (get_inode p) (\<lambda>x.
      let q = i_fs_private x in
      thenK (forK (truncate_branch D q 0) [0..<EXT2_NDIR_BLOCKS])
     (thenK (truncate_branch D q 1 EXT2_IND_BLOCK)
     (thenK (truncate_branch D q 2 EXT2_DIND_BLOCK)
     (thenK (truncate_branch D q 3 EXT2_TIND_BLOCK)
     (bindK (get_inode p) (\<lambda>x.
      thenK (put_inode p (x\<lparr>i_size := 0, i_dirty := True\<rparr>))
     (bindK (ext2_write_inode D p) (\<lambda>_. retK ())))))))))"

section \<open>Releasing a reference (\<open>fs/vfs.c\<close>)\<close>

definition iput :: "'d blkdev \<Rightarrow> u64 \<Rightarrow> ('d fs_state, unit) kop" where
  "iput D p =
     (if p = 0 then retK ()
      else
      bindK (get_inode p) (\<lambda>x.
      let x = x\<lparr>i_ref := i_ref x - 1\<rparr> in
      thenK (put_inode p x)
     (if 0 < sint (i_ref x) then retK ()
      else
      bindK (getK fs_root) (\<lambda>root.
      if p = root then put_inode p (x\<lparr>i_ref := 1\<rparr>)
      else
      thenK
        (if i_nlinks x = 0 then
           thenK (ext2_truncate_inode D p) (bindK (get_inode p) (\<lambda>x. ext2_free_inode D (i_ino x)))
         else if i_dirty x then bindK (ext2_write_inode D p) (\<lambda>_. retK ())
         else retK ())
     (thenK (modK (\<lambda>s. s\<lparr>fs_inode_cache := remove1 p (fs_inode_cache s), fs_icache_size := fs_icache_size s - 1\<rparr>))
     (ext2_destroy_inode p))))))"

end
