(* ===== verification/Dir.thy ===== *)
theory Dir
  imports Inode
begin

text \<open>
  \<open>fs/ext2/dir.c\<close>: reading and writing the blocks of a file through the direct, single and
  double indirect pointers, reading and writing byte ranges, and directories: lookup,
  insertion of entries, creation of files and directories, removal of entries.

  A C buffer that a function fills is a value it returns. A name is the list of its bytes;
  \<open>namelen\<close> is its length.
\<close>

section \<open>Blocks of a file\<close>

text \<open>The steps that the branches of \<open>ext2_read_block\<close> share.\<close>

definition read_data :: "'d blkdev \<Rightarrow> u32 \<Rightarrow> u32 \<Rightarrow> blk \<Rightarrow> ('d fs_state, i32 \<times> blk) kop" where
  "read_data D bs no buf =
     assertK (unat bs \<le> BLKSZ) (Fault ''block_buf'')
     (if no = 0 then retK (0, bzero 0 (unat bs) buf)
      else
      bindK (bread D (ucast no)) (\<lambda>c.
      bindK (bget c) (\<lambda>b.
      thenK (brelse c) (retK (0, bcopy 0 b 0 (unat bs) buf)))))"

definition read_ptr :: "'d blkdev \<Rightarrow> u32 \<Rightarrow> nat \<Rightarrow> ('d fs_state, u32) kop" where
  "read_ptr D no i =
     bindK (bread D (ucast no)) (\<lambda>c.
     assertK (4 * i + 4 \<le> BLKSZ) (Fault ''block pointer'')
     (bindK (bget c) (\<lambda>b. thenK (brelse c) (retK (rd32 b (4 * i))))))"

definition ext2_read_block :: "'d blkdev \<Rightarrow> u64 \<Rightarrow> u32 \<Rightarrow> blk \<Rightarrow> ('d fs_state, i32 \<times> blk) kop" where
  "ext2_read_block D p lbk buf =
     bindK (get_inode p) (\<lambda>x.
     bindK (get_info (i_fs_private x)) (\<lambda>info.
     bindK (getK fs_block_size) (\<lambda>bs.
     if lbk < 12 then read_data D bs (i_block info ! unat lbk) buf
     else
     let lbk = lbk - 12 in
     if lbk < bs div 4 then
       (let ind_blk = i_block info ! EXT2_IND_BLOCK in
        if ind_blk = 0 then read_data D bs 0 buf
        else bindK (read_ptr D ind_blk (unat lbk)) (\<lambda>no. read_data D bs no buf))
     else
     let lbk = lbk - bs div 4; ptrs_per_blk = bs div 4 in
     if lbk < ptrs_per_blk * ptrs_per_blk then
       (let dind_blk = i_block info ! EXT2_DIND_BLOCK in
        if dind_blk = 0 then read_data D bs 0 buf
        else
        bindK (read_ptr D dind_blk (unat (lbk div ptrs_per_blk))) (\<lambda>ind_blk.
        if ind_blk = 0 then read_data D bs 0 buf
        else bindK (read_ptr D ind_blk (unat (lbk mod ptrs_per_blk))) (\<lambda>no. read_data D bs no buf)))
     else retK (- 1, buf))))"

text \<open>The steps that the branches of \<open>ext2_write_block\<close> share.\<close>

definition write_data :: "'d blkdev \<Rightarrow> u32 \<Rightarrow> u32 \<Rightarrow> blk \<Rightarrow> ('d fs_state, i32) kop" where
  "write_data D bs no buf =
     assertK (unat bs \<le> BLKSZ) (Fault ''block_buf'')
     (bindK (bread D (ucast no)) (\<lambda>c.
      bindK (bget c) (\<lambda>b.
      thenK (bput c (bcopy 0 buf 0 (unat bs) b))
     (thenK (bwrite c)
     (thenK (brelse c) (retK 0))))))"

definition zero_data :: "'d blkdev \<Rightarrow> u32 \<Rightarrow> u32 \<Rightarrow> ('d fs_state, unit) kop" where
  "zero_data D bs no =
     assertK (unat bs \<le> BLKSZ) (Fault ''block_buf'')
     (bindK (bread D (ucast no)) (\<lambda>c.
      bindK (bget c) (\<lambda>b.
      thenK (bput c (bzero 0 (unat bs) b))
     (thenK (bwrite c) (brelse c)))))"

text \<open>Allocates \<open>i_block[i]\<close> when it is 0; False when the disk is full.\<close>

definition alloc_iblock :: "'d blkdev \<Rightarrow> u64 \<Rightarrow> nat \<Rightarrow> bool \<Rightarrow> ('d fs_state, bool) kop" where
  "alloc_iblock D p i zero =
     bindK (get_inode p) (\<lambda>x.
     bindK (get_info (i_fs_private x)) (\<lambda>info.
     if i_block info ! i \<noteq> 0 then retK True
     else
     bindK (ext2_alloc_block D) (\<lambda>no.
     if no = 0 then retK False
     else
     thenK (put_info (i_fs_private x) (info\<lparr>i_block := (i_block info)[i := no]\<rparr>))
    (thenK (put_inode p (x\<lparr>i_dirty := True\<rparr>))
    (bindK (getK fs_block_size) (\<lambda>bs.
     thenK (if zero then zero_data D bs no else retK ())
    (retK True)))))))"

text \<open>
  The pointer \<open>ptrs[i]\<close> of the pinned slot \<open>c\<close>, allocated when it is 0 and, for a pointer to
  an indirect block, cleared; \<open>None\<close> when the disk is full. The slot is released.
\<close>

definition alloc_ptr :: "'d blkdev \<Rightarrow> nat \<Rightarrow> nat \<Rightarrow> bool \<Rightarrow> ('d fs_state, u32 option) kop" where
  "alloc_ptr D c i zero =
     assertK (4 * i + 4 \<le> BLKSZ) (Fault ''block pointer'')
     (bindK (bget c) (\<lambda>b.
      if rd32 b (4 * i) \<noteq> 0 then thenK (brelse c) (retK (Some (rd32 b (4 * i))))
      else
      bindK (ext2_alloc_block D) (\<lambda>no.
      if no = 0 then thenK (brelse c) (retK None)
      else
      bindK (bget c) (\<lambda>b.
      thenK (bput c (wr32 (4 * i) no b))
     (thenK (bwrite c)
     (bindK (getK fs_block_size) (\<lambda>bs.
      thenK (if zero then zero_data D bs no else retK ())
     (bindK (bget c) (\<lambda>b.
      thenK (brelse c) (retK (Some (rd32 b (4 * i)))))))))))))"

definition ext2_write_block :: "'d blkdev \<Rightarrow> u64 \<Rightarrow> u32 \<Rightarrow> blk \<Rightarrow> ('d fs_state, i32) kop" where
  "ext2_write_block D p lbk buf =
     bindK (getK fs_block_size) (\<lambda>bs.
     if lbk < 12 then
       bindK (alloc_iblock D p (unat lbk) False) (\<lambda>ok.
       if \<not> ok then retK (- 1)
       else
       bindK (get_inode p) (\<lambda>x.
       bindK (get_info (i_fs_private x)) (\<lambda>info.
       write_data D bs (i_block info ! unat lbk) buf)))
     else
     let ptrs_per_blk = bs div 4; lbk = lbk - 12 in
     if lbk < ptrs_per_blk then
       bindK (alloc_iblock D p EXT2_IND_BLOCK True) (\<lambda>ok.
       if \<not> ok then retK (- 1)
       else
       bindK (get_inode p) (\<lambda>x.
       bindK (get_info (i_fs_private x)) (\<lambda>info.
       bindK (bread D (ucast (i_block info ! EXT2_IND_BLOCK))) (\<lambda>ind.
       bindK (alloc_ptr D ind (unat lbk) False) (\<lambda>r.
       case r of
         None \<Rightarrow> retK (- 1)
       | Some no \<Rightarrow> write_data D bs no buf)))))
     else
     let lbk = lbk - ptrs_per_blk in
     if lbk < ptrs_per_blk * ptrs_per_blk then
       bindK (alloc_iblock D p EXT2_DIND_BLOCK True) (\<lambda>ok.
       if \<not> ok then retK (- 1)
       else
       bindK (get_inode p) (\<lambda>x.
       bindK (get_info (i_fs_private x)) (\<lambda>info.
       bindK (bread D (ucast (i_block info ! EXT2_DIND_BLOCK))) (\<lambda>dind.
       bindK (alloc_ptr D dind (unat (lbk div ptrs_per_blk)) True) (\<lambda>r.
       case r of
         None \<Rightarrow> retK (- 1)
       | Some ind_blk \<Rightarrow>
           bindK (bread D (ucast ind_blk)) (\<lambda>ind.
           bindK (alloc_ptr D ind (unat (lbk mod ptrs_per_blk)) False) (\<lambda>r.
           case r of
             None \<Rightarrow> retK (- 1)
           | Some no \<Rightarrow> write_data D bs no buf)))))))
     else retK (- 1))"

section \<open>Byte ranges of a file\<close>

text \<open>
  The loop of \<open>ext2_file_read\<close>. \<open>out\<close> are the bytes already stored in the caller's buffer, so
  \<open>total\<close> is its length. Every iteration but the first and the last handles a whole block.
\<close>

fun file_read_loop :: "nat \<Rightarrow> 'd blkdev \<Rightarrow> u64 \<Rightarrow> u64 \<Rightarrow> u32 \<Rightarrow> u8 list \<Rightarrow> blk \<Rightarrow>
    ('d fs_state, i32 \<times> u8 list \<times> u32) kop" where
  "file_read_loop fuel D p len offset out buf =
     (let total = of_nat (length out) in
      if total < len then
        (case fuel of
           0 \<Rightarrow> failK Diverge
         | Suc fuel' \<Rightarrow>
             bindK (getK fs_block_size) (\<lambda>bs.
             assertK (bs \<noteq> 0) (Fault ''division by zero'')
             (let lbk = offset div bs; blk_off = offset mod bs in
              bindK (ext2_read_block D p lbk buf) (\<lambda>(r, buf).
              if sint r < 0 then retK (if 0 < total then ucast total else - 1, out, offset)
              else
              let chunk = (ucast (bs - blk_off) :: u64);
                  chunk = (if len - total < chunk then len - total else chunk) in
              file_read_loop fuel' D p len (offset + ucast chunk)
                (out @ map (\<lambda>i. buf (unat blk_off + i)) [0..<unat chunk]) buf))))
      else retK (ucast total, out, offset))"

declare file_read_loop.simps [simp del]

definition ext2_file_read :: "'d blkdev \<Rightarrow> u64 \<Rightarrow> u64 \<Rightarrow> u32 \<Rightarrow> ('d fs_state, i32 \<times> u8 list \<times> u32) kop" where
  "ext2_file_read D p len offset =
     bindK (get_inode p) (\<lambda>x.
     bindK (getK fs_block_size) (\<lambda>bs.
     if 4096 < bs then retK (- 1, [], offset)
     else if i_size x \<le> offset then retK (0, [], offset)
     else
     let len = (if ucast (i_size x) < ucast offset + len then ucast (i_size x - offset) else len) in
     file_read_loop (unat len div unat bs + 2) D p len offset [] (\<lambda>_. 0)))"

text \<open>
  The loop of \<open>ext2_file_write\<close>: \<open>total\<close> bytes of \<open>src\<close> are written. The result says whether
  the function returned from inside the loop.
\<close>

fun file_write_loop :: "nat \<Rightarrow> 'd blkdev \<Rightarrow> u64 \<Rightarrow> u8 list \<Rightarrow> u64 \<Rightarrow> u32 \<Rightarrow> blk \<Rightarrow>
    ('d fs_state, bool \<times> i32 \<times> u32) kop" where
  "file_write_loop fuel D p src tot offset buf =
     (let len = of_nat (length src) in
      if tot < len then
        (case fuel of
           0 \<Rightarrow> failK Diverge
         | Suc fuel' \<Rightarrow>
             bindK (getK fs_block_size) (\<lambda>bs.
             assertK (bs \<noteq> 0) (Fault ''division by zero'')
             (let lbk = offset div bs; blk_off = offset mod bs in
              bindK (ext2_read_block D p lbk buf) (\<lambda>(r, buf).
              if sint r < 0 then retK (True, if 0 < tot then ucast tot else - 1, offset)
              else
              let chunk = (ucast (bs - blk_off) :: u64);
                  chunk = (if len - tot < chunk then len - tot else chunk);
                  buf = bcopy (unat blk_off) (\<lambda>i. src ! i) (unat tot) (unat chunk) buf in
              bindK (ext2_write_block D p lbk buf) (\<lambda>r.
              if sint r < 0 then retK (True, if 0 < tot then ucast tot else - 1, offset)
              else file_write_loop fuel' D p src (tot + chunk) (offset + ucast chunk) buf)))))
      else retK (False, ucast tot, offset))"

declare file_write_loop.simps [simp del]

definition ext2_file_write :: "'d blkdev \<Rightarrow> u64 \<Rightarrow> u8 list \<Rightarrow> u32 \<Rightarrow> ('d fs_state, i32 \<times> u32) kop" where
  "ext2_file_write D p src offset =
     bindK (getK fs_block_size) (\<lambda>bs.
     if 4096 < bs then retK (- 1, offset)
     else if src = [] then retK (0, offset)
     else
     bindK (file_write_loop (length src div unat bs + 2) D p src 0 offset (\<lambda>_. 0)) (\<lambda>(early, r, offset).
     if early then retK (r, offset)
     else
     bindK (get_inode p) (\<lambda>x.
     thenK (if i_size x < offset then put_inode p (x\<lparr>i_size := offset, i_dirty := True\<rparr>) else retK ())
    (bindK (get_inode p) (\<lambda>x.
     thenK (if i_dirty x then bindK (ext2_write_inode D p) (\<lambda>_. retK ()) else retK ())
    (retK (r, offset)))))))"

section \<open>Directory entries\<close>

text \<open>
  The \<open>while\<close> loop of \<open>ext2_lookup\<close> and \<open>ext2_unlink\<close> over the entries of one block: the
  position of the entry that matches \<open>name\<close>, and of the entry before it. An entry advances
  \<open>pos\<close> by at least 1, so the block size is enough fuel.
\<close>

fun dir_scan :: "nat \<Rightarrow> blk \<Rightarrow> nat \<Rightarrow> u8 list \<Rightarrow> nat \<Rightarrow> nat option \<Rightarrow> (nat \<times> nat option) option res" where
  "dir_scan fuel b bs name pos prev =
     (if pos + 8 \<le> bs then
        (case fuel of
           0 \<Rightarrow> Inl Diverge
         | Suc fuel' \<Rightarrow>
             if de_rec_len b pos = 0 then Inr None
             else if de_inode b pos \<noteq> 0 \<and> de_name_len b pos = of_nat (length name) \<and> BLKSZ < pos + 8 + length name then
               Inl (Fault ''directory entry name'')
             else if de_inode b pos \<noteq> 0 \<and> de_name_len b pos = of_nat (length name) \<and>
                 de_name b pos (length name) = name then
               Inr (Some (pos, prev))
             else dir_scan fuel' b bs name (pos + unat (de_rec_len b pos)) (Some pos))
      else Inr None)"

declare dir_scan.simps [simp del]

definition dir_nblocks :: "u32 \<Rightarrow> u32 \<Rightarrow> u32" where
  "dir_nblocks sz bs = (sz + bs - 1) div bs"

text \<open>The \<open>for\<close> loop of \<open>ext2_lookup\<close> over the blocks \<open>lbks\<close> of the directory.\<close>

fun lookup_loop :: "'d blkdev \<Rightarrow> u64 \<Rightarrow> u8 list \<Rightarrow> nat list \<Rightarrow> blk \<Rightarrow> ('d fs_state, u64) kop" where
  "lookup_loop D dir name [] buf = retK 0"
| "lookup_loop D dir name (lbk # lbks) buf =
     bindK (ext2_read_block D dir (of_nat lbk) buf) (\<lambda>(r, buf).
     if sint r < 0 then lookup_loop D dir name lbks buf
     else
     bindK (getK fs_block_size) (\<lambda>bs.
     bindK (liftK (dir_scan (unat bs) buf (unat bs) name 0 None)) (\<lambda>hit.
     case hit of
       None \<Rightarrow> lookup_loop D dir name lbks buf
     | Some (pos, _) \<Rightarrow> ext2_iget D (de_inode buf pos))))"

definition ext2_lookup :: "'d blkdev \<Rightarrow> u64 \<Rightarrow> u8 list \<Rightarrow> ('d fs_state, u64) kop" where
  "ext2_lookup D dir name =
     (if dir = 0 then retK 0
      else
      bindK (get_inode dir) (\<lambda>x.
      if i_type x \<noteq> INODE_DIR then retK 0
      else if name = [] then retK 0
      else
      bindK (getK fs_block_size) (\<lambda>bs.
      assertK (bs \<noteq> 0) (Fault ''division by zero'')
      (lookup_loop D dir name [0..<unat (dir_nblocks (i_size x) bs)] (\<lambda>_. 0)))))"

text \<open>The size of an entry whose name has \<open>n\<close> bytes, rounded up to a multiple of 4.\<close>

definition de_size :: "u32 \<Rightarrow> u32" where
  "de_size n = (8 + n + 3) AND NOT 3"

text \<open>
  The search of \<open>ext2_dir_add_entry\<close> in one block: position, minimal size and slack of the
  first entry with room for \<open>needed\<close> bytes. \<open>slack\<close> is computed in \<open>u32\<close>, as in the code.
\<close>

fun slack_scan :: "nat \<Rightarrow> blk \<Rightarrow> nat \<Rightarrow> u32 \<Rightarrow> nat \<Rightarrow> (nat \<times> u32 \<times> u32) option res" where
  "slack_scan fuel b bs needed pos =
     (if pos + 8 \<le> bs then
        (case fuel of
           0 \<Rightarrow> Inl Diverge
         | Suc fuel' \<Rightarrow>
             if de_rec_len b pos = 0 then Inr None
             else
             let actual = de_size (ucast (de_name_len b pos)); slack = ucast (de_rec_len b pos) - actual in
             if needed \<le> slack then Inr (Some (pos, actual, slack))
             else slack_scan fuel' b bs needed (pos + unat (de_rec_len b pos)))
      else Inr None)"

declare slack_scan.simps [simp del]

text \<open>Splits the entry at \<open>pos\<close>: it keeps \<open>actual\<close> bytes, the new entry gets the rest.\<close>

definition split_entry :: "nat \<Rightarrow> u32 \<Rightarrow> u32 \<Rightarrow> u32 \<Rightarrow> u8 \<Rightarrow> u8 list \<Rightarrow> blk \<Rightarrow> blk" where
  "split_entry pos actual slack ino ftype name b =
     de_store (pos + unat actual) ino (ucast slack) (of_nat (length name)) ftype name
       (wr16 (pos + 4) (ucast actual) b)"

fun add_entry_loop :: "'d blkdev \<Rightarrow> u64 \<Rightarrow> u8 list \<Rightarrow> u32 \<Rightarrow> u8 \<Rightarrow> u32 \<Rightarrow> nat list \<Rightarrow> blk \<Rightarrow>
    ('d fs_state, i32 option \<times> blk) kop" where
  "add_entry_loop D dir name ino ftype needed [] buf = retK (None, buf)"
| "add_entry_loop D dir name ino ftype needed (lbk # lbks) buf =
     bindK (ext2_read_block D dir (of_nat lbk) buf) (\<lambda>(r, buf).
     if sint r < 0 then add_entry_loop D dir name ino ftype needed lbks buf
     else
     bindK (getK fs_block_size) (\<lambda>bs.
     bindK (liftK (slack_scan (unat bs) buf (unat bs) needed 0)) (\<lambda>hit.
     case hit of
       None \<Rightarrow> add_entry_loop D dir name ino ftype needed lbks buf
     | Some (pos, actual, slack) \<Rightarrow>
         assertK (pos + unat actual + 8 + length name \<le> BLKSZ) (Fault ''new directory entry'')
         (let buf = split_entry pos actual slack ino ftype name buf in
          bindK (ext2_write_block D dir (of_nat lbk) buf) (\<lambda>r. retK (Some r, buf))))))"

definition ext2_dir_add_entry :: "'d blkdev \<Rightarrow> u64 \<Rightarrow> u8 list \<Rightarrow> u32 \<Rightarrow> u8 \<Rightarrow> ('d fs_state, i32) kop" where
  "ext2_dir_add_entry D dir name ino ftype =
     bindK (getK fs_block_size) (\<lambda>bs.
     assertK (bs \<noteq> 0 \<and> unat bs \<le> BLKSZ) (Fault ''block size'')
     (let needed = de_size (of_nat (length name)) in
      bindK (get_inode dir) (\<lambda>x.
      let nblocks = dir_nblocks (i_size x) bs in
      bindK (add_entry_loop D dir name ino ftype needed [0..<unat nblocks] (\<lambda>_. 0)) (\<lambda>(r, buf).
      case r of
        Some r \<Rightarrow> retK r
      | None \<Rightarrow>
          assertK (8 + length name \<le> BLKSZ) (Fault ''new directory entry'')
          (let buf = de_store 0 ino (ucast bs) (of_nat (length name)) ftype name (bzero 0 (unat bs) buf) in
           bindK (ext2_write_block D dir nblocks buf) (\<lambda>r.
           if sint r < 0 then retK (- 1)
           else
           bindK (get_inode dir) (\<lambda>x.
           thenK (put_inode dir (x\<lparr>i_size := i_size x + bs, i_dirty := True\<rparr>))
          (bindK (ext2_write_inode D dir) (\<lambda>_. retK 0)))))))))"

section \<open>Creating and removing entries\<close>

definition ext2_create :: "'d blkdev \<Rightarrow> u64 \<Rightarrow> u8 list \<Rightarrow> u32 \<Rightarrow> ('d fs_state, u64) kop" where
  "ext2_create D dir name mode =
     (if dir = 0 \<or> name = [] then retK 0
      else
      bindK (ext2_alloc_inode D) (\<lambda>ino.
      if ino = 0 then retK 0
      else
      bindK get_sbi (\<lambda>sbi.
      bindK (ext2_inode_loc ino) (\<lambda>(blkno, off).
      bindK (bread D (ucast blkno)) (\<lambda>c.
      assertK (unat off + unat (inode_size sbi) \<le> BLKSZ \<and> unat off + 100 \<le> BLKSZ) (Fault ''raw inode'')
      (bindK (bget c) (\<lambda>b.
       let b = bzero (unat off) (unat (inode_size sbi)) b;
           b = wr16 (unat off + in_i_mode) (ucast (0x8000 OR (mode AND 0xFFF))) b;
           b = wr16 (unat off + in_i_links_count) 1 b in
       thenK (bput c b)
      (thenK (bwrite c)
      (thenK (brelse c)
      (bindK (ext2_dir_add_entry D dir name ino 1) (\<lambda>r.
       if sint r < 0 then thenK (ext2_free_inode D ino) (retK 0)
       else ext2_iget D ino)))))))))))"

text \<open>The block of a new directory: the entries \<open>.\<close> and \<open>..\<close>.\<close>

definition dot_block :: "u32 \<Rightarrow> u32 \<Rightarrow> u32 \<Rightarrow> blk \<Rightarrow> blk" where
  "dot_block bs ino parent b =
     (let b = bzero 0 (unat bs) b;
          dot_rec = de_size 1;
          b = (wr16 4 (ucast dot_rec) (wr32 0 ino b))(6 := 1, 7 := 2, 8 := 0x2E);
          d = unat dot_rec
      in (wr16 (d + 4) (ucast (bs - dot_rec)) (wr32 d parent b))(d + 6 := 2, d + 7 := 2, d + 8 := 0x2E, d + 9 := 0x2E))"

definition EXT2_GDESC_OFFSET :: nat where
  "EXT2_GDESC_OFFSET = 2048"

definition ext2_mkdir :: "'d blkdev \<Rightarrow> u64 \<Rightarrow> u8 list \<Rightarrow> u32 \<Rightarrow> ('d fs_state, u64) kop" where
  "ext2_mkdir D dir name mode =
     (if dir = 0 \<or> name = [] then retK 0
      else
      bindK get_sbi (\<lambda>sbi.
      bindK (ext2_alloc_inode D) (\<lambda>ino.
      if ino = 0 then retK 0
      else
      bindK (ext2_inode_loc ino) (\<lambda>(blkno, off).
      bindK (bread D (ucast blkno)) (\<lambda>icache.
      assertK (unat off + unat (inode_size sbi) \<le> BLKSZ \<and> unat off + 100 \<le> BLKSZ) (Fault ''raw inode'')
      (bindK (getK fs_block_size) (\<lambda>bs.
       assertK (unat bs \<le> BLKSZ) (Fault ''block size'')
       (bindK (bget icache) (\<lambda>b.
        let off = unat off;
            b = bzero off (unat (inode_size sbi)) b;
            b = wr16 (off + in_i_mode) (ucast (0x4000 OR (mode AND 0xFFF))) b;
            b = wr16 (off + in_i_links_count) 2 b;
            b = wr32 (off + in_i_size) bs b;
            b = wr32 (off + in_i_blocks) (bs div 512) b in
        thenK (bput icache b)
       (bindK (ext2_alloc_block D) (\<lambda>data_blk.
        if data_blk = 0 then thenK (brelse icache) (thenK (ext2_free_inode D ino) (retK 0))
        else
        bindK (bget icache) (\<lambda>b.
        thenK (bput icache (wr32 (off + in_i_block) data_blk b))
       (thenK (bwrite icache)
       (thenK (brelse icache)
       (bindK (bread D (ucast data_blk)) (\<lambda>dcache.
        bindK (get_inode dir) (\<lambda>x.
        bindK (bget dcache) (\<lambda>b.
        thenK (bput dcache (dot_block bs ino (i_ino x) b))
       (thenK (bwrite dcache)
       (thenK (brelse dcache)
       (bindK (ext2_dir_add_entry D dir name ino 2) (\<lambda>r.
        if sint r < 0 then thenK (ext2_free_block D data_blk) (thenK (ext2_free_inode D ino) (retK 0))
        else
        bindK (get_inode dir) (\<lambda>x.
        thenK (put_inode dir (x\<lparr>i_nlinks := i_nlinks x + 1, i_dirty := True\<rparr>))
       (bindK (ext2_write_inode D dir) (\<lambda>_.
        assertK (inode_per_group sbi \<noteq> 0) (Fault ''division by zero'')
        (let group = unat ((ino - 1) div inode_per_group sbi) in
         bindK get_sbi (\<lambda>sbi.
         assertK (group < length (gb_table sbi)) (Fault ''gb_table'')
         (let gdesc = (gb_table sbi ! group)\<lparr>bg_used_dirs_count := bg_used_dirs_count (gb_table sbi ! group) + 1\<rparr> in
          thenK (put_gdesc group gdesc)
         (bindK (bread D 0) (\<lambda>sb_blk.
          assertK (EXT2_GDESC_OFFSET + 32 * group + 32 \<le> BLKSZ) (Fault ''group descriptor offset'')
          (bindK (bget sb_blk) (\<lambda>b.
           thenK (bput sb_blk (wr16 (EXT2_GDESC_OFFSET + 32 * group + 16) (bg_used_dirs_count gdesc) b))
          (thenK (bwrite sb_blk)
          (thenK (brelse sb_blk)
          (ext2_iget D ino)))))))))))))))))))))))))))))))))))"

text \<open>The update of a directory block that removes the entry at \<open>pos\<close>.\<close>

definition remove_entry :: "nat \<Rightarrow> nat option \<Rightarrow> blk \<Rightarrow> blk" where
  "remove_entry pos prev b =
     (case prev of
        Some q \<Rightarrow> wr16 (q + 4) (de_rec_len b q + de_rec_len b pos) b
      | None \<Rightarrow> wr32 pos 0 b)"

fun unlink_loop :: "'d blkdev \<Rightarrow> u64 \<Rightarrow> u8 list \<Rightarrow> nat list \<Rightarrow> blk \<Rightarrow> ('d fs_state, i32) kop" where
  "unlink_loop D dir name [] buf = retK (- 1)"
| "unlink_loop D dir name (lbk # lbks) buf =
     bindK (ext2_read_block D dir (of_nat lbk) buf) (\<lambda>(r, buf).
     if sint r < 0 then unlink_loop D dir name lbks buf
     else
     bindK (getK fs_block_size) (\<lambda>bs.
     bindK (liftK (dir_scan (unat bs) buf (unat bs) name 0 None)) (\<lambda>hit.
     case hit of
       None \<Rightarrow> unlink_loop D dir name lbks buf
     | Some (pos, prev) \<Rightarrow>
         bindK (ext2_write_block D dir (of_nat lbk) (remove_entry pos prev buf)) (\<lambda>r.
         if sint r < 0 then retK (- 1)
         else
         bindK (ext2_iget D (de_inode buf pos)) (\<lambda>victim.
         if victim = 0 then retK 0
         else
         bindK (get_inode victim) (\<lambda>x.
         thenK (put_inode victim (x\<lparr>i_nlinks := (if 0 < i_nlinks x then i_nlinks x - 1 else i_nlinks x), i_dirty := True\<rparr>))
        (bindK (ext2_write_inode D victim) (\<lambda>_.
         thenK (iput D victim)
        (retK 0)))))))))"

definition ext2_unlink :: "'d blkdev \<Rightarrow> u64 \<Rightarrow> u8 list \<Rightarrow> ('d fs_state, i32) kop" where
  "ext2_unlink D dir name =
     (if dir = 0 \<or> name = [] then retK (- 1)
      else
      bindK (getK fs_block_size) (\<lambda>bs.
      assertK (bs \<noteq> 0) (Fault ''division by zero'')
      (bindK (get_inode dir) (\<lambda>x.
       unlink_loop D dir name [0..<unat (dir_nblocks (i_size x) bs)] (\<lambda>_. 0)))))"

end
