(* ===== verification/Super.thy ===== *)
theory Super
  imports Dir
begin

text \<open>
  \<open>fs/ext2/super.c\<close> and \<open>fsinit\<close> of \<open>fs/vfs.c\<close>: mounting the file system.
\<close>

abbreviation SIZEOF_SB_INFO :: u64 where "SIZEOF_SB_INFO \<equiv> 40"

definition EXT2_SUPER_MAGIC :: u16 where
  "EXT2_SUPER_MAGIC = 0xEF53"

text \<open>
  The loop that copies the descriptor table: \<open>copied\<close> bytes of \<open>gdesc_size\<close> are in the buffer
  \<open>tab\<close> and the next disk block is \<open>gdt_blk\<close>.
\<close>

fun gdt_load_loop :: "nat \<Rightarrow> 'd blkdev \<Rightarrow> nat \<Rightarrow> nat \<Rightarrow> nat \<Rightarrow> u64 \<Rightarrow> blk \<Rightarrow> ('d fs_state, blk) kop" where
  "gdt_load_loop fuel D block_size gdesc_size copied gdt_blk tab =
     (if copied < gdesc_size then
        (case fuel of
           0 \<Rightarrow> failK Diverge
         | Suc fuel' \<Rightarrow>
             bindK (bread D gdt_blk) (\<lambda>c2.
             bindK (bget c2) (\<lambda>b.
             let chunk = min (gdesc_size - copied) block_size in
             thenK (brelse c2)
            (gdt_load_loop fuel' D block_size gdesc_size (copied + chunk) (gdt_blk + 1)
              (bcopy copied b 0 chunk tab)))))
      else retK tab)"

declare gdt_load_loop.simps [simp del]

text \<open>
  The error exits of \<open>ext2_fs_init\<close> release the superblock buffer and the private data. The
  descriptor table is one \<open>kmalloc\<close> object of at most 4088 bytes: a larger table does not fit
  the page \<open>kmalloc\<close> returns.
\<close>

definition init_fail :: "nat \<Rightarrow> u64 \<Rightarrow> ('d fs_state, i32) kop" where
  "init_fail c info = thenK (brelse c) (thenK (kmfreeK info) (retK (- 1)))"

definition ext2_fs_init :: "'d blkdev \<Rightarrow> ('d fs_state, i32) kop" where
  "ext2_fs_init D =
     bindK (bread D 0) (\<lambda>c.
     bindK (bget c) (\<lambda>sp.
     if rd16 sp sb_s_magic \<noteq> EXT2_SUPER_MAGIC then thenK (brelse c) (retK (- 2))
     else
     bindK (kmallocK SIZEOF_SB_INFO) (\<lambda>info.
     if info = 0 then init_fail c info
     else if 2 < rd32 sp sb_s_log_block_size then init_fail c info
     else
     let block_size = push_bit (unat (rd32 sp sb_s_log_block_size)) 1024 :: u32 in
     if rd32 sp sb_s_blocks_per_group = 0 \<or> rd32 sp sb_s_inodes_per_group = 0 then init_fail c info
     else
     let groups = (rd32 sp sb_s_blocks_count - rd32 sp sb_s_first_data_block +
                   rd32 sp sb_s_blocks_per_group - 1) div rd32 sp sb_s_blocks_per_group in
     if groups = 0 then init_fail c info
     else
     let isize = (if 1 \<le> rd32 sp sb_s_rev_level then ucast (rd16 sp sb_s_inode_size) else 128);
         gdesc_size = 32 * unat groups in
     bindK (kmallocK (ucast groups * 32)) (\<lambda>tabp.
     if tabp = 0 then init_fail c info
     else
     assertK (gdesc_size \<le> 4088) (Fault ''gb_table overflow'')
     (bindK (gdt_load_loop (Suc (gdesc_size div unat block_size)) D (unat block_size) gdesc_size 0
         (ucast (rd32 sp sb_s_first_data_block + 1)) (\<lambda>_. 0)) (\<lambda>tab.
      let sbi = \<lparr>gb_table = map (\<lambda>g. bg_load tab (32 * g)) [0..<unat groups], group_count = groups,
                 inode_size = isize, inode_per_group = rd32 sp sb_s_inodes_per_group, sb_buf = c\<rparr> in
      thenK (modK (\<lambda>s. s\<lparr>fs_block_size := block_size, fs_blocks_count := rd32 sp sb_s_blocks_count,
        fs_private := Some sbi, fs_inode_cache := [], fs_icache_size := 0\<rparr>))
     (bindK (ext2_iget D 2) (\<lambda>root.
      thenK (modK (\<lambda>s. s\<lparr>fs_root := root\<rparr>))
     (if root = 0 then thenK (kmfreeK tabp) (init_fail c info)
      else retK 0)))))))))"

definition fsinit :: "'d blkdev \<Rightarrow> ('d fs_state, unit) kop" where
  "fsinit D =
     bindK (ext2_fs_init D) (\<lambda>r. if sint r < 0 then failK (Panic ''Vfs init failed'') else retK ())"

end
