(* ===== verification/Uart.thy ===== *)
theory Uart
  imports Kop
begin

text \<open>
  \<open>driver/uart.c\<close>: the 16550 serial port, driven through its registers. The registers are
  the hardware, so they are a parameter \<open>U\<close>: what reading and writing a register does to the
  state \<open>'d\<close> of the devices. The polling loops may wait forever.
\<close>

section \<open>Registers\<close>

record 'd uart_regs =
  ureg_read :: "nat \<Rightarrow> 'd \<Rightarrow> u8 \<times> 'd"
  ureg_write :: "nat \<Rightarrow> u8 \<Rightarrow> 'd \<Rightarrow> 'd"

abbreviation "DLL \<equiv> 0 :: nat"
abbreviation "RBR \<equiv> 0 :: nat"
abbreviation "THR \<equiv> 0 :: nat"
abbreviation "IER \<equiv> 1 :: nat"
abbreviation "DLM \<equiv> 1 :: nat"
abbreviation "FCR \<equiv> 2 :: nat"
abbreviation "LCR \<equiv> 3 :: nat"
abbreviation "LSR \<equiv> 5 :: nat"

definition FCR_FIFO_ENABLE :: u8 where "FCR_FIFO_ENABLE = push_bit 0 1"
definition FCR_FIFO_RESET_RX :: u8 where "FCR_FIFO_RESET_RX = push_bit 1 1"
definition FCR_FIFO_RESET_TX :: u8 where "FCR_FIFO_RESET_TX = push_bit 2 1"
definition LCR_EIGHT_BITS :: u8 where "LCR_EIGHT_BITS = push_bit 0 3"
definition LCR_BAUD_LATCH :: u8 where "LCR_BAUD_LATCH = push_bit 7 1"
definition LSR_TX_IDLE :: u8 where "LSR_TX_IDLE = push_bit 5 1"
definition LSR_RX_READY :: u8 where "LSR_RX_READY = push_bit 0 1"

section \<open>Operations\<close>

partial_function (option) uart_wait :: "'d uart_regs \<Rightarrow> u8 \<Rightarrow> 'd \<Rightarrow> 'd option" where
  "uart_wait U m d =
     (let (v, d) = ureg_read U LSR d in
      if v AND m = 0 then uart_wait U m d else Some d)"

definition uart_putc :: "'d uart_regs \<Rightarrow> u8 \<Rightarrow> 'd \<Rightarrow> 'd res" where
  "uart_putc U c d = bindR (from_opt (uart_wait U LSR_TX_IDLE d)) (\<lambda>d. Inr (ureg_write U THR c d))"

definition uart_getc :: "'d uart_regs \<Rightarrow> 'd \<Rightarrow> (i32 \<times> 'd) res" where
  "uart_getc U d =
     bindR (from_opt (uart_wait U LSR_RX_READY d)) (\<lambda>d.
       let (c, d) = ureg_read U RBR d in Inr (ucast c, d))"

partial_function (option) uart_drain :: "'d uart_regs \<Rightarrow> 'd \<Rightarrow> 'd option" where
  "uart_drain U d =
     (let (v, d) = ureg_read U LSR d in
      if v AND LSR_RX_READY \<noteq> 0 then (let (_, d) = ureg_read U RBR d in uart_drain U d) else Some d)"

definition uartinit :: "'d uart_regs \<Rightarrow> 'd \<Rightarrow> 'd res" where
  "uartinit U d =
     (let d = ureg_write U IER 0 d;
          d = ureg_write U LCR LCR_BAUD_LATCH d;
          d = ureg_write U DLL 3 d;
          d = ureg_write U DLM 0 d;
          d = ureg_write U LCR LCR_EIGHT_BITS d;
          d = ureg_write U FCR (FCR_FIFO_RESET_RX OR FCR_FIFO_RESET_TX) d;
          d = ureg_write U FCR FCR_FIFO_ENABLE d
      in from_opt (uart_drain U d))"

text \<open>\<open>n\<close> bytes may still be read.\<close>

fun uart_read_loop :: "'d uart_regs \<Rightarrow> nat \<Rightarrow> 'd \<Rightarrow> u8 list \<times> 'd" where
  "uart_read_loop U 0 d = ([], d)"
| "uart_read_loop U (Suc n) d =
     (let (v, d) = ureg_read U LSR d in
      if v AND LSR_RX_READY = 0 then ([], d)
      else
        let (c, d) = ureg_read U RBR d;
            (cs, d) = uart_read_loop U n d
        in (c # cs, d))"

definition uart_read :: "'d uart_regs \<Rightarrow> u64 \<Rightarrow> 'd \<Rightarrow> (i32 \<times> u8 list) \<times> 'd" where
  "uart_read U len d =
     (let (cs, d) = uart_read_loop U (unat len) d in ((of_nat (length cs), cs), d))"

fun uart_write_loop :: "'d uart_regs \<Rightarrow> u8 list \<Rightarrow> 'd \<Rightarrow> 'd res" where
  "uart_write_loop U [] d = Inr d"
| "uart_write_loop U (c # cs) d = bindR (uart_putc U c d) (\<lambda>d. uart_write_loop U cs d)"

definition uart_write :: "'d uart_regs \<Rightarrow> u8 list \<Rightarrow> 'd \<Rightarrow> (i32 \<times> 'd) res" where
  "uart_write U cs d = bindR (uart_write_loop U cs d) (\<lambda>d. Inr (of_nat (length cs), d))"

end
