(* ===== verification/Vfs.thy ===== *)
theory Vfs
  imports Super Uart
begin

text \<open>
  \<open>fs/vfs.c\<close>: path resolution and inode-level reading and writing. A path is the list of its
  bytes without the terminating NUL.
\<close>

section \<open>Paths\<close>

definition slash :: u8 where
  "slash = 0x2F"

definition MAXPATHLEN :: nat where
  "MAXPATHLEN = 256"

fun skipslash :: "u8 list \<Rightarrow> u8 list" where
  "skipslash [] = []"
| "skipslash (c # cs) = (if c = slash then skipslash cs else c # cs)"

text \<open>The \<open>while\<close> loop of \<open>path_next\<close>: the component and what follows it.\<close>

fun path_split :: "u8 list \<Rightarrow> u8 list \<times> u8 list" where
  "path_split [] = ([], [])"
| "path_split (c # cs) = (if c = slash then ([], c # cs) else (let (n, r) = path_split cs in (c # n, r)))"

definition path_next :: "u8 list \<Rightarrow> (u8 list \<times> u8 list) option" where
  "path_next path =
     (if path = [] then None
      else
        let (start, rest) = path_split path;
            len = (if MAXPATHLEN \<le> length start then MAXPATHLEN - 1 else length start)
        in Some (take len start, rest))"

text \<open>
  The \<open>while\<close> loop of \<open>namex\<close>, at the inode \<open>cur\<close>. Each iteration consumes a component, so
  the length of the path is enough fuel. The result is the inode, 0 for \<open>nullptr\<close>, and in
  parent mode the last component.
\<close>

fun namex_loop :: "nat \<Rightarrow> 'd blkdev \<Rightarrow> bool \<Rightarrow> u64 \<Rightarrow> u8 list \<Rightarrow> ('d fs_state, u64 \<times> u8 list) kop" where
  "namex_loop fuel D parent cur path =
     (case path_next path of
        None \<Rightarrow> if parent then thenK (iput D cur) (retK (0, [])) else retK (cur, [])
      | Some (name, rest) \<Rightarrow>
          (let rest = skipslash rest in
           if parent \<and> rest = [] then retK (cur, take (MAXPATHLEN - 1) name)
           else
           bindK (get_inode cur) (\<lambda>x.
           if i_type x \<noteq> INODE_DIR then thenK (iput D cur) (retK (0, []))
           else
           bindK (ext2_lookup D cur name) (\<lambda>nxt.
           thenK (iput D cur)
          (if nxt = 0 then retK (0, [])
           else (case fuel of 0 \<Rightarrow> failK Diverge | Suc fuel' \<Rightarrow> namex_loop fuel' D parent nxt rest))))))"

declare namex_loop.simps [simp del]

definition namex :: "'d blkdev \<Rightarrow> bool \<Rightarrow> u8 list \<Rightarrow> ('d fs_state, u64 \<times> u8 list) kop" where
  "namex D parent path =
     (case path of
        [] \<Rightarrow> retK (0, [])
      | c # cs \<Rightarrow>
          if c \<noteq> slash then retK (0, [])
          else
          bindK (getK fs_root) (\<lambda>cur.
          if cur = 0 then retK (0, [])
          else
          bindK (get_inode cur) (\<lambda>x.
          thenK (put_inode cur (x\<lparr>i_ref := i_ref x + 1\<rparr>))
         (namex_loop (length path) D parent cur (skipslash cs)))))"

definition namei :: "'d blkdev \<Rightarrow> u8 list \<Rightarrow> ('d fs_state, u64) kop" where
  "namei D path = bindK (namex D False path) (\<lambda>(p, _). retK p)"

definition nameiparent :: "'d blkdev \<Rightarrow> u8 list \<Rightarrow> ('d fs_state, u64 \<times> u8 list) kop" where
  "nameiparent D path = namex D True path"

section \<open>Inode I/O\<close>

text \<open>The serial port driver on the devices of the file system state.\<close>

definition uart_readK :: "'d uart_regs \<Rightarrow> u64 \<Rightarrow> ('d fs_state, i32 \<times> u8 list) kop" where
  "uart_readK U len s = (let (r, d) = uart_read U len (dst s) in Inr (r, s\<lparr>dst := d\<rparr>))"

definition uart_writeK :: "'d uart_regs \<Rightarrow> u8 list \<Rightarrow> ('d fs_state, i32) kop" where
  "uart_writeK U src s = bindR (uart_write U src (dst s)) (\<lambda>(r, d). Inr (r, s\<lparr>dst := d\<rparr>))"

text \<open>A call through \<open>fops->read\<close> and \<open>fops->write\<close>; both tables have both functions.\<close>

definition fops_read :: "'d blkdev \<Rightarrow> 'd uart_regs \<Rightarrow> file_ops \<Rightarrow> u64 \<Rightarrow> u64 \<Rightarrow> u32 \<Rightarrow> ('d fs_state, i32 \<times> u8 list) kop" where
  "fops_read D U ops p len off =
     (case ops of
        ext2_file_ops \<Rightarrow> bindK (ext2_file_read D p len off) (\<lambda>(r, out, _). retK (r, out))
      | uart_ops \<Rightarrow> uart_readK U len)"

definition fops_write :: "'d blkdev \<Rightarrow> 'd uart_regs \<Rightarrow> file_ops \<Rightarrow> u64 \<Rightarrow> u8 list \<Rightarrow> u32 \<Rightarrow> ('d fs_state, i32) kop" where
  "fops_write D U ops p src off =
     (case ops of
        ext2_file_ops \<Rightarrow> bindK (ext2_file_write D p src off) (\<lambda>(r, _). retK r)
      | uart_ops \<Rightarrow> uart_writeK U src)"

definition readi :: "'d blkdev \<Rightarrow> 'd uart_regs \<Rightarrow> u64 \<Rightarrow> u32 \<Rightarrow> u64 \<Rightarrow> ('d fs_state, i32 \<times> u8 list) kop" where
  "readi D U p offset len =
     (if p = 0 then retK (- 1, [])
      else
      bindK (get_inode p) (\<lambda>x.
      case i_fops x of
        None \<Rightarrow> retK (- 1, [])
      | Some ops \<Rightarrow> fops_read D U ops p len offset))"

definition writei :: "'d blkdev \<Rightarrow> 'd uart_regs \<Rightarrow> u64 \<Rightarrow> u32 \<Rightarrow> u8 list \<Rightarrow> ('d fs_state, i32) kop" where
  "writei D U p offset src =
     (if p = 0 then retK (- 1)
      else
      bindK (get_inode p) (\<lambda>x.
      case i_fops x of
        None \<Rightarrow> retK (- 1)
      | Some ops \<Rightarrow> fops_write D U ops p src offset))"

end
