(* ===== verification/VFile.thy ===== *)
theory VFile
  imports Vfs
begin

text \<open>
  \<open>fs/file.c\<close>: the table of open files, reference counts of file objects, and reading and
  writing through them.
\<close>

abbreviation SIZEOF_FILE :: u32 where "SIZEOF_FILE \<equiv> 48"

definition get_file :: "u64 \<Rightarrow> ('d fs_state, vfile) kop" where
  "get_file p = needK (Fault ''file pointer'') (\<lambda>s. files s p)"

definition put_file :: "u64 \<Rightarrow> vfile \<Rightarrow> ('d fs_state, unit) kop" where
  "put_file p x = modK (\<lambda>s. s\<lparr>files := (files s)(p \<mapsto> x)\<rparr>)"

definition fileinit :: "('d fs_state, unit) kop" where
  "fileinit s =
     (let (c, m) = cache_create SIZEOF_FILE (kmem s);
          s = s\<lparr>ftable_head := [], ftable_count := 0, file_cache := c, kmem := m\<rparr>
      in if c = 0 then Inl (Panic ''fileinit: failed to create file cache'') else Inr ((), s))"

definition filealloc :: "('d fs_state, u64) kop" where
  "filealloc s =
     bindR (cache_alloc (file_cache s) (kmem s)) (\<lambda>(f, m).
       if f = 0 then Inr (0, s\<lparr>kmem := m\<rparr>)
       else Inr (f, s\<lparr>kmem := m,
         files := (files s)(f \<mapsto> \<lparr>f_ref = 1, f_flags = 0, f_offset = 0, f_inode = 0, f_ops = None\<rparr>),
         ftable_head := ftable_head s @ [f], ftable_count := ftable_count s + 1\<rparr>))"

text \<open>
  \<open>fileclose\<close>. The release operations are \<open>ext2_file_release\<close>, which does nothing, and the
  null pointer of \<open>uart_ops\<close>.
\<close>

definition fileclose :: "'d blkdev \<Rightarrow> u64 \<Rightarrow> ('d fs_state, unit) kop" where
  "fileclose D p =
     (if p = 0 then retK ()
      else
      bindK (get_file p) (\<lambda>f.
      let f = f\<lparr>f_ref := f_ref f - 1\<rparr> in
      thenK (put_file p f)
     (if 0 < sint (f_ref f) then retK ()
      else
      thenK (if f_inode f \<noteq> 0 then iput D (f_inode f) else retK ())
     (thenK (modK (\<lambda>s. s\<lparr>ftable_head := remove1 p (ftable_head s), ftable_count := ftable_count s - 1,
        files := (files s)(p := None)\<rparr>))
     (\<lambda>s. bindR (cache_free (file_cache s) p (kmem s)) (\<lambda>m. Inr ((), s\<lparr>kmem := m\<rparr>)))))))"

definition filedup :: "u64 \<Rightarrow> ('d fs_state, u64) kop" where
  "filedup p =
     (if p = 0 then retK 0
      else bindK (get_file p) (\<lambda>f. thenK (put_file p (f\<lparr>f_ref := f_ref f + 1\<rparr>)) (retK p)))"

definition filecount :: "('d fs_state, u64) kop" where
  "filecount = getK ftable_count"

definition FILE_READABLE :: "vfile \<Rightarrow> bool" where
  "FILE_READABLE f \<longleftrightarrow> f_flags f AND 3 \<noteq> 1"

definition FILE_WRITABLE :: "vfile \<Rightarrow> bool" where
  "FILE_WRITABLE f \<longleftrightarrow> f_flags f AND 3 \<noteq> 0"

definition fileread :: "'d blkdev \<Rightarrow> 'd uart_regs \<Rightarrow> u64 \<Rightarrow> u64 \<Rightarrow> ('d fs_state, i32 \<times> u8 list) kop" where
  "fileread D U p len =
     (if p = 0 then retK (- 1, [])
      else
      bindK (get_file p) (\<lambda>f.
      if f_inode f = 0 then retK (- 1, [])
      else if \<not> FILE_READABLE f then retK (- 1, [])
      else
      bindK (get_inode (f_inode f)) (\<lambda>ip.
      case i_type ip of
        INODE_FILE \<Rightarrow>
          bindK (readi D U (f_inode f) (f_offset f) len) (\<lambda>(ret, out).
          thenK (if 0 < sint ret then put_file p (f\<lparr>f_offset := f_offset f + ret\<rparr>) else retK ())
         (retK (ret, out)))
      | INODE_DEV \<Rightarrow>
          fops_read D U (case f_ops f of Some ops \<Rightarrow> ops | None \<Rightarrow> uart_ops) (f_inode f) len (f_offset f)
      | _ \<Rightarrow> retK (- 1, []))))"

definition filewrite :: "'d blkdev \<Rightarrow> 'd uart_regs \<Rightarrow> u64 \<Rightarrow> u8 list \<Rightarrow> ('d fs_state, i32) kop" where
  "filewrite D U p src =
     (if p = 0 then retK (- 1)
      else
      bindK (get_file p) (\<lambda>f.
      if f_inode f = 0 then retK (- 1)
      else if \<not> FILE_WRITABLE f then retK (- 1)
      else
      bindK (get_inode (f_inode f)) (\<lambda>ip.
      case i_type ip of
        INODE_FILE \<Rightarrow>
          bindK (writei D U (f_inode f) (f_offset f) src) (\<lambda>ret.
          thenK (if 0 < sint ret then put_file p (f\<lparr>f_offset := f_offset f + ret\<rparr>) else retK ())
         (retK ret))
      | INODE_DEV \<Rightarrow>
          fops_write D U (case f_ops f of Some ops \<Rightarrow> ops | None \<Rightarrow> uart_ops) (f_inode f) src (f_offset f)
      | _ \<Rightarrow> retK (- 1))))"

end
