(* ===== verification/Vm.thy ===== *)
theory Vm
  imports Kmalloc
begin

text \<open>
  \<open>mm/vm.c\<close>: Sv39 page tables, kept in \<open>ram\<close> as the code keeps them: a page table is a
  page of 512 entries of 8 bytes, and the walk goes from level 2 to level 0.
\<close>

section \<open>Page table entries (\<open>include/riscv.h\<close>)\<close>

definition BITS_U8 :: "nat \<Rightarrow> u8" where
  "BITS_U8 n = push_bit n 1"

abbreviation PTE_V :: u64 where "PTE_V \<equiv> 1"
abbreviation PTE_R :: u64 where "PTE_R \<equiv> 2"
abbreviation PTE_W :: u64 where "PTE_W \<equiv> 4"
abbreviation PTE_X :: u64 where "PTE_X \<equiv> 8"
abbreviation PTE_U :: u64 where "PTE_U \<equiv> 16"

lemma PTE_bits: "ucast (BITS_U8 0) = PTE_V" "ucast (BITS_U8 1) = PTE_R" "ucast (BITS_U8 2) = PTE_W"
    "ucast (BITS_U8 3) = PTE_X" "ucast (BITS_U8 4) = PTE_U"
  by (simp_all add: BITS_U8_def)

definition PX :: "nat \<Rightarrow> u64 \<Rightarrow> u64" where
  "PX level va = drop_bit (12 + 9 * level) va AND 0x1FF"

definition PA2PTE :: "u64 \<Rightarrow> u64" where
  "PA2PTE pa = push_bit 10 (drop_bit 12 pa)"

definition PTE2PA :: "u64 \<Rightarrow> u64" where
  "PTE2PA pte = push_bit 12 (drop_bit 10 pte)"

definition MAKESATP :: "u64 \<Rightarrow> u64" where
  "MAKESATP token = push_bit 60 8 OR drop_bit 12 token"

abbreviation KERNBASE :: u64 where "KERNBASE \<equiv> 0x80200000"
abbreviation UART0 :: u64 where "UART0 \<equiv> 0x10000000"
abbreviation VIRTIO_BLK0 :: u64 where "VIRTIO_BLK0 \<equiv> 0x10001000"
abbreviation SIFIVE_TEST_ADDR :: u64 where "SIFIVE_TEST_ADDR \<equiv> 0x100000"

text \<open>The address of entry \<open>i\<close> of the table at \<open>t\<close>.\<close>

definition entry :: "u64 \<Rightarrow> u64 \<Rightarrow> u64" where
  "entry t i = t + 8 * i"

section \<open>Operations\<close>

text \<open>
  \<open>walk\<close>: \<open>level\<close> goes from 2 down to 0; the result is the address of the level-0 entry, 0
  for \<open>nullptr\<close>.
\<close>

fun walk_from :: "nat \<Rightarrow> u64 \<Rightarrow> u64 \<Rightarrow> bool \<Rightarrow> pmem \<Rightarrow> u64 \<times> pmem" where
  "walk_from 0 ptes va alloc s = (entry ptes (PX 0 va), s)"
| "walk_from (Suc l) ptes va alloc s =
     (let pte = entry ptes (PX (Suc l) va) in
      if ld64 (ram s) pte AND PTE_V \<noteq> 0 then walk_from l (PTE2PA (ld64 (ram s) pte)) va alloc s
      else if \<not> alloc then (0, s)
      else
        let (ptes, s) = kalloc s in
        if ptes = 0 then (0, s)
        else walk_from l ptes va alloc (s\<lparr>ram := st64 (ram s) pte (PA2PTE ptes OR PTE_V)\<rparr>))"

definition walk :: "u64 \<Rightarrow> u64 \<Rightarrow> bool \<Rightarrow> pmem \<Rightarrow> u64 \<times> pmem" where
  "walk root va alloc s = walk_from 2 root va alloc s"

text \<open>The \<open>while\<close> loop of \<open>vmmap\<close>; the fuel is the number of pages of the range.\<close>

fun vmmap_loop :: "nat \<Rightarrow> u64 \<Rightarrow> u64 \<Rightarrow> u64 \<Rightarrow> u64 \<Rightarrow> u8 \<Rightarrow> pmem \<Rightarrow> (bool \<times> pmem) res" where
  "vmmap_loop 0 root vaddr vlast paddr perm s = Inl Diverge"
| "vmmap_loop (Suc fuel) root vaddr vlast paddr perm s =
     (let (pte, s) = walk root vaddr True s in
      if pte = 0 then Inr (False, s)
      else if ld64 (ram s) pte AND PTE_V \<noteq> 0 then Inl (Panic ''map: remap'')
      else
        let s = s\<lparr>ram := st64 (ram s) pte (PA2PTE paddr OR ucast perm OR PTE_V)\<rparr> in
        if vaddr = vlast then Inr (True, s)
        else vmmap_loop fuel root (vaddr + PGSIZE) vlast (paddr + PGSIZE) perm s)"

definition vmmap :: "u64 \<Rightarrow> u64 \<Rightarrow> u64 \<Rightarrow> u64 \<Rightarrow> u8 \<Rightarrow> pmem \<Rightarrow> (bool \<times> pmem) res" where
  "vmmap root va sz pa perm s =
     (if unat va mod 4096 \<noteq> 0 \<or> unat sz mod 4096 \<noteq> 0 \<or> sz = 0 then Inl (Panic ''map'')
      else vmmap_loop (unat sz div 4096) root va (va + sz - PGSIZE) pa perm s)"

definition kvmmap :: "u64 \<Rightarrow> u64 \<Rightarrow> u64 \<Rightarrow> u64 \<Rightarrow> u8 \<Rightarrow> pmem \<Rightarrow> pmem res" where
  "kvmmap kroot va pa sz perm s =
     bindR (vmmap kroot va sz pa perm s) (\<lambda>(ok, s). if \<not> ok then Inl (Panic ''kvmmap'') else Inr s)"

text \<open>The linker symbols of the kernel image (\<open>kernel/linker.ld\<close>); \<open>ekernel\<close> is in \<open>pmem\<close>.\<close>

record ksyms =
  stext :: u64
  etext :: u64
  srodata :: u64
  erodata :: u64
  sdata :: u64
  edata :: u64
  sbss :: u64
  ebss :: u64

definition kvmmake :: "ksyms \<Rightarrow> pmem \<Rightarrow> (u64 \<times> pmem) res" where
  "kvmmake k s =
     (let (kroot, s) = kalloc s in
      bindR (kvmmap kroot (stext k) (stext k) (etext k - stext k) (BITS_U8 1 OR BITS_U8 3) s) (\<lambda>s.
      bindR (kvmmap kroot (srodata k) (srodata k) (erodata k - srodata k) (BITS_U8 1) s) (\<lambda>s.
      bindR (kvmmap kroot (sdata k) (sdata k) (edata k - sdata k) (BITS_U8 1 OR BITS_U8 2) s) (\<lambda>s.
      bindR (kvmmap kroot (sbss k) (sbss k) (ebss k - sbss k) (BITS_U8 1 OR BITS_U8 2) s) (\<lambda>s.
      bindR (kvmmap kroot (ekernel s) (ekernel s) (PHYEND - ekernel s) (BITS_U8 1 OR BITS_U8 2) s) (\<lambda>s.
      bindR (kvmmap kroot UART0 UART0 PGSIZE (BITS_U8 1 OR BITS_U8 2) s) (\<lambda>s.
      bindR (kvmmap kroot VIRTIO_BLK0 VIRTIO_BLK0 PGSIZE (BITS_U8 1 OR BITS_U8 2) s) (\<lambda>s.
      bindR (kvmmap kroot SIFIVE_TEST_ADDR SIFIVE_TEST_ADDR PGSIZE (BITS_U8 1 OR BITS_U8 2) s) (\<lambda>s.
      Inr (kroot, s))))))))))"

definition ismapped :: "u64 \<Rightarrow> u64 \<Rightarrow> pmem \<Rightarrow> bool" where
  "ismapped root va s =
     (let (pte, s) = walk root va False s in
      if pte = 0 then False else ld64 (ram s) pte AND PTE_V \<noteq> 0)"

text \<open>
  \<open>freewalk\<close>: the \<open>for\<close> loop over the entries still to do of the table at \<open>root\<close>, with the
  recursive call for a child table. The first argument bounds the depth of the recursion;
  a chain of tables is never longer than the 32768 page frames of the machine, unless it is
  cyclic.
\<close>

fun freewalk_entries :: "nat \<Rightarrow> nat list \<Rightarrow> u64 \<Rightarrow> pmem \<Rightarrow> pmem res" where
  "freewalk_entries d [] root s = Inr s"
| "freewalk_entries d (i # is) root s =
     (let pte = ld64 (ram s) (entry root (of_nat i)) in
      if pte AND PTE_V \<noteq> 0 \<and> pte AND (PTE_R OR PTE_W OR PTE_X) = 0 then
        (case d of
           0 \<Rightarrow> Inl Diverge
         | Suc d' \<Rightarrow>
             (let child = PTE2PA pte in
              bindR (freewalk_entries d' [0..<512] child s) (\<lambda>s.
              bindR (kfree child s) (\<lambda>s.
              freewalk_entries d is root (s\<lparr>ram := st64 (ram s) (entry root (of_nat i)) 0\<rparr>)))))
      else if pte AND PTE_V \<noteq> 0 then Inl (Panic ''freewalk: leaf'')
      else freewalk_entries d is root s)"

definition freewalk :: "u64 \<Rightarrow> pmem \<Rightarrow> pmem res" where
  "freewalk root s = bindR (freewalk_entries 32768 [0..<512] root s) (\<lambda>s. kfree root s)"

fun uvmfreewalk_loop :: "nat list \<Rightarrow> u64 \<Rightarrow> pmem \<Rightarrow> pmem res" where
  "uvmfreewalk_loop [] root s = Inr s"
| "uvmfreewalk_loop (i # is) root s =
     (let pte = ld64 (ram s) (entry root (of_nat i)) in
      if pte AND PTE_V = 0 then uvmfreewalk_loop is root s
      else if PX 2 KERNBASE \<le> of_nat i then
        uvmfreewalk_loop is root (s\<lparr>ram := st64 (ram s) (entry root (of_nat i)) 0\<rparr>)
      else if pte AND (PTE_R OR PTE_W OR PTE_X) = 0 then
        bindR (freewalk (PTE2PA pte) s) (\<lambda>s.
          uvmfreewalk_loop is root (s\<lparr>ram := st64 (ram s) (entry root (of_nat i)) 0\<rparr>))
      else Inl (Panic ''uvmfreewalk: leaf in top-level''))"

definition uvmfreewalk :: "u64 \<Rightarrow> pmem \<Rightarrow> pmem res" where
  "uvmfreewalk root s = bindR (uvmfreewalk_loop [0..<512] root s) (\<lambda>s. kfree root s)"

definition uvmcreate :: "pmem \<Rightarrow> u64 \<times> pmem" where
  "uvmcreate s =
     (let (uroot, s) = kalloc s in if uroot = 0 then (0, s) else (uroot, s))"

fun uvmmapkernel_loop :: "nat list \<Rightarrow> u64 \<Rightarrow> u64 \<Rightarrow> pmem \<Rightarrow> pmem" where
  "uvmmapkernel_loop [] kvmroot uroot s = s"
| "uvmmapkernel_loop (i # is) kvmroot uroot s =
     (let kpte = ld64 (ram s) (entry kvmroot (of_nat i)) in
      uvmmapkernel_loop is kvmroot uroot
        (if kpte AND PTE_V \<noteq> 0 then s\<lparr>ram := st64 (ram s) (entry uroot (of_nat i)) kpte\<rparr> else s))"

definition uvmmapkernel :: "u64 \<Rightarrow> u64 \<Rightarrow> pmem \<Rightarrow> pmem" where
  "uvmmapkernel kvmroot uroot s = uvmmapkernel_loop [0..<512] kvmroot uroot s"

text \<open>The loop of \<open>uvmunmap\<close>; it makes at most \<open>pagenum\<close> iterations, which is the fuel.\<close>

fun uvmunmap_loop :: "nat \<Rightarrow> u64 \<Rightarrow> u64 \<Rightarrow> u64 \<Rightarrow> bool \<Rightarrow> pmem \<Rightarrow> pmem res" where
  "uvmunmap_loop fuel root vaddr vend free s =
     (if vaddr < vend
      then (case fuel of
          0 \<Rightarrow> Inl Diverge
        | Suc fuel' \<Rightarrow>
            (let (pte, s) = walk root vaddr False s in
             if pte = 0 \<or> ld64 (ram s) pte AND PTE_V = 0 then
               uvmunmap_loop fuel' root (vaddr + PGSIZE) vend free s
             else
               bindR (if free then kfree (PTE2PA (ld64 (ram s) pte)) s else Inr s) (\<lambda>s.
                 uvmunmap_loop fuel' root (vaddr + PGSIZE) vend free (s\<lparr>ram := st64 (ram s) pte 0\<rparr>))))
      else Inr s)"

declare uvmunmap_loop.simps [simp del]

definition uvmunmap :: "u64 \<Rightarrow> u64 \<Rightarrow> u64 \<Rightarrow> bool \<Rightarrow> pmem \<Rightarrow> pmem res" where
  "uvmunmap root va pagenum free s =
     (if unat va mod 4096 \<noteq> 0 then Inl (Panic ''uvmunmap: not aligned'')
      else uvmunmap_loop (unat pagenum) root va (va + pagenum * PGSIZE) free s)"

definition uvmdealloc :: "u64 \<Rightarrow> u64 \<Rightarrow> u64 \<Rightarrow> pmem \<Rightarrow> (u64 \<times> pmem) res" where
  "uvmdealloc root oldsz newsz s =
     (if oldsz \<le> newsz then Inr (oldsz, s)
      else
        bindR
          (if PGROUNDUP newsz < PGROUNDUP oldsz then
             (let pagenum = (ucast ((PGROUNDUP oldsz - PGROUNDUP newsz) div PGSIZE) :: i32)
              in uvmunmap root (PGROUNDUP newsz) (scast pagenum) True s)
           else Inr s)
          (\<lambda>s. Inr (newsz, s)))"

text \<open>The loop of \<open>uvmalloc\<close>; its fuel is the number of pages between the two sizes.\<close>

fun uvmalloc_loop :: "nat \<Rightarrow> u64 \<Rightarrow> u64 \<Rightarrow> u64 \<Rightarrow> u64 \<Rightarrow> u8 \<Rightarrow> pmem \<Rightarrow> (u64 \<times> pmem) res" where
  "uvmalloc_loop fuel root oldsz sz newsz perm s =
     (if sz < newsz
      then (case fuel of
          0 \<Rightarrow> Inl Diverge
        | Suc fuel' \<Rightarrow>
            (let (m, s) = kalloc s in
             if m = 0 then bindR (uvmdealloc root sz oldsz s) (\<lambda>(_, s). Inr (0, s))
             else
               bindR (vmmap root sz PGSIZE m (BITS_U8 1 OR BITS_U8 0 OR perm) s) (\<lambda>(ok, s).
                 if \<not> ok then
                   bindR (kfree m s) (\<lambda>s.
                   bindR (uvmdealloc root sz oldsz s) (\<lambda>(_, s). Inr (0, s)))
                 else uvmalloc_loop fuel' root oldsz (sz + PGSIZE) newsz perm s)))
      else Inr (newsz, s))"

declare uvmalloc_loop.simps [simp del]

definition uvmalloc :: "u64 \<Rightarrow> u64 \<Rightarrow> u64 \<Rightarrow> u8 \<Rightarrow> pmem \<Rightarrow> (u64 \<times> pmem) res" where
  "uvmalloc root oldsz newsz perm s =
     (if newsz < oldsz then Inr (oldsz, s)
      else
        let oldsz = PGROUNDUP oldsz in
        uvmalloc_loop (Suc (unat (newsz - oldsz) div 4096)) root oldsz oldsz newsz perm s)"

definition uvmfree :: "u64 \<Rightarrow> u64 \<Rightarrow> u64 \<Rightarrow> u64 \<Rightarrow> pmem \<Rightarrow> pmem res" where
  "uvmfree root sz stack_bottom stack_top s =
     bindR (if 0 < sz then uvmunmap root 0 (PGROUNDUP sz div PGSIZE) True s else Inr s) (\<lambda>s.
     bindR
       (if stack_bottom < stack_top
        then uvmunmap root stack_bottom ((stack_top - stack_bottom) div PGSIZE) True s
        else Inr s) (\<lambda>s.
     uvmfreewalk root s))"

text \<open>
  \<open>copyout\<close>: \<open>src\<close> is a kernel address. Every iteration but the first and the last copies
  a whole page, so \<open>len div 4096 + 2\<close> iterations are enough.
\<close>

definition ALIGNDOWN :: "u64 \<Rightarrow> u64 \<Rightarrow> u64" where
  "ALIGNDOWN sz align = sz AND NOT (align - 1)"

fun copyout_loop :: "nat \<Rightarrow> u64 \<Rightarrow> u64 \<Rightarrow> u64 \<Rightarrow> u64 \<Rightarrow> pmem \<Rightarrow> (bool \<times> pmem) res" where
  "copyout_loop fuel pagetable dstva src len s =
     (if 0 < len
      then (case fuel of
          0 \<Rightarrow> Inl Diverge
        | Suc fuel' \<Rightarrow>
            (let va = ALIGNDOWN dstva PGSIZE;
                 (pte, s) = walk pagetable va False s in
             if pte = 0 \<or> ld64 (ram s) pte AND PTE_V = 0 \<or> ld64 (ram s) pte AND PTE_U = 0 then Inr (False, s)
             else
               let pa = PTE2PA (ld64 (ram s) pte);
                   offset = dstva - va;
                   n = PGSIZE - offset;
                   n = (if len < n then len else n);
                   s = s\<lparr>ram := memcpy (ram s) (pa + offset) src n\<rparr>
               in copyout_loop fuel' pagetable (dstva + n) (src + n) (len - n) s))
      else Inr (True, s))"

declare copyout_loop.simps [simp del]

definition copyout :: "u64 \<Rightarrow> u64 \<Rightarrow> u64 \<Rightarrow> u64 \<Rightarrow> pmem \<Rightarrow> (bool \<times> pmem) res" where
  "copyout pagetable dstva src len s =
     copyout_loop (unat len div 4096 + 2) pagetable dstva src len s"

end
