(* ===== verification/Proc.thy ===== *)
theory Proc
  imports VFile Vm
begin

text \<open>
  \<open>kernel/task/proc.c\<close> and \<open>kernel/task/scheduler.c\<close>: process identifiers, process objects
  and the ready list.
\<close>

section \<open>Process identifiers\<close>

abbreviation MAXPID :: i32 where "MAXPID \<equiv> 32768"
abbreviation RESERVEDPID :: i32 where "RESERVEDPID \<equiv> 300"

definition setpid :: "i32 \<Rightarrow> u8 list \<Rightarrow> u8 list" where
  "setpid pid bm = bm[unat pid div 8 := bm ! (unat pid div 8) OR push_bit (unat pid mod 8) 1]"

definition freepid :: "i32 \<Rightarrow> u8 list \<Rightarrow> u8 list" where
  "freepid pid bm = bm[unat pid div 8 := bm ! (unat pid div 8) AND NOT (push_bit (unat pid mod 8) 1)]"

definition checkpid :: "i32 \<Rightarrow> u8 list \<Rightarrow> bool" where
  "checkpid pid bm \<longleftrightarrow> bm ! (unat pid div 8) AND push_bit (unat pid mod 8) 1 \<noteq> 0"

text \<open>\<open>k\<close> iterations of the loop of \<open>allocpid\<close> remain; the state is the bitmap and \<open>last_pid\<close>.\<close>

fun allocpid_loop :: "nat \<Rightarrow> i32 \<Rightarrow> u8 list \<times> i32 \<Rightarrow> i32 \<times> u8 list \<times> i32" where
  "allocpid_loop 0 pid s = (- 1, s)"
| "allocpid_loop (Suc k) pid (bm, last_pid) =
     (let pid = pid + 1;
          pid = (if sint MAXPID \<le> sint pid then RESERVEDPID else pid)
      in if \<not> checkpid pid bm then (pid, setpid pid bm, pid)
         else allocpid_loop k pid (bm, last_pid))"

definition allocpid :: "u8 list \<times> i32 \<Rightarrow> i32 \<times> u8 list \<times> i32" where
  "allocpid s = allocpid_loop 32768 (snd s) s"

section \<open>State\<close>

datatype procstate = SLEEPING | RUNNABLE | RUNNING | ZOMBIE

record trapframe =
  tf_ra :: u64
  tf_sp :: u64
  tf_gp :: u64
  tf_tp :: u64
  tf_t0 :: u64
  tf_t1 :: u64
  tf_t2 :: u64
  tf_s0 :: u64
  tf_s1 :: u64
  tf_a0 :: u64
  tf_a1 :: u64
  tf_a2 :: u64
  tf_a3 :: u64
  tf_a4 :: u64
  tf_a5 :: u64
  tf_a6 :: u64
  tf_a7 :: u64
  tf_s2_11 :: "u64 list"
  tf_t3_6 :: "u64 list"
  tf_sstatus :: u64
  tf_sepc :: u64
  tf_scause :: u64
  tf_stval :: u64

record ctxt =
  ctx_ra :: u64
  ctx_sp :: u64
  ctx_s :: "u64 list"

record proc =
  p_state :: procstate
  p_pid :: u64
  p_root :: u64
  p_sz :: u64
  p_brk :: u64
  p_stack_bottom :: u64
  p_stack_top :: u64
  p_kstack :: u64
  p_trapframe :: u64
  p_context :: ctxt
  p_parent :: u64
  p_fdtable :: "u64 list"
  p_prev :: u64
  p_next :: u64
  p_name :: "u8 list"

record cpu =
  c_proc :: u64
  c_context :: ctxt

text \<open>The control and status registers the kernel uses, and the thread pointer.\<close>

record csrs =
  r_sepc :: u64
  r_sstatus :: u64
  r_scause :: u64
  r_stval :: u64
  r_sscratch :: u64
  r_satp :: u64
  r_stvec :: u64
  r_tp :: u64

text \<open>
  The state of the kernel: the file system state with the allocator, the process objects and
  trapframes under their addresses, the globals of \<open>proc.c\<close>, \<open>kvmroot\<close> and the registers of
  the hart. \<open>old_procs\<close> is what the memory of the objects that are not in use holds: a new
  process starts with it.
\<close>

record 'd kstate =
  kfs :: "'d fs_state"
  procs :: "u64 \<Rightarrow> proc option"
  old_procs :: "u64 \<Rightarrow> proc"
  tfs :: "u64 \<Rightarrow> trapframe option"
  proc_cache :: u64
  ready_list_head :: u64
  ready_list_tail :: u64
  cpus :: "cpu list"
  pid_bitmap :: "u8 list"
  last_pid :: i32
  kvmroot :: u64
  forkret_init :: bool
  csr :: csrs

text \<open>File system and allocator operations inside the kernel state.\<close>

definition fsK :: "('d fs_state, 'a) kop \<Rightarrow> ('d kstate, 'a) kop" where
  "fsK m s = bindR (m (kfs s)) (\<lambda>(x, f). Inr (x, s\<lparr>kfs := f\<rparr>))"

definition memK :: "(pmem \<Rightarrow> ('a \<times> pmem) res) \<Rightarrow> ('d kstate, 'a) kop" where
  "memK m s = bindR (m (kmem (kfs s))) (\<lambda>(x, k). Inr (x, s\<lparr>kfs := (kfs s)\<lparr>kmem := k\<rparr>\<rparr>))"

definition memU :: "(pmem \<Rightarrow> pmem res) \<Rightarrow> ('d kstate, unit) kop" where
  "memU m = memK (\<lambda>k. bindR (m k) (\<lambda>k. Inr ((), k)))"

definition get_proc :: "u64 \<Rightarrow> ('d kstate, proc) kop" where
  "get_proc p = needK (Fault ''proc pointer'') (\<lambda>s. procs s p)"

definition put_proc :: "u64 \<Rightarrow> proc \<Rightarrow> ('d kstate, unit) kop" where
  "put_proc p x = modK (\<lambda>s. s\<lparr>procs := (procs s)(p \<mapsto> x)\<rparr>)"

definition get_tf :: "u64 \<Rightarrow> ('d kstate, trapframe) kop" where
  "get_tf p = needK (Fault ''trapframe pointer'') (\<lambda>s. tfs s p)"

definition put_tf :: "u64 \<Rightarrow> trapframe \<Rightarrow> ('d kstate, unit) kop" where
  "put_tf p x = modK (\<lambda>s. s\<lparr>tfs := (tfs s)(p \<mapsto> x)\<rparr>)"

section \<open>Processes\<close>

abbreviation SIZEOF_PROC :: u32 where "SIZEOF_PROC \<equiv> 352"
abbreviation SIZEOF_TRAPFRAME :: u64 where "SIZEOF_TRAPFRAME \<equiv> 280"

definition procinit :: "('d kstate, unit) kop" where
  "procinit =
     bindK (memK (\<lambda>k. Inr (cache_create SIZEOF_PROC k))) (\<lambda>c. modK (\<lambda>s. s\<lparr>proc_cache := c\<rparr>))"

definition mapproc :: "('d kstate, u64) kop" where
  "mapproc =
     bindK (memK (\<lambda>k. Inr (uvmcreate k))) (\<lambda>root.
     if root = 0 then retK 0
     else
     bindK (getK kvmroot) (\<lambda>kroot.
     thenK (memU (\<lambda>k. Inr (uvmmapkernel kroot root k))) (retK root)))"

text \<open>
  \<open>freeproc\<close>. A process without a page table makes \<open>uvmfree\<close> read through a null pointer, and an
  identifier outside the bitmap, such as the - 1 of a failed \<open>allocpid\<close>, makes \<open>freepid\<close> shift by a
  negative amount or write outside it.
\<close>

definition freeproc :: "u64 \<Rightarrow> ('d kstate, unit) kop" where
  "freeproc p =
     (if p = 0 then retK ()
      else
      bindK (get_proc p) (\<lambda>x.
      assertK (p_root x \<noteq> 0) (Fault ''freeproc: null page table'')
      (thenK (memU (uvmfree (p_root x) (p_sz x) (p_stack_bottom x) (p_stack_top x)))
      (thenK (if p_kstack x \<noteq> 0 then memU (kfree (p_kstack x)) else retK ())
      (thenK
         (if ucast RESERVEDPID < p_pid x
          then assertK (unat (ucast (p_pid x) :: i32) < unat MAXPID) (Fault ''freepid'')
            (modK (\<lambda>s. s\<lparr>pid_bitmap := freepid (ucast (p_pid x)) (pid_bitmap s)\<rparr>))
          else retK ())
      (bindK (getK proc_cache) (\<lambda>c.
       thenK (modK (\<lambda>s. s\<lparr>procs := (procs s)(p := None), tfs := (tfs s)(p_trapframe x := None),
         old_procs := (old_procs s)(p := x\<lparr>p_root := 0, p_stack_bottom := 0, p_stack_top := 0, p_kstack := 0,
           p_pid := (if ucast RESERVEDPID < p_pid x then 0 else p_pid x), p_state := SLEEPING, p_sz := 0,
           p_trapframe := 0, p_parent := 0, p_name := (p_name x)[0 := 0]\<rparr>)\<rparr>))
      (memU (cache_free c p)))))))))"

definition zero_ctxt :: ctxt where
  "zero_ctxt = \<lparr>ctx_ra = 0, ctx_sp = 0, ctx_s = replicate 12 0\<rparr>"

definition zero_tf :: trapframe where
  "zero_tf = \<lparr>tf_ra = 0, tf_sp = 0, tf_gp = 0, tf_tp = 0, tf_t0 = 0, tf_t1 = 0, tf_t2 = 0, tf_s0 = 0,
     tf_s1 = 0, tf_a0 = 0, tf_a1 = 0, tf_a2 = 0, tf_a3 = 0, tf_a4 = 0, tf_a5 = 0, tf_a6 = 0, tf_a7 = 0,
     tf_s2_11 = replicate 10 0, tf_t3_6 = replicate 4 0, tf_sstatus = 0, tf_sepc = 0, tf_scause = 0,
     tf_stval = 0\<rparr>"

text \<open>
  \<open>allocproc\<close>. The fields the code does not set keep what the memory of the object holds.
  \<open>forkret\<close> is the address of the function of that name.
\<close>

definition allocproc :: "u64 \<Rightarrow> ('d kstate, u64) kop" where
  "allocproc forkret =
     bindK (getK proc_cache) (\<lambda>c.
     bindK (memK (cache_alloc c)) (\<lambda>p.
     if p = 0 then retK 0
     else
     bindK (\<lambda>s. (let (pid, bm, l) = allocpid (pid_bitmap s, last_pid s)
                in Inr (pid, s\<lparr>pid_bitmap := bm, last_pid := l\<rparr>))) (\<lambda>pid.
     bindK (getK old_procs) (\<lambda>old.
     let x = (old p)\<lparr>p_pid := scast pid, p_state := SLEEPING, p_sz := 0, p_brk := 0, p_stack_bottom := 0, p_stack_top := 0\<rparr> in
     bindK (memK (\<lambda>k. Inr (kalloc k))) (\<lambda>kstack.
     thenK (put_proc p (x\<lparr>p_kstack := kstack\<rparr>))
    (if kstack = 0 then thenK (freeproc p) (retK 0)
     else
     let tf = kstack + PGSIZE - SIZEOF_TRAPFRAME; x = x\<lparr>p_kstack := kstack, p_trapframe := tf\<rparr> in
     thenK (put_proc p x)
    (thenK (put_tf tf zero_tf)
    (bindK mapproc (\<lambda>root.
     let x = x\<lparr>p_root := root\<rparr> in
     thenK (put_proc p x)
    (if root = 0 then thenK (freeproc p) (retK 0)
     else
     thenK (put_proc p (x\<lparr>p_context := zero_ctxt\<lparr>ctx_sp := kstack + PGSIZE, ctx_ra := forkret\<rparr>\<rparr>))
    (retK p)))))))))))"

definition cpuid :: "('d kstate, i32) kop" where
  "cpuid = getK (\<lambda>s. ucast (r_tp (csr s)))"

definition curcpu :: "('d kstate, nat) kop" where
  "curcpu = bindK cpuid (\<lambda>id. retK (unat id))"

definition curproc :: "('d kstate, u64) kop" where
  "curproc =
     bindK curcpu (\<lambda>c.
     needK (Fault ''cpus index'') (\<lambda>s. if c < length (cpus s) then Some (c_proc (cpus s ! c)) else None))"

section \<open>The scheduler\<close>

abbreviation SSTATUS_SIE :: u64 where "SSTATUS_SIE \<equiv> 2"

definition intr_on :: "('d kstate, unit) kop" where
  "intr_on = modK (\<lambda>s. s\<lparr>csr := (csr s)\<lparr>r_sstatus := r_sstatus (csr s) OR SSTATUS_SIE\<rparr>\<rparr>)"

definition intr_off :: "('d kstate, unit) kop" where
  "intr_off = modK (\<lambda>s. s\<lparr>csr := (csr s)\<lparr>r_sstatus := r_sstatus (csr s) AND NOT SSTATUS_SIE\<rparr>\<rparr>)"

text \<open>
  One iteration of the scheduler loop up to \<open>swtch\<close> or \<open>wfi\<close>: the process to switch to, 0
  when the hart idles. \<open>swtch\<close> is assembly; when it returns, \<open>sched_back\<close> runs.
\<close>

definition sched_pick :: "'d blkdev \<Rightarrow> ('d kstate, u64) kop" where
  "sched_pick D =
     bindK curcpu (\<lambda>c.
     thenK intr_off
    (bindK (getK ready_list_head) (\<lambda>p.
     if p \<noteq> 0 then
       thenK (fsK (bsync D))
      (bindK (get_proc p) (\<lambda>x.
       thenK (modK (\<lambda>s. s\<lparr>ready_list_head := p_next x\<rparr>))
      (thenK
         (if p_next x \<noteq> 0
          then bindK (get_proc (p_next x)) (\<lambda>y. put_proc (p_next x) (y\<lparr>p_prev := 0\<rparr>))
          else modK (\<lambda>s. s\<lparr>ready_list_tail := 0\<rparr>))
      (bindK (get_proc p) (\<lambda>x.
       thenK (put_proc p (x\<lparr>p_state := RUNNING\<rparr>))
      (thenK (modK (\<lambda>s. s\<lparr>cpus := (cpus s)[c := (cpus s ! c)\<lparr>c_proc := p\<rparr>]\<rparr>))
      (retK p)))))))
     else
       thenK (fsK (bsync D)) (thenK intr_on (retK 0)))))"

definition sched_back :: "('d kstate, unit) kop" where
  "sched_back =
     bindK curcpu (\<lambda>c. modK (\<lambda>s. s\<lparr>cpus := (cpus s)[c := (cpus s ! c)\<lparr>c_proc := 0\<rparr>]\<rparr>))"

section \<open>The identifiers in use\<close>

definition pid_ok :: "i32 \<Rightarrow> bool" where
  "pid_ok pid \<longleftrightarrow> unat pid < 32768"

text \<open>The set of process identifiers marked in the bitmap: the abstract state.\<close>

definition used :: "u8 list \<Rightarrow> i32 set" where
  "used bm = {pid. pid_ok pid \<and> checkpid pid bm}"

lemma and_bit_iff: "w AND push_bit n 1 \<noteq> 0 \<longleftrightarrow> bit w n" for w :: "'a::len word"
proof -
  have "w AND push_bit n 1 = (if bit w n then push_bit n 1 else 0)"
    by (rule bit_word_eqI) (auto simp: bit_simps bit_1_iff)
  moreover have "bit w n \<Longrightarrow> push_bit n (1 :: 'a word) \<noteq> 0"
    using bit_imp_le_length [of w n] bit_push_bit_iff [of n "1 :: 'a word" n] by (auto simp: bit_1_iff possible_bit_def)
  ultimately show ?thesis
    by simp
qed

lemma checkpid_bit: "checkpid pid bm \<longleftrightarrow> bit (bm ! (unat pid div 8)) (unat pid mod 8)"
  unfolding checkpid_def by (rule and_bit_iff)

lemma pid_split: "unat p div 8 = unat q div 8 \<Longrightarrow> unat p mod 8 = unat q mod 8 \<Longrightarrow> p = q" for p q :: i32
  by (metis div_mult_mod_eq word_eq_unatI)

lemma pid_index: "length bm = 4096 \<Longrightarrow> pid_ok pid \<Longrightarrow> unat pid div 8 < length bm"
  by (simp add: pid_ok_def less_mult_imp_div_less)

lemma pid_bit: "unat p div 8 = unat q div 8 \<and> unat q mod 8 = unat p mod 8 \<longleftrightarrow> q = p" for p q :: i32
  using pid_split by metis

lemma bit_push1: "bit (2 ^ k :: u8) n \<longleftrightarrow> n = k \<and> k < 8"
  by (auto simp: bit_exp_iff possible_bit_def)

lemma checkpid_setpid:
  assumes "length bm = 4096" and "pid_ok p"
  shows "checkpid q (setpid p bm) \<longleftrightarrow> q = p \<or> checkpid q bm"
proof -
  have "setpid p bm ! (unat q div 8) =
      (if unat p div 8 = unat q div 8 then bm ! (unat q div 8) OR push_bit (unat p mod 8) 1 else bm ! (unat q div 8))"
    using pid_index [OF assms] by (simp add: setpid_def)
  then show ?thesis
    using pid_bit [of p q] unfolding checkpid_bit
    by (cases "unat p div 8 = unat q div 8") (simp_all add: bit_or_iff bit_push1 disj_commute)
qed

lemma checkpid_freepid:
  assumes "length bm = 4096" and "pid_ok p"
  shows "checkpid q (freepid p bm) \<longleftrightarrow> q \<noteq> p \<and> checkpid q bm"
proof -
  have "freepid p bm ! (unat q div 8) =
      (if unat p div 8 = unat q div 8 then bm ! (unat q div 8) AND NOT (push_bit (unat p mod 8) 1) else bm ! (unat q div 8))"
    using pid_index [OF assms] by (simp add: freepid_def)
  then show ?thesis
    using pid_bit [of p q] unfolding checkpid_bit
    by (cases "unat p div 8 = unat q div 8")
      (simp_all add: bit_and_iff bit_not_iff bit_push1 possible_bit_def conj_commute)
qed

lemma used_setpid: "length bm = 4096 \<Longrightarrow> pid_ok p \<Longrightarrow> used (setpid p bm) = insert p (used bm)"
  by (auto simp: used_def checkpid_setpid)

lemma used_freepid: "length bm = 4096 \<Longrightarrow> pid_ok p \<Longrightarrow> used (freepid p bm) = used bm - {p}"
  by (auto simp: used_def checkpid_freepid)

text \<open>The identifier the loop tries after \<open>p\<close>.\<close>

definition next_pid :: "nat \<Rightarrow> nat" where
  "next_pid p = (if 32767 \<le> p then 300 else Suc p)"

lemma next_pid_iter:
  "p < 32768 \<Longrightarrow> j \<le> 32767 - p \<Longrightarrow> (next_pid ^^ j) p = p + j"
  by (induction j) (auto simp: next_pid_def)

lemma next_pid_wrap: "p < 32768 \<Longrightarrow> (next_pid ^^ (32768 - p)) p = 300"
proof -
  assume "p < 32768"
  then have "(next_pid ^^ Suc (32767 - p)) p = 300" "Suc (32767 - p) = 32768 - p"
    using next_pid_iter [of p "32767 - p"] by (simp_all add: next_pid_def)
  then show ?thesis
    by metis
qed

lemma next_pid_reaches:
  assumes "p < 32768" and "300 \<le> q" and "q < 32768"
  shows "\<exists>j < 32768. (next_pid ^^ Suc j) p = q"
proof (cases "p < q")
  case True
  then have "Suc (q - p - 1) = q - p"
    by simp
  then have "(next_pid ^^ Suc (q - p - 1)) p = q"
    using next_pid_iter [OF assms(1), of "q - p"] assms(3) True by (simp only:)
  then show ?thesis
    using assms(3) by (intro exI [of _ "q - p - 1"]) simp
next
  case False
  have "(next_pid ^^ (q - 300 + (32768 - p))) p = (next_pid ^^ (q - 300)) 300"
    using next_pid_wrap [OF assms(1)] by (simp add: funpow_add)
  also have "\<dots> = q"
    using next_pid_iter [of 300 "q - 300"] assms by simp
  finally have "(next_pid ^^ (q - 300 + (32768 - p))) p = q" .
  moreover have "q - 300 + (32768 - p) = Suc (q - 300 + (32767 - p))"
    using assms(1) by simp
  ultimately have "(next_pid ^^ Suc (q - 300 + (32767 - p))) p = q"
    by metis
  then show ?thesis
    using False assms by (intro exI [of _ "q - 300 + (32767 - p)"]) simp
qed

lemma sint_small: "unat pid < 2147483648 \<Longrightarrow> sint (pid :: i32) = int (unat pid)"
proof -
  assume h: "unat pid < 2147483648"
  then have "int (unat pid) < 2147483648"
    by linarith
  then have u: "uint pid < 2147483648"
    by simp
  moreover have "- 2147483648 \<le> uint pid"
    using uint_ge_0 [of pid] by linarith
  ultimately have "signed_take_bit 31 (uint pid) = uint pid"
    by (intro signed_take_bit_int_eq_self) simp_all
  then show ?thesis
    by (simp add: sint_uint)
qed

lemma allocpid_step:
  assumes "pid_ok pid"
  shows "(if sint MAXPID \<le> sint (pid + 1) then RESERVEDPID else pid + 1) = of_nat (next_pid (unat pid))"
proof -
  have lt: "unat pid < 32768"
    using assms by (simp add: pid_ok_def)
  then have "unat (pid + 1) = Suc (unat pid)"
    by (subst unat_word_ariths) simp
  then have s: "sint (pid + 1) = int (Suc (unat pid))"
    using lt sint_small [of "pid + 1"] by linarith
  have m: "sint MAXPID = 32768"
    by simp
  have e: "of_nat (Suc (unat pid)) = pid + 1"
    by simp
  show ?thesis
  proof (cases "32767 \<le> unat pid")
    case True
    then have "32768 \<le> int (Suc (unat pid))"
      by linarith
    then show ?thesis
      unfolding s m next_pid_def using True by (simp only: if_True of_nat_numeral)
  next
    case False
    then have "\<not> 32768 \<le> int (Suc (unat pid))"
      by linarith
    then show ?thesis
      unfolding s m next_pid_def using False e by (simp only: if_False)
  qed
qed

lemma allocpid_loop_result:
  assumes "allocpid_loop k pid (bm, l) = (r, bm', l')" and "pid_ok pid"
  shows "(r = - 1 \<and> bm' = bm \<and> l' = l \<and> (\<forall>j < k. checkpid (of_nat ((next_pid ^^ Suc j) (unat pid))) bm)) \<or>
    (pid_ok r \<and> \<not> checkpid r bm \<and> bm' = setpid r bm \<and> l' = r)"
  using assms
proof (induction k arbitrary: pid)
  case 0
  then show ?case
    by simp
next
  case (Suc k)
  let ?n = "of_nat (next_pid (unat pid)) :: i32"
  have "next_pid (unat pid) < 32768"
    using Suc.prems(2) by (auto simp: next_pid_def pid_ok_def)
  then have n: "pid_ok ?n" "unat ?n = next_pid (unat pid)"
    by (simp_all add: pid_ok_def)
  show ?case
  proof (cases "checkpid ?n bm")
    case True
    then have "allocpid_loop k ?n (bm, l) = (r, bm', l')"
      using Suc.prems(1) unfolding allocpid_loop.simps allocpid_step [OF Suc.prems(2)] Let_def by simp
    from Suc.IH [OF this n(1)] True show ?thesis
      by (auto simp: n(2) less_Suc_eq_0_disj funpow_swap1)
  next
    case False
    then show ?thesis
      using Suc.prems(1) n unfolding allocpid_loop.simps allocpid_step [OF Suc.prems(2)] Let_def by auto
  qed
qed

text \<open>
  C28: \<open>allocpid\<close> either returns an identifier that was not in use and marks exactly that one,
  or returns -1 and changes nothing; it gives up only when every identifier from \<open>RESERVEDPID\<close>
  on is in use.
\<close>

theorem allocpid_correct:
  assumes "length bm = 4096" and "pid_ok l" and "allocpid (bm, l) = (pid, bm', l')"
  shows "(pid \<noteq> - 1 \<and> pid_ok pid \<and> pid \<notin> used bm \<and> used bm' = insert pid (used bm) \<and> l' = pid) \<or>
    (pid = - 1 \<and> bm' = bm \<and> l' = l \<and> (\<forall>q. 300 \<le> unat q \<and> unat q < 32768 \<longrightarrow> q \<in> used bm))"
proof -
  have "allocpid_loop 32768 l (bm, l) = (pid, bm', l')"
    using assms(3) by (simp add: allocpid_def)
  from allocpid_loop_result [OF this assms(2)] show ?thesis
  proof
    assume h: "pid = - 1 \<and> bm' = bm \<and> l' = l \<and> (\<forall>j < 32768. checkpid (of_nat ((next_pid ^^ Suc j) (unat l))) bm)"
    have "q \<in> used bm" if "300 \<le> unat q \<and> unat q < 32768" for q
      using next_pid_reaches [of "unat l" "unat q"] that assms(2) h
      by (auto simp: used_def pid_ok_def simp del: funpow.simps)
    with h show ?thesis
      by blast
  next
    assume h: "pid_ok pid \<and> \<not> checkpid pid bm \<and> bm' = setpid pid bm \<and> l' = pid"
    then have "pid \<noteq> - 1"
      by (auto simp: pid_ok_def unsigned_minus_1_eq_mask mask_eq_exp_minus_1)
    then show ?thesis
      using h used_setpid [OF assms(1)] by (auto simp: used_def)
  qed
qed

lemma allocpid_first: "allocpid (replicate 4096 0, 0) = (1, setpid 1 (replicate 4096 0), 1)"
proof -
  have "\<not> checkpid 1 (replicate 4096 0)"
    by (simp add: checkpid_def)
  then show ?thesis
    using allocpid_loop.simps(2) [of 32767 0 "replicate 4096 0" 0] by (simp add: allocpid_def)
qed

lemma allocpid_correct_witness:
  "\<exists>pid bm' l'. allocpid (replicate 4096 0, 0) = (pid, bm', l') \<and> pid = 1 \<and>
    used bm' = insert 1 (used (replicate 4096 0)) \<and> 1 \<notin> used (replicate 4096 0)"
proof -
  have "pid_ok 0"
    by (simp add: pid_ok_def)
  then show ?thesis
    using allocpid_correct [OF _ _ allocpid_first] allocpid_first by auto
qed

text \<open>C29: freeing an identifier undoes its allocation: the identifiers in use are then the same
  as before, and freeing one never touches another.\<close>

theorem pid_roundtrip:
  assumes "length bm = 4096" and "pid_ok l" and "allocpid (bm, l) = (pid, bm', l')" and "pid \<noteq> - 1"
  shows "used (freepid pid bm') = used bm \<and>
    (\<forall>q. pid_ok q \<longrightarrow> used (freepid q bm') = insert pid (used bm) - {q})"
proof -
  have "allocpid_loop 32768 l (bm, l) = (pid, bm', l')"
    using assms(3) by (simp add: allocpid_def)
  from allocpid_loop_result [OF this assms(2)] assms(4)
  have r: "pid_ok pid" "pid \<notin> used bm" "bm' = setpid pid bm"
    by (auto simp: used_def)
  have "length bm' = 4096"
    using assms(1) r(3) by (simp add: setpid_def)
  then show ?thesis
    using r used_setpid [OF assms(1) r(1)] by (auto simp: used_freepid)
qed

lemma pid_roundtrip_witness: "used (freepid 1 (setpid 1 (replicate 4096 0))) = used (replicate 4096 0)"
  using pid_roundtrip [OF _ _ allocpid_first] by (simp add: pid_ok_def)


end
