(* ===== verification/Syscall.thy ===== *)
theory Syscall
  imports Proc
begin

text \<open>
  \<open>kernel/syscall/syscall.c\<close> and \<open>kernel/syscall/filecall.c\<close>: argument fetching, the
  dispatch table and the file system calls. A user buffer is accessed by the processor
  through the page table in force; that access is the parameter \<open>M\<close>.
\<close>

record 'd ummu =
  uload :: "u64 \<Rightarrow> u64 \<Rightarrow> 'd kstate \<Rightarrow> (u8 list \<times> 'd kstate) res"
  ustore :: "u64 \<Rightarrow> u8 list \<Rightarrow> ('d kstate, unit) kop"

definition argraw :: "i32 \<Rightarrow> ('d kstate, i64) kop" where
  "argraw no =
     bindK curproc (\<lambda>p.
     bindK (get_proc p) (\<lambda>x.
     bindK (get_tf (p_trapframe x)) (\<lambda>tf.
     retK (if no = 0 then tf_a0 tf
           else if no = 1 then tf_a1 tf
           else if no = 2 then tf_a2 tf
           else if no = 3 then tf_a3 tf
           else if no = 4 then tf_a4 tf
           else if no = 5 then tf_a5 tf
           else - 1))))"

definition argint :: "i32 \<Rightarrow> ('d kstate, i32) kop" where
  "argint n = bindK (argraw n) (\<lambda>v. retK (ucast v))"

definition argaddr :: "i32 \<Rightarrow> ('d kstate, u64) kop" where
  "argaddr n = argraw n"

abbreviation NOFILE :: i32 where "NOFILE \<equiv> 16"

definition argfd :: "i32 \<Rightarrow> ('d kstate, (i32 \<times> u64) option) kop" where
  "argfd n =
     bindK (argint n) (\<lambda>fd.
     if sint fd < 0 \<or> sint NOFILE \<le> sint fd then retK None
     else
     bindK curproc (\<lambda>p.
     bindK (get_proc p) (\<lambda>x.
     let f = p_fdtable x ! unat fd in
     if f = 0 then retK None else retK (Some (fd, f)))))"

definition sys_read :: "'d blkdev \<Rightarrow> 'd uart_regs \<Rightarrow> 'd ummu \<Rightarrow> ('d kstate, i64) kop" where
  "sys_read D U M =
     bindK (argaddr 1) (\<lambda>p.
     bindK (argint 2) (\<lambda>n.
     bindK (argfd 0) (\<lambda>r.
     case r of
       None \<Rightarrow> retK (- 1)
     | Some (_, f) \<Rightarrow>
         bindK (fsK (fileread D U f (scast n))) (\<lambda>(ret, out).
         thenK (ustore M p out) (retK (scast ret))))))"

definition sys_write :: "'d blkdev \<Rightarrow> 'd uart_regs \<Rightarrow> 'd ummu \<Rightarrow> ('d kstate, i64) kop" where
  "sys_write D U M =
     bindK (argaddr 1) (\<lambda>p.
     bindK (argint 2) (\<lambda>n.
     bindK (argfd 0) (\<lambda>r.
     case r of
       None \<Rightarrow> retK (- 1)
     | Some (_, f) \<Rightarrow>
         bindK (uload M p (scast n)) (\<lambda>src.
         bindK (fsK (filewrite D U f src)) (\<lambda>ret. retK (scast ret))))))"

definition sys_execve :: "('d kstate, i64) kop" where
  "sys_execve = retK 0"

text \<open>The table \<open>syscalls\<close>: the entries that are not null pointers. Its length is 279.\<close>

abbreviation SYS_READ :: nat where "SYS_READ \<equiv> 63"
abbreviation SYS_WRITE :: nat where "SYS_WRITE \<equiv> 64"
abbreviation SYS_EXECVE :: nat where "SYS_EXECVE \<equiv> 221"
abbreviation NSYSCALLS :: int where "NSYSCALLS \<equiv> 279"

definition syscalls :: "'d blkdev \<Rightarrow> 'd uart_regs \<Rightarrow> 'd ummu \<Rightarrow> nat \<Rightarrow> ('d kstate, i64) kop option" where
  "syscalls D U M num =
     (if num = SYS_READ then Some (sys_read D U M)
      else if num = SYS_WRITE then Some (sys_write D U M)
      else if num = SYS_EXECVE then Some sys_execve
      else None)"

definition syscall :: "'d blkdev \<Rightarrow> 'd uart_regs \<Rightarrow> 'd ummu \<Rightarrow> ('d kstate, unit) kop" where
  "syscall D U M =
     bindK curproc (\<lambda>p.
     bindK (get_proc p) (\<lambda>x.
     bindK (get_tf (p_trapframe x)) (\<lambda>tf.
     let num = (ucast (tf_a7 tf) :: i32) in
     bindK
       (if 0 < sint num \<and> sint num < NSYSCALLS
        then (case syscalls D U M (unat num) of Some f \<Rightarrow> f | None \<Rightarrow> retK (- 1))
        else retK (- 1)) (\<lambda>ret.
     bindK (get_tf (p_trapframe x)) (\<lambda>tf.
     put_tf (p_trapframe x) (tf\<lparr>tf_a0 := ret\<rparr>))))))"

end
