(* ===== verification/Exec.thy ===== *)
theory Exec
  imports Syscall
begin

text \<open>
  \<open>kernel/syscall/proccall.c\<close>: loading an ELF program into a new process.
\<close>

section \<open>ELF structures (\<open>include/elf.h\<close>)\<close>

definition le16 :: "u8 list \<Rightarrow> nat \<Rightarrow> u16" where
  "le16 xs i = ucast (xs ! i) OR push_bit 8 (ucast (xs ! (i + 1)))"

definition le32 :: "u8 list \<Rightarrow> nat \<Rightarrow> u32" where
  "le32 xs i = ucast (le16 xs i) OR push_bit 16 (ucast (le16 xs (i + 2)))"

definition le64 :: "u8 list \<Rightarrow> nat \<Rightarrow> u64" where
  "le64 xs i = ucast (le32 xs i) OR push_bit 32 (ucast (le32 xs (i + 4)))"

record ehdr =
  e_ident :: "u8 list"
  e_type :: u16
  e_machine :: u16
  e_entry :: u64
  e_phoff :: u64
  e_phnum :: u16

definition ehdr_of :: "u8 list \<Rightarrow> ehdr" where
  "ehdr_of xs = \<lparr>e_ident = take 16 xs, e_type = le16 xs 16, e_machine = le16 xs 18, e_entry = le64 xs 24,
     e_phoff = le64 xs 32, e_phnum = le16 xs 56\<rparr>"

record phdr =
  p_type :: u32
  p_flags :: u32
  p_offset :: u64
  p_vaddr :: u64
  p_filesz :: u64
  p_memsz :: u64

definition phdr_of :: "u8 list \<Rightarrow> nat \<Rightarrow> phdr" where
  "phdr_of xs i = \<lparr>p_type = le32 xs i, p_flags = le32 xs (i + 4), p_offset = le64 xs (i + 8),
     p_vaddr = le64 xs (i + 16), p_filesz = le64 xs (i + 32), p_memsz = le64 xs (i + 40)\<rparr>"

definition ELF_MAGIC_OK :: "ehdr \<Rightarrow> bool" where
  "ELF_MAGIC_OK h \<longleftrightarrow> e_ident h ! 0 = 0x7F \<and> e_ident h ! 1 = 0x45 \<and> e_ident h ! 2 = 0x4C \<and> e_ident h ! 3 = 0x46"

definition ELF_IS_RISCV :: "ehdr \<Rightarrow> bool" where
  "ELF_IS_RISCV h \<longleftrightarrow> e_machine h = 243"

abbreviation ET_EXEC :: u16 where "ET_EXEC \<equiv> 2"
abbreviation PT_LOAD :: u32 where "PT_LOAD \<equiv> 1"
abbreviation SIZEOF_EHDR :: u64 where "SIZEOF_EHDR \<equiv> 64"
abbreviation SIZEOF_PHDR :: u64 where "SIZEOF_PHDR \<equiv> 56"

definition ALIGNUP :: "u64 \<Rightarrow> u64 \<Rightarrow> u64" where
  "ALIGNUP sz align = (sz + align - 1) AND NOT (align - 1)"

text \<open>\<open>perm\<close> of a segment; \<open>vmmap\<close> takes it as a \<open>u8\<close>.\<close>

definition seg_perm :: "u32 \<Rightarrow> u8" where
  "seg_perm flags = BITS_U8 0 OR BITS_U8 4 OR
     (if flags AND 4 \<noteq> 0 then BITS_U8 1 else 0) OR
     (if flags AND 2 \<noteq> 0 then BITS_U8 2 else 0) OR
     (if flags AND 1 \<noteq> 0 then BITS_U8 3 else 0)"

section \<open>The argument vector\<close>

text \<open>Storing the bytes a kernel function writes through a pointer.\<close>

fun store_bytes :: "u64 \<Rightarrow> u8 list \<Rightarrow> mem \<Rightarrow> mem" where
  "store_bytes a [] m = m"
| "store_bytes a (x # xs) m = store_bytes (a + 1) xs (m(a := x))"

definition storeK :: "u64 \<Rightarrow> u8 list \<Rightarrow> ('d kstate, unit) kop" where
  "storeK a xs = memU (\<lambda>k. Inr (k\<lparr>ram := store_bytes a xs (ram k)\<rparr>))"

definition poke64 :: "u64 \<Rightarrow> u64 \<Rightarrow> pmem \<Rightarrow> pmem res" where
  "poke64 a v k = Inr (k\<lparr>ram := st64 (ram k) a v\<rparr>)"

text \<open>The loop that copies the strings, from the last to the first: \<open>is\<close> are the indices left.\<close>

fun setup_strings :: "u64 \<Rightarrow> u64 list \<Rightarrow> u64 \<Rightarrow> nat list \<Rightarrow> u64 \<Rightarrow> pmem \<Rightarrow> (u64 option \<times> pmem) res" where
  "setup_strings pt argv arg_ptrs [] base k = Inr (Some base, k)"
| "setup_strings pt argv arg_ptrs (i # is) base k =
     bindR (from_opt (strlen (ram k) (argv ! i))) (\<lambda>l.
     let len = l + 1; base = base - len in
     bindR (copyout pt base (argv ! i) len k) (\<lambda>(ok, k).
     if \<not> ok then Inr (None, k)
     else bindR (poke64 (arg_ptrs + 8 * of_nat i) base k) (\<lambda>k. setup_strings pt argv arg_ptrs is base k)))"

fun setup_ptrs :: "u64 \<Rightarrow> u64 \<Rightarrow> u64 \<Rightarrow> nat list \<Rightarrow> pmem \<Rightarrow> (bool \<times> pmem) res" where
  "setup_ptrs pt argv_base arg_ptrs [] k = Inr (True, k)"
| "setup_ptrs pt argv_base arg_ptrs (i # is) k =
     bindR (copyout pt (argv_base + 8 * of_nat i) (arg_ptrs + 8 * of_nat i) 8 k) (\<lambda>(ok, k).
     if \<not> ok then Inr (False, k) else setup_ptrs pt argv_base arg_ptrs is k)"

text \<open>
  \<open>setup_argv\<close>: \<open>argv\<close> are the non-null pointers before the terminating null, \<open>None\<close> the null
  pointer; \<open>cell\<close> is the address of the local variable \<open>null_ptr\<close>. The result is the new
  \<open>sp\<close>, \<open>argc\<close> and the user address of the array, \<open>None\<close> for failure.
\<close>

definition setup_argv :: "u64 \<Rightarrow> u64 \<Rightarrow> u64 \<Rightarrow> u64 list option \<Rightarrow> pmem \<Rightarrow> ((u64 \<times> i32 \<times> u64) option \<times> pmem) res" where
  "setup_argv cell pt sp argv k =
     (case argv of
        None \<Rightarrow> Inr (Some (sp, 0, 0), k)
      | Some [] \<Rightarrow> Inr (Some (sp, 0, 0), k)
      | Some (a # as) \<Rightarrow>
          (let argv = a # as; argc = length argv in
           bindR (kmalloc (of_nat argc * 8) k) (\<lambda>(arg_ptrs, k).
           if arg_ptrs = 0 then Inr (None, k)
           else
           bindR (setup_strings pt argv arg_ptrs (rev [0..<argc]) sp k) (\<lambda>(r, k).
           case r of
             None \<Rightarrow> bindR (kmfree arg_ptrs k) (\<lambda>k. Inr (None, k))
           | Some base \<Rightarrow>
               (let base = ALIGNDOWN base 16;
                    argv_base = base - (of_nat argc + 1) * 8 in
                bindR (setup_ptrs pt argv_base arg_ptrs [0..<argc] k) (\<lambda>(ok, k).
                if \<not> ok then bindR (kmfree arg_ptrs k) (\<lambda>k. Inr (None, k))
                else
                bindR (poke64 cell 0 k) (\<lambda>k.
                bindR (copyout pt (argv_base + of_nat argc * 8) cell 8 k) (\<lambda>(ok, k).
                if \<not> ok then bindR (kmfree arg_ptrs k) (\<lambda>k. Inr (None, k))
                else bindR (kmfree arg_ptrs k) (\<lambda>k. Inr (Some (argv_base, of_nat argc, argv_base), k))))))))))"

section \<open>Loading\<close>

text \<open>
  The loops that map fresh pages from \<open>v\<close> up to \<open>vend\<close>. Each iteration advances by a page,
  so the number of pages of the range is enough fuel. False stands for \<open>goto fail\<close>.
\<close>

fun map_fresh :: "nat \<Rightarrow> u64 \<Rightarrow> u64 \<Rightarrow> u64 \<Rightarrow> u8 \<Rightarrow> pmem \<Rightarrow> (bool \<times> pmem) res" where
  "map_fresh fuel root v vend perm k =
     (if v < vend then
        (case fuel of
           0 \<Rightarrow> Inl Diverge
         | Suc fuel' \<Rightarrow>
             (let (pa, k) = kalloc k in
              if pa = 0 then Inr (False, k)
              else
              bindR (vmmap root v PGSIZE pa perm k) (\<lambda>(ok, k).
              if \<not> ok then Inr (False, k) else map_fresh fuel' root (v + PGSIZE) vend perm k)))
      else Inr (True, k))"

declare map_fresh.simps [simp del]

text \<open>Copying the file contents of a segment, through a buffer from \<open>kmalloc\<close>.\<close>

definition load_seg :: "'d blkdev \<Rightarrow> 'd uart_regs \<Rightarrow> u64 \<Rightarrow> u64 \<Rightarrow> phdr \<Rightarrow> ('d kstate, bool) kop" where
  "load_seg D U ip root ph =
     bindK (memK (kmalloc (p_filesz ph))) (\<lambda>seg_buf.
     if seg_buf = 0 then retK False
     else
     bindK (fsK (readi D U ip (ucast (p_offset ph)) (p_filesz ph))) (\<lambda>(n, out).
     thenK (storeK seg_buf out)
    (if n \<noteq> ucast (p_filesz ph) then thenK (memU (kmfree seg_buf)) (retK False)
     else
     bindK (memK (copyout root (p_vaddr ph) seg_buf (p_filesz ph))) (\<lambda>ok.
     thenK (memU (kmfree seg_buf)) (retK ok)))))"

text \<open>The loop over the program headers; \<open>is\<close> are the indices left. \<open>None\<close> is \<open>goto fail\<close>.\<close>

fun load_segs :: "'d blkdev \<Rightarrow> 'd uart_regs \<Rightarrow> u64 \<Rightarrow> u64 \<Rightarrow> u8 list \<Rightarrow> nat list \<Rightarrow> u64 \<Rightarrow> ('d kstate, u64 option) kop" where
  "load_segs D U ip root tab [] max_va = retK (Some max_va)"
| "load_segs D U ip root tab (i # is) max_va =
     (let ph = phdr_of tab (56 * i) in
      if p_type ph \<noteq> PT_LOAD \<or> p_memsz ph = 0 then load_segs D U ip root tab is max_va
      else
      let va = ALIGNDOWN (p_vaddr ph) PGSIZE;
          va_end = ALIGNUP (p_vaddr ph + p_memsz ph) PGSIZE;
          max_va = (if max_va < va_end then va_end else max_va) in
      bindK (memK (map_fresh (unat (va_end - va) div 4096) root va va_end (seg_perm (p_flags ph)))) (\<lambda>ok.
      if \<not> ok then retK None
      else
      bindK (if 0 < p_filesz ph then load_seg D U ip root ph else retK True) (\<lambda>ok.
      if \<not> ok then retK None else load_segs D U ip root tab is max_va)))"

text \<open>The exits of \<open>kexec\<close>.\<close>

definition exec_fail :: "'d blkdev \<Rightarrow> u64 \<Rightarrow> u64 \<Rightarrow> ('d kstate, i32) kop" where
  "exec_fail D p ip = thenK (freeproc p) (thenK (fsK (iput D ip)) (retK (- 1)))"

definition exec_fail_tab :: "'d blkdev \<Rightarrow> u64 \<Rightarrow> u64 \<Rightarrow> u64 \<Rightarrow> ('d kstate, i32) kop" where
  "exec_fail_tab D tabp p ip = thenK (memU (kmfree tabp)) (exec_fail D p ip)"

text \<open>
  \<open>kexec\<close>: \<open>path\<close> is the path without its NUL, \<open>argv\<close> as for \<open>setup_argv\<close>; \<open>forkret\<close> and \<open>cell\<close> are
  the addresses of the function and of the local variable.
\<close>

definition kexec :: "'d blkdev \<Rightarrow> 'd uart_regs \<Rightarrow> u64 \<Rightarrow> u64 \<Rightarrow> u8 list \<Rightarrow> u64 list option \<Rightarrow> ('d kstate, i32) kop" where
  "kexec D U forkret cell path argv =
     bindK (fsK (namei D path)) (\<lambda>ip.
     if ip = 0 then retK (- 1)
     else
     bindK (fsK (get_inode ip)) (\<lambda>x.
     if i_type x \<noteq> INODE_FILE then thenK (fsK (iput D ip)) (retK (- 1))
     else
     bindK (allocproc forkret) (\<lambda>p.
     if p = 0 then thenK (fsK (iput D ip)) (retK (- 1))
     else
     bindK mapproc (\<lambda>root.
     bindK (get_proc p) (\<lambda>pr.
     thenK (put_proc p (pr\<lparr>p_root := root\<rparr>))
    (if root = 0 then exec_fail D p ip
     else
     bindK (fsK (readi D U ip 0 SIZEOF_EHDR)) (\<lambda>(n, out).
     if n \<noteq> 64 then exec_fail D p ip
     else
     let eh = ehdr_of out in
     if \<not> ELF_MAGIC_OK eh \<or> \<not> ELF_IS_RISCV eh \<or> e_type eh \<noteq> ET_EXEC then exec_fail D p ip
     else
     let phdr_size = ucast (e_phnum eh) * SIZEOF_PHDR in
     bindK (memK (kmalloc phdr_size)) (\<lambda>tabp.
     if tabp = 0 then exec_fail D p ip
     else
     bindK (fsK (readi D U ip (ucast (e_phoff eh)) phdr_size)) (\<lambda>(n, tab).
     thenK (storeK tabp tab)
    (if n \<noteq> ucast phdr_size then exec_fail_tab D tabp p ip
     else
     bindK (load_segs D U ip root tab [0..<unat (e_phnum eh)] 0) (\<lambda>r.
     case r of
       None \<Rightarrow> exec_fail_tab D tabp p ip
     | Some max_va \<Rightarrow>
         (let stack_top = KERNBASE; stack_bottom = stack_top - 2 * PGSIZE in
          if stack_bottom < max_va then exec_fail_tab D tabp p ip
          else
          bindK (memK (map_fresh 2 root stack_bottom stack_top (BITS_U8 1 OR BITS_U8 2 OR BITS_U8 4 OR BITS_U8 0))) (\<lambda>ok.
          if \<not> ok then exec_fail_tab D tabp p ip
          else
          bindK (get_proc p) (\<lambda>pr.
          thenK (put_proc p (pr\<lparr>p_stack_bottom := stack_bottom, p_stack_top := stack_top\<rparr>))
         (bindK (memK (setup_argv cell root stack_top argv)) (\<lambda>r.
          case r of
            None \<Rightarrow> exec_fail_tab D tabp p ip
          | Some (sp, argc, argv_ptr) \<Rightarrow>
              bindK (get_proc p) (\<lambda>pr.
              bindK (get_tf (p_trapframe pr)) (\<lambda>tf.
              thenK (put_tf (p_trapframe pr)
                (tf\<lparr>tf_sepc := e_entry eh, tf_sp := sp, tf_a0 := scast argc, tf_a1 := argv_ptr\<rparr>))
             (let name_len = (if 16 \<le> length path then 15 else length path);
                  name = take name_len path @ [0] @ drop (name_len + 1) (p_name pr) in
              thenK (put_proc p (pr\<lparr>p_sz := max_va, p_brk := max_va, p_name := name, p_fdtable := replicate 16 0\<rparr>))
             (thenK (memU (kmfree tabp))
             (thenK (fsK (iput D ip))
             (retK 0))))))))))))))))))))))"

end
