(* ===== verification/Trap.thy ===== *)
theory Trap
  imports Exec
begin

text \<open>
  \<open>kernel/trap/trap.c\<close>, \<open>forkret\<close> of \<open>kernel/task/proc.c\<close> and \<open>kernel_main\<close>.
\<close>

section \<open>Trap causes (\<open>include/riscv.h\<close>)\<close>

definition InstructionFault :: u64 where "InstructionFault = 1"
definition IllegalInstruction :: u64 where "IllegalInstruction = 2"
definition LoadFault :: u64 where "LoadFault = 5"
definition StoreFault :: u64 where "StoreFault = 7"
definition UserEnvCall :: u64 where "UserEnvCall = 8"
definition InstructionPageFault :: u64 where "InstructionPageFault = 12"
definition LoadPageFault :: u64 where "LoadPageFault = 13"
definition StorePageFault :: u64 where "StorePageFault = 15"
definition StoreGuestPageFault :: u64 where "StoreGuestPageFault = 23"
definition SupervisorTimer :: u64 where "SupervisorTimer = push_bit 63 1 OR 5"
definition SupervisorExternal :: u64 where "SupervisorExternal = push_bit 63 1 OR 9"

lemmas trap_causes = InstructionFault_def IllegalInstruction_def LoadFault_def StoreFault_def UserEnvCall_def
  InstructionPageFault_def LoadPageFault_def StorePageFault_def StoreGuestPageFault_def
  SupervisorTimer_def SupervisorExternal_def

abbreviation SSTATUS_SPP :: u64 where "SSTATUS_SPP \<equiv> 0x100"
abbreviation SSTATUS_SPIE :: u64 where "SSTATUS_SPIE \<equiv> 0x20"

section \<open>Handlers\<close>

definition trapinit :: "u64 \<Rightarrow> ('d kstate, unit) kop" where
  "trapinit trapvec = modK (\<lambda>s. s\<lparr>csr := (csr s)\<lparr>r_stvec := trapvec\<rparr>\<rparr>)"

definition trapret :: "('d kstate, unit) kop" where
  "trapret =
     bindK curproc (\<lambda>p.
     bindK (get_proc p) (\<lambda>x.
     bindK (get_tf (p_trapframe x)) (\<lambda>tf.
     modK (\<lambda>s. s\<lparr>csr := (csr s)\<lparr>
       r_sepc := tf_sepc tf,
       r_sstatus := (r_sstatus (csr s) AND NOT SSTATUS_SPP) OR SSTATUS_SPIE,
       r_sscratch := p_trapframe x + SIZEOF_TRAPFRAME,
       r_satp := MAKESATP (p_root x)\<rparr>\<rparr>))))"

text \<open>The label of the second \<open>case\<close> of \<open>usertrap\<close>: six causes joined by bitwise or.\<close>

definition fault_label :: u64 where
  "fault_label = StoreFault OR StoreGuestPageFault OR InstructionFault OR InstructionPageFault OR
     LoadFault OR LoadPageFault"

definition usertrap :: "'d blkdev \<Rightarrow> 'd uart_regs \<Rightarrow> 'd ummu \<Rightarrow> ('d kstate, unit) kop" where
  "usertrap D U M =
     bindK (getK (\<lambda>s. r_scause (csr s))) (\<lambda>scause.
     bindK curproc (\<lambda>p.
     bindK (get_proc p) (\<lambda>x.
     bindK (get_tf (p_trapframe x)) (\<lambda>tf.
     bindK (getK (\<lambda>s. r_sepc (csr s))) (\<lambda>sepc.
     thenK (put_tf (p_trapframe x) (tf\<lparr>tf_sepc := sepc\<rparr>))
    (thenK
       (if scause = UserEnvCall then
          bindK (get_tf (p_trapframe x)) (\<lambda>tf.
          thenK (put_tf (p_trapframe x) (tf\<lparr>tf_sepc := tf_sepc tf + 4\<rparr>))
         (thenK intr_on (syscall D U M)))
        else if scause = fault_label then
          failK (Panic ''[usertrap]: TODO: Unsupported trap from usertrap'')
        else if scause = IllegalInstruction then
          failK (Panic ''[usertrap]: TODO:  Unsupported trap from usertrap'')
        else if scause = SupervisorTimer then
          failK (Panic ''[usertrap]: TODO: Unsupported trap from usertrap'')
        else if scause = SupervisorExternal then
          failK (Panic ''[usertrap]: TODO: Unsupported trap from usertrap'')
        else failK (Panic ''[usertrap]: Unsupported trap from usertrap''))
    trapret))))))"

definition kerneltrap :: "('d kstate, unit) kop" where
  "kerneltrap =
     bindK (getK (\<lambda>s. r_scause (csr s))) (\<lambda>scause.
     if scause = SupervisorExternal then
       failK (Panic ''[kerneltrap]: TODO: Unsupported trap from kerneltrap'')
     else if scause = SupervisorTimer then
       failK (Panic ''[kerneltrap]: TODO: Unsupported trap from kerneltrap'')
     else failK (Panic ''[kerneltrap]: TODO: Unsupported trap from kerneltrap''))"

section \<open>The first process\<close>

text \<open>
  \<open>forkret\<close>: the first call executes \<open>/init\<close>. \<open>arg\<close> is the address of the string in the
  argument vector.
\<close>

definition init_path :: "u8 list" where
  "init_path = [0x2F, 0x69, 0x6E, 0x69, 0x74]"

definition forkret :: "'d blkdev \<Rightarrow> 'd uart_regs \<Rightarrow> u64 \<Rightarrow> u64 \<Rightarrow> u64 \<Rightarrow> ('d kstate, unit) kop" where
  "forkret D U forkret_addr cell arg =
     bindK curproc (\<lambda>p.
     bindK (getK forkret_init) (\<lambda>init.
     thenK
       (if \<not> init then
          thenK (modK (\<lambda>s. s\<lparr>forkret_init := True\<rparr>))
         (bindK (kexec D U forkret_addr cell init_path (Some [arg])) (\<lambda>r.
          bindK (get_proc p) (\<lambda>x.
          bindK (get_tf (p_trapframe x)) (\<lambda>tf.
          thenK (put_tf (p_trapframe x) (tf\<lparr>tf_a0 := scast r\<rparr>))
         (if (scast r :: i64) = - 1 then failK (Panic ''exec'') else retK ())))))
        else retK ())
     trapret))"

section \<open>Boot\<close>

definition kvminit :: "ksyms \<Rightarrow> ('d kstate, unit) kop" where
  "kvminit k = bindK (memK (kvmmake k)) (\<lambda>root. modK (\<lambda>s. s\<lparr>kvmroot := root\<rparr>))"

definition kvminithart :: "('d kstate, unit) kop" where
  "kvminithart = modK (\<lambda>s. s\<lparr>csr := (csr s)\<lparr>r_satp := MAKESATP (kvmroot s)\<rparr>\<rparr>)"

text \<open>An operation of the drivers on the state of the devices.\<close>

definition devK :: "('d \<Rightarrow> 'd res) \<Rightarrow> ('d kstate, unit) kop" where
  "devK f s = bindR (f (dst (kfs s))) (\<lambda>d. Inr ((), s\<lparr>kfs := (kfs s)\<lparr>dst := d\<rparr>\<rparr>))"

text \<open>\<open>kernel_main\<close>; \<open>blk_init\<close> is \<open>blkinit\<close> of the block driver.\<close>

definition kernel_main :: "'d blkdev \<Rightarrow> 'd uart_regs \<Rightarrow> ('d \<Rightarrow> 'd res) \<Rightarrow> ksyms \<Rightarrow> u64 \<Rightarrow> ('d kstate, unit) kop" where
  "kernel_main D U blk_init k trapvec =
     thenK (devK (uartinit U))
    (thenK (memU kinit)
    (thenK (kvminit k)
    (thenK kvminithart
    (thenK procinit
    (thenK (trapinit trapvec)
    (thenK (devK blk_init)
    (thenK (fsK fileinit)
    (fsK (fsinit D)))))))))"

end
