(* ===== verification/PageTable.thy ===== *)
theory PageTable
  imports Vm
begin

text \<open>
  What a page table means: the partial function from virtual addresses to page table
  entries it represents, and the proof that \<open>walk\<close> and \<open>vmmap\<close> of \<open>mm/vm.c\<close> implement look-up
  and update of that function.
\<close>

section \<open>Entries\<close>

lemma unat_PX: "unat (PX l va) < 512"
  using unat_mask_low [of "drop_bit (12 + 9 * l) va" 9] by (simp add: PX_def mask_eq_exp_minus_1)

lemma bit_al_page: "al_page p \<Longrightarrow> bit p n \<Longrightarrow> 12 \<le> n"
proof (rule ccontr)
  assume h: "al_page p" "bit p n" "\<not> 12 \<le> n"
  have "unat (take_bit 12 p) = 0"
    using h(1) by (simp only: unsigned_take_bit_eq) (simp add: al_page_def take_bit_eq_mod)
  then have "\<not> bit (take_bit 12 p) n"
    by (simp add: unat_eq_zero)
  with h(2,3) show False
    by (simp add: bit_take_bit_iff)
qed

lemma bit_less: "unat (p :: u64) < 2 ^ k \<Longrightarrow> bit p n \<Longrightarrow> n < k"
proof -
  assume h: "unat p < 2 ^ k" "bit p n"
  then have "take_bit k p = p"
    by (intro word_eq_unatI) (simp add: unsigned_take_bit_eq take_bit_nat_eq_self)
  with h(2) show "n < k"
    by (metis bit_take_bit_iff)
qed

text \<open>An entry made of a page address and flag bits gives both back.\<close>

lemma PTE2PA_entry:
  assumes "al_page p" and "unat p < 2 ^ 56" and "unat f < 2 ^ 10"
  shows "PTE2PA (PA2PTE p OR f) = p"
proof (rule bit_word_eqI)
  fix n
  assume "n < LENGTH(64)"
  then show "bit (PTE2PA (PA2PTE p OR f)) n = bit p n"
    using bit_al_page [OF assms(1)] bit_less [OF assms(2)] bit_less [OF assms(3), of "n - 2"]
    by (auto simp: PTE2PA_def PA2PTE_def bit_simps)
qed

lemma entry_flags: "(PA2PTE p OR f) AND PTE_V = f AND PTE_V"
  by (rule bit_word_eqI) (auto simp: PA2PTE_def bit_simps bit_1_iff)

lemma one_flag: "(1 :: u64) AND PTE_V = 1" "(PA2PTE p OR PTE_V) AND PTE_V \<noteq> 0"
  by (simp_all add: entry_flags)

lemma unat_8_mult: "unat i < 512 \<Longrightarrow> unat (8 * i :: u64) = 8 * unat i"
  by (simp add: unat_word_ariths)

lemma entry_al8: "al_page t \<Longrightarrow> unat i < 512 \<Longrightarrow> al8 (entry t i)"
  by (simp add: entry_def al8_def [of "8 * i"] unat_8_mult)

lemma entry_inj:
  assumes "al_page t" "al_page t'" "unat i < 512" "unat i' < 512" "entry t i = entry t' i'"
  shows "t = t' \<and> i = i'"
proof -
  have "t = t' \<and> 8 * i = 8 * i'"
    using aligned_add_eq [of t 4096 t' "8 * i" "8 * i'"] assms by (simp add: entry_def al_page_def unat_8_mult)
  then show ?thesis
    using unat_8_mult [OF assms(3)] unat_8_mult [OF assms(4)] by (auto intro: word_eq_unatI)
qed

lemma entry_nonzero: "al_page t \<Longrightarrow> t \<noteq> 0 \<Longrightarrow> unat i < 512 \<Longrightarrow> entry t i \<noteq> 0"
  using entry_inj [of t 0 i 0] by (auto simp: entry_def al_page_def)

lemma ld64_entry_upd:
  assumes "al_page t" "al_page t'" "unat i < 512" "unat i' < 512"
  shows "ld64 (st64 m (entry t i) v) (entry t' i') = (if t = t' \<and> i = i' then v else ld64 m (entry t' i'))"
proof (cases "entry t i = entry t' i'")
  case True
  with entry_inj [OF assms True] show ?thesis
    by simp
next
  case False
  then show ?thesis
    using ld64_st64_neq [OF entry_al8 entry_al8 False, OF assms(1,3,2,4)] by auto
qed

lemma entry_same_outside: "al_page t \<Longrightarrow> unat i < 512 \<Longrightarrow> same_outside {t} m (st64 m (entry t i) v)"
  unfolding entry_def by (rule same_outside_st64) (simp_all add: unat_8_mult al8_def)

lemma ld64_entry_outside:
  "same_outside P m m' \<Longrightarrow> al_page t \<Longrightarrow> t \<notin> P \<Longrightarrow> unat i < 512 \<Longrightarrow> ld64 m' (entry t i) = ld64 m (entry t i)"
  unfolding entry_def by (rule same_outside_ld64) (simp_all add: unat_8_mult al8_def)

section \<open>The table a walk reaches\<close>

text \<open>\<open>tbl m root va d\<close>: the table that holds the entry for \<open>va\<close> after \<open>d\<close> steps from the root.\<close>

fun tbl :: "mem \<Rightarrow> u64 \<Rightarrow> u64 \<Rightarrow> nat \<Rightarrow> u64 option" where
  "tbl m root va 0 = Some root"
| "tbl m root va (Suc d) =
     (case tbl m root va d of
        None \<Rightarrow> None
      | Some t \<Rightarrow>
          if ld64 m (entry t (PX (2 - d) va)) AND PTE_V \<noteq> 0
          then Some (PTE2PA (ld64 m (entry t (PX (2 - d) va)))) else None)"

text \<open>The valid leaf entry for \<open>va\<close>: the abstract page table.\<close>

definition lookup :: "mem \<Rightarrow> u64 \<Rightarrow> u64 \<Rightarrow> u64 option" where
  "lookup m root va =
     (case tbl m root va 2 of
        None \<Rightarrow> None
      | Some t \<Rightarrow>
          if ld64 m (entry t (PX 0 va)) AND PTE_V \<noteq> 0 then Some (ld64 m (entry t (PX 0 va))) else None)"

text \<open>Two addresses with the same first \<open>d\<close> indices, and two addresses of the same page.\<close>

definition same_path :: "nat \<Rightarrow> u64 \<Rightarrow> u64 \<Rightarrow> bool" where
  "same_path d va va' \<longleftrightarrow> (\<forall>k < d. PX (2 - k) va = PX (2 - k) va')"

definition same_page :: "u64 \<Rightarrow> u64 \<Rightarrow> bool" where
  "same_page va va' \<longleftrightarrow> same_path 3 va va'"

definition tables :: "mem \<Rightarrow> u64 \<Rightarrow> u64 set" where
  "tables m root = {t. \<exists>va d. d \<le> 2 \<and> tbl m root va d = Some t}"

text \<open>
  A well-formed page table: its tables are page frames of the allocator that are not on the
  free list, and no table is reached along two different paths.
\<close>

definition pt_wf :: "pmem \<Rightarrow> u64 list \<Rightarrow> u64 \<Rightarrow> bool" where
  "pt_wf s fl root \<longleftrightarrow> kmem_inv s fl \<and> (\<forall>t \<in> tables (ram s) root. frame_ok s t \<and> t \<notin> set fl) \<and>
     (\<forall>va va' d d' t. d \<le> 2 \<longrightarrow> d' \<le> 2 \<longrightarrow> tbl (ram s) root va d = Some t \<longrightarrow>
        tbl (ram s) root va' d' = Some t \<longrightarrow> d = d' \<and> same_path d va va')"

lemma same_path_refl [simp]: "same_path d va va"
  by (simp add: same_path_def)

lemma same_path_sym: "same_path d va va' \<Longrightarrow> same_path d va' va"
  by (simp add: same_path_def)

lemma same_path_le: "same_path d va va' \<Longrightarrow> k \<le> d \<Longrightarrow> same_path k va va'"
  by (simp add: same_path_def)

lemma same_path_Suc: "same_path (Suc d) va va' \<longleftrightarrow> same_path d va va' \<and> PX (2 - d) va = PX (2 - d) va'"
  by (auto simp: same_path_def less_Suc_eq)

lemma tbl_same_path: "same_path d va va' \<Longrightarrow> tbl m root va d = tbl m root va' d"
  by (induction d) (auto simp: same_path_Suc split: option.split)

lemma tbl_prefix: "tbl m root va d = Some t \<Longrightarrow> k \<le> d \<Longrightarrow> \<exists>t'. tbl m root va k = Some t'"
  by (induction d arbitrary: t) (auto simp: le_Suc_eq split: option.splits if_splits)

lemma tbl_cong:
  assumes "\<And>j t. j < k \<Longrightarrow> tbl m root va j = Some t \<Longrightarrow>
    ld64 m' (entry t (PX (2 - j) va)) = ld64 m (entry t (PX (2 - j) va))"
  shows "tbl m' root va k = tbl m root va k"
  using assms by (induction k) (auto split: option.splits)

lemma tables_I: "tbl m root va d = Some t \<Longrightarrow> d \<le> 2 \<Longrightarrow> t \<in> tables m root"
  by (auto simp: tables_def)

lemma pt_wf_tbl:
  assumes "pt_wf s fl root" and "tbl (ram s) root va d = Some t" and "d \<le> 2"
  shows "frame_ok s t" "al_page t" "t \<noteq> 0" "t \<notin> set fl"
proof -
  show f: "frame_ok s t" "t \<notin> set fl"
    using assms tables_I [OF assms(2,3)] by (auto simp: pt_wf_def)
  then show "al_page t" "t \<noteq> 0"
    using frame_okD [OF f(1)] assms(1) by (auto simp: pt_wf_def kmem_inv_def)
qed

lemma pt_wf_unique:
  "pt_wf s fl root \<Longrightarrow> tbl (ram s) root va d = Some t \<Longrightarrow> tbl (ram s) root va' d' = Some t \<Longrightarrow>
   d \<le> 2 \<Longrightarrow> d' \<le> 2 \<Longrightarrow> d = d' \<and> same_path d va va'"
  unfolding pt_wf_def by blast

lemma walk_lookup:
  "walk root va False s =
     (case tbl (ram s) root va 2 of None \<Rightarrow> (0, s) | Some t \<Rightarrow> (entry t (PX 0 va), s))"
  by (simp add: walk_def numeral_2_eq_2)


section \<open>Changing an entry\<close>

text \<open>Writes outside the tables leave the whole abstract page table alone.\<close>

lemma tbl_outside:
  assumes "pt_wf s fl root" and "same_outside P (ram s) m" and "P \<inter> tables (ram s) root = {}" and "d \<le> 3"
  shows "tbl m root va d = tbl (ram s) root va d"
proof (rule tbl_cong)
  fix j t
  assume j: "j < d" "tbl (ram s) root va j = Some t"
  then have "j \<le> 2"
    using assms(4) by simp
  with j assms(3) have "t \<notin> P"
    using tables_I by blast
  then show "ld64 m (entry t (PX (2 - j) va)) = ld64 (ram s) (entry t (PX (2 - j) va))"
    using pt_wf_tbl(2) [OF assms(1) j(2) \<open>j \<le> 2\<close>] assms(2) by (intro ld64_entry_outside unat_PX)
qed

lemma lookup_tbl: "lookup m root va \<noteq> None \<longleftrightarrow> tbl m root va 3 \<noteq> None"
  by (simp add: lookup_def numeral_3_eq_3 numeral_2_eq_2 split: option.split)

lemma lookup_outside:
  assumes "pt_wf s fl root" and "same_outside P (ram s) m" and "P \<inter> tables (ram s) root = {}"
  shows "lookup m root va = lookup (ram s) root va"
proof (cases "tbl (ram s) root va 2")
  case None
  then show ?thesis
    using tbl_outside [OF assms, of 2 va] by (simp add: lookup_def)
next
  case (Some t)
  then have "t \<notin> P"
    using assms(3) tables_I by blast
  then have "ld64 m (entry t (PX 0 va)) = ld64 (ram s) (entry t (PX 0 va))"
    using pt_wf_tbl(2) [OF assms(1) Some] assms(2) by (intro ld64_entry_outside unat_PX) simp_all
  then show ?thesis
    using tbl_outside [OF assms, of 2 va] Some by (simp add: lookup_def)
qed

text \<open>A store to the entry that the walk for \<open>va\<close> meets after \<open>d\<close> steps.\<close>

lemma tbl_store_above:
  assumes wf: "pt_wf s fl root" and t: "tbl (ram s) root va d = Some t" and "d \<le> 2"
    and "k \<le> 3" and k: "k \<le> d \<or> \<not> same_path (Suc d) va va'"
  shows "tbl (st64 (ram s) (entry t (PX (2 - d) va)) v) root va' k = tbl (ram s) root va' k"
proof (rule tbl_cong)
  fix j t'
  assume j: "j < k" "tbl (ram s) root va' j = Some t'"
  then have j2: "j \<le> 2"
    using \<open>k \<le> 3\<close> by simp
  have "\<not> (t = t' \<and> PX (2 - d) va = PX (2 - j) va')"
  proof
    assume e: "t = t' \<and> PX (2 - d) va = PX (2 - j) va'"
    then have "d = j" "same_path d va va'"
      using pt_wf_unique [OF wf t, of va' j] j(2) \<open>d \<le> 2\<close> j2 by auto
    with e j(1) k show False
      by (auto simp: same_path_Suc)
  qed
  then show "ld64 (st64 (ram s) (entry t (PX (2 - d) va)) v) (entry t' (PX (2 - j) va')) =
      ld64 (ram s) (entry t' (PX (2 - j) va'))"
    using pt_wf_tbl(2) [OF wf t \<open>d \<le> 2\<close>] pt_wf_tbl(2) [OF wf j(2) j2] by (subst ld64_entry_upd) (auto simp: unat_PX)
qed

lemma lookup_store_other:
  assumes wf: "pt_wf s fl root" and t: "tbl (ram s) root va d = Some t" and "d \<le> 2"
    and "\<not> same_path (Suc d) va va'"
  shows "lookup (st64 (ram s) (entry t (PX (2 - d) va)) v) root va' = lookup (ram s) root va'"
proof -
  note same = tbl_store_above [OF wf t assms(3) _ disjI2 [OF assms(4)]]
  show ?thesis
  proof (cases "tbl (ram s) root va' 2")
    case None
    then show ?thesis
      using same [of 2] by (simp add: lookup_def)
  next
    case (Some t')
    have "\<not> (t = t' \<and> PX (2 - d) va = PX 0 va')"
      using pt_wf_unique [OF wf t, of va' 2] Some assms(3,4) by (auto simp: same_path_Suc)
    then show ?thesis
      using same [of 2] Some pt_wf_tbl(2) [OF wf t assms(3)] pt_wf_tbl(2) [OF wf Some]
      by (auto simp: lookup_def ld64_entry_upd unat_PX)
  qed
qed


section \<open>\<open>walk\<close>\<close>

text \<open>Taking a page off the free list does not touch the tables.\<close>

lemma tables_outside:
  assumes "pt_wf s fl root" and "same_outside P (ram s) m" and "P \<inter> tables (ram s) root = {}"
  shows "tables m root = tables (ram s) root"
proof -
  have "tbl m root va d = tbl (ram s) root va d" if "d \<le> 2" for va d
    using that by (intro tbl_outside [OF assms]) simp
  then show ?thesis
    unfolding tables_def by (metis (no_types, lifting))
qed

lemma pt_wf_outside:
  assumes "pt_wf s fl root" and "same_outside P (ram s) (ram s')" and "P \<inter> tables (ram s) root = {}"
    and "kmem_inv s' fl'" and "set fl' \<inter> tables (ram s) root = {}" and "ekernel s' = ekernel s"
  shows "pt_wf s' fl' root"
  unfolding pt_wf_def tables_outside [OF assms(1-3)]
proof (intro conjI ballI allI impI)
  fix t
  assume "t \<in> tables (ram s) root"
  moreover from this have "frame_ok s t"
    using assms(1) unfolding pt_wf_def by blast
  ultimately show "frame_ok s' t" "t \<notin> set fl'"
    using assms(5) frame_ok_cong [OF assms(6)] by blast+
next
  fix va va' d d' t
  assume "d \<le> 2" "d' \<le> 2" "tbl (ram s') root va d = Some t" "tbl (ram s') root va' d' = Some t"
  then show "d = d'" "same_path d va va'"
    using pt_wf_unique [OF assms(1), of va d t va' d'] tbl_outside [OF assms(1-3), of d va]
      tbl_outside [OF assms(1-3), of d' va'] by auto
qed (rule assms(4))

lemma kalloc_wf:
  assumes wf: "pt_wf s fl root" and a: "kalloc s = (p, s1)" and "p \<noteq> 0"
  obtains fl' where "fl = p # fl'" "pt_wf s1 fl' root" "frame_ok s1 p" "p \<notin> set fl'" "ekernel s1 = ekernel s"
    "ram s1 = (\<lambda>x. if PGROUNDDOWN x = p then 0 else ram s x)" "p \<notin> tables (ram s) root"
    "same_outside {p} (ram s) (ram s1)"
proof -
  have inv: "kmem_inv s fl"
    using wf by (simp add: pt_wf_def)
  obtain fl' where *: "fl = p # fl'" "kmem_inv s1 fl'" "p \<notin> set fl'" "al_page p"
      "ram s1 = (\<lambda>x. if PGROUNDDOWN x = p then 0 else ram s x)"
    by (rule kpages.alloc_fresh [OF inv a \<open>p \<noteq> 0\<close>])
  have so: "same_outside {p} (ram s) (ram s1)"
    by (simp add: *(5) same_outside_def)
  have p: "p \<notin> tables (ram s) root" "set fl' \<inter> tables (ram s) root = {}"
    using wf *(1) by (auto simp: pt_wf_def)
  have ek: "ekernel s1 = ekernel s"
    using a by (auto simp: kalloc_def Let_def split: if_splits)
  have "frame_ok s1 p"
    using kmem_inv_page [OF inv, of p] *(1) frame_ok_cong [OF ek] by simp
  moreover have "pt_wf s1 fl' root"
    using pt_wf_outside [OF wf so _ *(2) p(2) ek] p(1) by simp
  ultimately show thesis
    using that * p so ek by blast
qed

lemma ld64_zero_page:
  assumes "al_page p" and "\<And>x. PGROUNDDOWN x = p \<Longrightarrow> m x = 0" and "unat i < 512"
  shows "ld64 m (entry p i) = 0"
proof -
  have "ld64 (\<lambda>x. if PGROUNDDOWN x = p then m x else 0) (entry p i) = 0"
    using assms(2) by (simp add: if_distrib cong: if_cong)
  moreover have "ld64 m (entry p i) = ld64 (\<lambda>x. if PGROUNDDOWN x = p then m x else 0) (entry p i)"
  proof (rule ld64_cong)
    fix j :: u64
    assume "unat j < 8"
    then have "PGROUNDDOWN (p + (8 * i + j)) = p"
      using assms(1,3) unat_page_off [of "8 * i" j] by (intro PGROUNDDOWN_page_add) (simp_all add: unat_8_mult al8_def)
    then show "m (entry p i + j) = (if PGROUNDDOWN (entry p i + j) = p then m (entry p i + j) else 0)"
      by (simp add: entry_def add.assoc)
  qed
  ultimately show ?thesis
    by simp
qed

text \<open>Linking a new, empty table under an invalid entry changes no translation.\<close>

lemma link_table:
  assumes wf: "pt_wf s fl root" and t: "tbl (ram s) root va d = Some t" and d: "d < 2"
    and inval: "ld64 (ram s) (entry t (PX (2 - d) va)) AND PTE_V = 0"
    and p: "frame_ok s p" "p \<notin> set fl" "p \<notin> tables (ram s) root" "\<And>x. PGROUNDDOWN x = p \<Longrightarrow> ram s x = 0"
    and m: "m = st64 (ram s) (entry t (PX (2 - d) va)) (PA2PTE p OR PTE_V)"
  shows "pt_wf (s\<lparr>ram := m\<rparr>) fl root" "lookup m root va' = lookup (ram s) root va'"
    "tbl m root va (Suc d) = Some p" "tables m root = insert p (tables (ram s) root)"
    "k \<le> 2 \<Longrightarrow> tbl (ram s) root va' k = Some x \<Longrightarrow> tbl m root va' k = Some x"
    "k \<le> 2 \<Longrightarrow> tbl m root va' k = Some x \<Longrightarrow> x = p \<or> tbl (ram s) root va' k = Some x"
proof -
  have pal: "al_page p" "unat p < 2 ^ 56"
    using p(1) by (auto simp: frame_ok_def word_less_nat_alt)
  have tal: "al_page t" "t \<in> tables (ram s) root" "t \<noteq> p"
    using pt_wf_tbl(2) [OF wf t] tables_I [OF t] d p(3) by auto
  have zero: "ld64 m (entry p i) = 0" if "unat i < 512" for i
    using that tal pal(1) by (simp add: m ld64_entry_upd unat_PX ld64_zero_page p(4))
  have new: "tbl m root va' (Suc d) = Some p" if "same_path (Suc d) va va'" for va'
    using tbl_store_above [OF wf t, of d va] t d pal tal(1) that
      tbl_same_path [OF that, of m root] by (simp add: m one_flag PTE2PA_entry)
  have none: "tbl (ram s) root va' (Suc d) = None" if "same_path (Suc d) va va'" for va'
    using t inval tbl_same_path [OF that, of "ram s" root] by simp
  have tb: "tbl m root va' k = (if same_path (Suc d) va va' \<and> k = Suc d then Some p else tbl (ram s) root va' k)"
    if "k \<le> 3" for va' k
  proof (cases "same_path (Suc d) va va' \<and> d < k")
    case True
    have "tbl (ram s) root va' k = None"
      using tbl_prefix [of "ram s" root va' k _ "Suc d"] none [of va'] True by (cases "tbl (ram s) root va' k") auto
    moreover have "tbl m root va' k = None" if "k \<noteq> Suc d"
    proof -
      have "tbl m root va' (Suc (Suc d)) = None"
        using new [of va'] True zero [OF unat_PX] by simp
      then show ?thesis
        using tbl_prefix [of m root va' k _ "Suc (Suc d)"] True that by (cases "tbl m root va' k") auto
    qed
    ultimately show ?thesis
      using True new [of va'] by auto
  next
    case False
    then show ?thesis
      using tbl_store_above [OF wf t _ that, of va'] d by (auto simp: m not_less)
  qed
  show "tbl m root va (Suc d) = Some p"
    by (rule new) simp
  show tabs: "tables m root = insert p (tables (ram s) root)"
  proof (intro equalityI subsetI)
    fix x
    assume "x \<in> tables m root"
    then show "x \<in> insert p (tables (ram s) root)"
      by (auto simp: tables_def tb split: if_splits)
  next
    fix x
    assume "x \<in> insert p (tables (ram s) root)"
    then consider "x = p" | va' k where "tbl (ram s) root va' k = Some x" "k \<le> 2"
      by (auto simp: tables_def)
    then show "x \<in> tables m root"
    proof cases
      case 1
      then show ?thesis
        using new [of va] d by (intro tables_I [of m root va "Suc d"]) (simp_all del: tbl.simps)
    next
      case 2
      then have "tbl m root va' k = Some x"
        using tb [of k va'] none [of va'] by (auto split: if_splits)
      then show ?thesis
        using 2 by (intro tables_I)
    qed
  qed
  show "tbl m root va' k = Some x" if "k \<le> 2" "tbl (ram s) root va' k = Some x"
    using that tb [of k va'] none [of va'] by (auto split: if_splits)
  show "x = p \<or> tbl (ram s) root va' k = Some x" if "k \<le> 2" "tbl m root va' k = Some x"
    using that tb [of k va'] by (auto split: if_splits)
  show "lookup m root va' = lookup (ram s) root va'"
  proof (cases "same_path (Suc d) va va'")
    case True
    have a: "tbl (ram s) root va' 3 = None"
      using none [OF True] tbl_prefix [of "ram s" root va' 3 _ "Suc d"] d
      by (cases "tbl (ram s) root va' 3") (simp_all del: tbl.simps)
    moreover have "3 \<noteq> Suc d"
      using d by simp
    ultimately have "tbl m root va' 3 = None"
      using tb [of 3 va'] by (simp only: order_refl if_False simp_thms)
    note this a
    then show ?thesis
      using lookup_tbl [of m root va'] lookup_tbl [of "ram s" root va'] by (simp del: tbl.simps)
  next
    case False
    then show ?thesis
      using lookup_store_other [OF wf t] d by (simp add: m)
  qed
  have "kmem_inv (s\<lparr>ram := m\<rparr>) fl"
    using wf pt_wf_tbl(4) [OF wf t] d tal(1)
    by (intro kmem_inv_poke [of s fl "{t}"]) (auto simp: pt_wf_def m entry_same_outside unat_PX)
  moreover have "frame_ok s x \<and> x \<notin> set fl" if "x \<in> tables m root" for x
    using that wf p(1,2) by (auto simp: tabs pt_wf_def)
  moreover have "k = k' \<and> same_path k v v'"
    if "k \<le> 2" "k' \<le> 2" "tbl m root v k = Some x" "tbl m root v' k' = Some x" for v v' k k' x
  proof -
    have "tbl (ram s) root w j \<noteq> Some p" if "j \<le> 2" for w j
      using p(3) tables_I that by blast
    then show ?thesis
      using that tb [of k v] tb [of k' v'] pt_wf_unique [OF wf, of v k x v' k']
      by (auto split: if_splits simp: same_path_def)
  qed
  ultimately show "pt_wf (s\<lparr>ram := m\<rparr>) fl root"
    by (simp add: pt_wf_def frame_ok_def)
qed

text \<open>
  The entries above the last level are pointers to tables: they carry none of the permission
  bits that make an entry a leaf.
\<close>

definition table_ptrs :: "mem \<Rightarrow> u64 \<Rightarrow> bool" where
  "table_ptrs m root \<longleftrightarrow> (\<forall>va d t. d < 2 \<longrightarrow> tbl m root va d = Some t \<longrightarrow>
     ld64 m (entry t (PX (2 - d) va)) AND PTE_V \<noteq> 0 \<longrightarrow>
     ld64 m (entry t (PX (2 - d) va)) AND (PTE_R OR PTE_W OR PTE_X) = 0)"

lemma table_flags:
  "(PA2PTE p OR PTE_V) AND PTE_V \<noteq> 0" "(PA2PTE p OR PTE_V) AND (PTE_R OR PTE_W OR PTE_X) = 0"
proof -
  show "(PA2PTE p OR PTE_V) AND PTE_V \<noteq> 0"
    by (rule one_flag)
  have "bit (14 :: u64) n \<Longrightarrow> 0 < n \<and> n < 4" for n
    using bit_less [of "14" 4 n] by (cases n) (simp_all add: bit_0)
  then show "(PA2PTE p OR PTE_V) AND (PTE_R OR PTE_W OR PTE_X) = 0"
    by (intro bit_word_eqI) (force simp: PA2PTE_def bit_simps bit_1_iff)
qed

lemma table_ptrsD:
  "table_ptrs m root \<Longrightarrow> tbl m root va d = Some t \<Longrightarrow> d < 2 \<Longrightarrow> ld64 m (entry t (PX (2 - d) va)) AND PTE_V \<noteq> 0 \<Longrightarrow>
   ld64 m (entry t (PX (2 - d) va)) AND (PTE_R OR PTE_W OR PTE_X) = 0"
  unfolding table_ptrs_def by blast

text \<open>A change of memory that leaves the entries of the upper tables alone or makes them pointers.\<close>

lemma table_ptrs_step:
  assumes "table_ptrs m root" and "\<And>va d t. d < 2 \<Longrightarrow> tbl m' root va d = Some t \<Longrightarrow>
      tbl m root va d = Some t \<and> ld64 m' (entry t (PX (2 - d) va)) = ld64 m (entry t (PX (2 - d) va)) \<or>
      (\<exists>p. ld64 m' (entry t (PX (2 - d) va)) = PA2PTE p OR PTE_V) \<or> ld64 m' (entry t (PX (2 - d) va)) = 0"
  shows "table_ptrs m' root"
  unfolding table_ptrs_def
proof (intro allI impI)
  fix va d t
  assume h: "d < 2" "tbl m' root va d = Some t" "ld64 m' (entry t (PX (2 - d) va)) AND PTE_V \<noteq> 0"
  show "ld64 m' (entry t (PX (2 - d) va)) AND (PTE_R OR PTE_W OR PTE_X) = 0"
    using assms(2) [OF h(1,2)]
  proof (elim disjE exE)
    assume "tbl m root va d = Some t \<and> ld64 m' (entry t (PX (2 - d) va)) = ld64 m (entry t (PX (2 - d) va))"
    then show ?thesis
      using table_ptrsD [OF assms(1), of va d t] h by simp
  next
    fix p
    assume "ld64 m' (entry t (PX (2 - d) va)) = PA2PTE p OR PTE_V"
    then show ?thesis
      by (simp only: table_flags)
  qed simp
qed

lemma table_ptrs_outside:
  assumes "pt_wf s fl root" and "same_outside P (ram s) m" and "P \<inter> tables (ram s) root = {}" and "table_ptrs (ram s) root"
  shows "table_ptrs m root"
proof (rule table_ptrs_step [OF assms(4)], rule disjI1)
  fix va d t
  assume d: "d < 2" "tbl m root va d = Some t"
  then have t: "tbl (ram s) root va d = Some t"
    using tbl_outside [OF assms(1-3), of d va] by simp
  then have "t \<notin> P"
    using tables_I [OF t] assms(3) d(1) by auto
  then show "tbl (ram s) root va d = Some t \<and> ld64 m (entry t (PX (2 - d) va)) = ld64 (ram s) (entry t (PX (2 - d) va))"
    using t pt_wf_tbl(2) [OF assms(1) t] d(1) ld64_entry_outside [OF assms(2) _ _ unat_PX, of t] by simp
qed

lemma link_table_ptrs:
  assumes "pt_wf s fl root" and "tbl (ram s) root va d = Some t" and "d < 2"
    and "ld64 (ram s) (entry t (PX (2 - d) va)) AND PTE_V = 0"
    and "frame_ok s p" "p \<notin> set fl" "p \<notin> tables (ram s) root" "\<And>x. PGROUNDDOWN x = p \<Longrightarrow> ram s x = 0"
    and m: "m = st64 (ram s) (entry t (PX (2 - d) va)) (PA2PTE p OR PTE_V)" and "table_ptrs (ram s) root"
  shows "table_ptrs m root"
proof (rule table_ptrs_step [OF assms(10)])
  fix va' k x
  assume k: "k < 2" "tbl m root va' k = Some x"
  have al: "al_page p" "al_page t" "t \<noteq> p"
    using assms(5,7) pt_wf_tbl(2) [OF assms(1,2)] tables_I [OF assms(2)] assms(3) by (auto simp: frame_ok_def)
  have "x = p \<or> tbl (ram s) root va' k = Some x"
    using link_table(6) [OF assms(1-9), of k va' x] k by simp
  then show "tbl (ram s) root va' k = Some x \<and>
        ld64 m (entry x (PX (2 - k) va')) = ld64 (ram s) (entry x (PX (2 - k) va')) \<or>
      (\<exists>p. ld64 m (entry x (PX (2 - k) va')) = PA2PTE p OR PTE_V) \<or> ld64 m (entry x (PX (2 - k) va')) = 0"
  proof
    assume "x = p"
    then have "ld64 m (entry x (PX (2 - k) va')) = 0"
      using al by (simp add: m ld64_entry_upd unat_PX ld64_zero_page assms(8))
    then show ?thesis
      by simp
  next
    assume x: "tbl (ram s) root va' k = Some x"
    then have "al_page x"
      using pt_wf_tbl(2) [OF assms(1) x] k(1) by simp
    then have "ld64 m (entry x (PX (2 - k) va')) =
        (if t = x \<and> PX (2 - d) va = PX (2 - k) va' then PA2PTE p OR PTE_V else ld64 (ram s) (entry x (PX (2 - k) va')))"
      using al(2) unfolding m by (intro ld64_entry_upd unat_PX)
    then show ?thesis
      using x by auto
  qed
qed

text \<open>
  What \<open>walk\<close> may do to the state: it takes pages off the free list and makes them tables;
  nothing outside the tables and those pages is written.
\<close>

definition pt_ext :: "u64 \<Rightarrow> pmem \<Rightarrow> u64 list \<Rightarrow> pmem \<Rightarrow> u64 list \<Rightarrow> bool" where
  "pt_ext root s fl s' fl' \<longleftrightarrow> pt_wf s' fl' root \<and> set fl' \<subseteq> set fl \<and> ekernel s' = ekernel s \<and>
     (\<forall>va d t. d \<le> 2 \<longrightarrow> tbl (ram s) root va d = Some t \<longrightarrow> tbl (ram s') root va d = Some t) \<and>
     (table_ptrs (ram s) root \<longrightarrow> table_ptrs (ram s') root) \<and>
     tables (ram s) root \<subseteq> tables (ram s') root \<and> tables (ram s') root \<subseteq> tables (ram s) root \<union> set fl \<and>
     same_outside (tables (ram s) root \<union> set fl) (ram s) (ram s')"

lemma pt_ext_refl: "pt_wf s fl root \<Longrightarrow> pt_ext root s fl s fl"
  by (simp add: pt_ext_def)

lemma pt_ext_trans:
  assumes "pt_ext root s fl s1 fl1" and "pt_ext root s1 fl1 s2 fl2"
  shows "pt_ext root s fl s2 fl2"
proof -
  have sub: "tables (ram s1) root \<union> set fl1 \<subseteq> tables (ram s) root \<union> set fl"
    using assms(1) by (simp add: pt_ext_def) blast
  have "same_outside (tables (ram s) root \<union> set fl) (ram s1) (ram s2)"
    using assms(2) by (intro same_outside_mono [OF _ sub]) (simp add: pt_ext_def)
  then have "same_outside (tables (ram s) root \<union> set fl) (ram s) (ram s2)"
    using assms(1) by (simp add: pt_ext_def same_outside_def)
  moreover have "set fl2 \<subseteq> set fl" "tables (ram s) root \<subseteq> tables (ram s2) root"
      "tables (ram s2) root \<subseteq> tables (ram s) root \<union> set fl"
    using assms by (simp_all add: pt_ext_def) blast+
  ultimately show ?thesis
    using assms by (simp add: pt_ext_def)
qed

lemma walk_from_alloc:
  assumes "pt_wf s fl root" and "tbl (ram s) root va d = Some t" and "d + l = 2"
  shows "\<exists>pte s' fl'. walk_from l t va True s = (pte, s') \<and> pt_ext root s fl s' fl' \<and>
    (\<forall>va'. lookup (ram s') root va' = lookup (ram s) root va') \<and> length fl \<le> length fl' + l \<and>
    (if pte = 0 then length fl < l
     else \<exists>t'. tbl (ram s') root va 2 = Some t' \<and> pte = entry t' (PX 0 va))"
  using assms
proof (induction l arbitrary: s fl d t)
  case 0
  then have "entry t (PX 0 va) \<noteq> 0"
    using pt_wf_tbl(2,3) [of s fl root va 2 t] by (intro entry_nonzero unat_PX) simp_all
  with 0 show ?case
    by (auto intro!: exI [of _ fl] pt_ext_refl)
next
  case (Suc l)
  have d: "d < 2" "Suc l = 2 - d"
    using Suc.prems(3) by auto
  let ?e = "entry t (PX (2 - d) va)"
  show ?case
  proof (cases "ld64 (ram s) ?e AND PTE_V = 0")
    case False
    then have t1: "tbl (ram s) root va (Suc d) = Some (PTE2PA (ld64 (ram s) ?e))"
      using Suc.prems(2) by simp
    have w: "walk_from (Suc l) t va True s = walk_from l (PTE2PA (ld64 (ram s) ?e)) va True s"
      using False by (simp flip: d(2))
    have "Suc d + l = 2"
      using Suc.prems(3) by simp
    from Suc.IH [OF Suc.prems(1) t1 this] show ?thesis
      unfolding w by (elim exE conjE) (intro exI conjI, assumption+, simp_all split: if_splits)
  next
    case True
    obtain p s1 where a: "kalloc s = (p, s1)"
      by fastforce
    show ?thesis
    proof (cases "p = 0")
      case True
      then have "fl = []" "s1 = s"
        using a kalloc_some [of s "hd fl" "tl fl"] kalloc_none [of s] Suc.prems(1)
          kmem_inv_page [of s fl "hd fl"] by (cases fl; force simp: pt_wf_def)+
      then show ?thesis
        using a \<open>ld64 (ram s) ?e AND PTE_V = 0\<close> \<open>p = 0\<close> pt_ext_refl [OF Suc.prems(1)] by (auto simp flip: d(2))
    next
      case False
      obtain fl1 where f: "fl = p # fl1" "pt_wf s1 fl1 root" "frame_ok s1 p" "p \<notin> set fl1" "ekernel s1 = ekernel s"
          "ram s1 = (\<lambda>x. if PGROUNDDOWN x = p then 0 else ram s x)" "p \<notin> tables (ram s) root"
          "same_outside {p} (ram s) (ram s1)"
        by (rule kalloc_wf [OF Suc.prems(1) a False])
      have dis: "{p} \<inter> tables (ram s) root = {}"
        using f(7) by simp
      note look1 = lookup_outside [OF Suc.prems(1) f(8) dis] and tabs1 = tables_outside [OF Suc.prems(1) f(8) dis]
      have t: "al_page t" "t \<in> tables (ram s) root" "t \<noteq> p"
        using pt_wf_tbl(2) [OF Suc.prems(1,2)] tables_I [OF Suc.prems(2)] d(1) f(7) by auto
      have t1: "tbl (ram s1) root va d = Some t"
        using tbl_outside [OF Suc.prems(1) f(8) dis, of d va] Suc.prems(2) d(1) by simp
      have iv: "ld64 (ram s1) ?e AND PTE_V = 0"
        using True ld64_entry_outside [OF f(8) t(1) _ unat_PX] t(3) by simp
      let ?s2 = "s1\<lparr>ram := st64 (ram s1) ?e (PA2PTE p OR PTE_V)\<rparr>"
      have new: "p \<notin> tables (ram s1) root" and zero: "\<And>x. PGROUNDDOWN x = p \<Longrightarrow> ram s1 x = 0"
        using f(6,7) tabs1 by simp_all
      note link = link_table [OF f(2) t1 d(1) iv f(3,4) new zero refl]
      have "same_outside {t} (ram s1) (ram ?s2)"
        using t(1) by (simp add: entry_same_outside unat_PX)
      from same_outside_trans [OF f(8) this]
      have ext: "pt_ext root s fl ?s2 fl1"
        unfolding pt_ext_def using link(1,4) t(2) f(1,5) tabs1 link(5) tbl_outside [OF Suc.prems(1) f(8) dis]
          link_table_ptrs [OF f(2) t1 d(1) iv f(3,4) new zero refl] table_ptrs_outside [OF Suc.prems(1) f(8) dis]
        by (auto elim!: same_outside_mono)
      have "Suc d + l = 2"
        using Suc.prems(3) by simp
      moreover have "pt_wf ?s2 fl1 root" "tbl (ram ?s2) root va (Suc d) = Some p"
        using link(1,3) by simp_all
      ultimately obtain pte s' fl' where w: "walk_from l p va True ?s2 = (pte, s')" "pt_ext root ?s2 fl1 s' fl'"
          "\<forall>va'. lookup (ram s') root va' = lookup (ram ?s2) root va'" "length fl1 \<le> length fl' + l"
          "if pte = 0 then length fl1 < l
           else \<exists>t'. tbl (ram s') root va 2 = Some t' \<and> pte = entry t' (PX 0 va)"
        using Suc.IH [of ?s2 fl1 "Suc d" p] by blast
      have "walk_from (Suc l) t va True s = (pte, s')"
        using w(1) a True False by (simp flip: d(2))
      then show ?thesis
        using pt_ext_trans [OF ext w(2)] w(3-5) link(2) look1 f(1)
        by (intro exI [of _ pte] exI [of _ s'] exI [of _ fl']) (auto split: if_splits)
    qed
  qed
qed

text \<open>
  \<open>walk\<close> with allocation finds or makes the leaf entry of \<open>va\<close> without changing a translation;
  it fails only when fewer than two pages are free.
\<close>

lemma walk_alloc:
  assumes "pt_wf s fl root"
  obtains pte s' fl' where "walk root va True s = (pte, s')" "pt_ext root s fl s' fl'"
    "\<And>va'. lookup (ram s') root va' = lookup (ram s) root va'" "length fl \<le> length fl' + 2"
    "pte = 0 \<Longrightarrow> length fl < 2"
    "pte \<noteq> 0 \<Longrightarrow> \<exists>t. tbl (ram s') root va 2 = Some t \<and> pte = entry t (PX 0 va)"
  using walk_from_alloc [OF assms, of va 0 root 2] that by (auto simp: walk_def split: if_splits)

text \<open>Storing a leaf entry updates the abstract page table at that page.\<close>

lemma same_page_sym: "same_page va va' \<longleftrightarrow> same_page va' va"
  by (auto simp: same_page_def same_path_def)

lemma store_leaf:
  assumes wf: "pt_wf s fl root" and t: "tbl (ram s) root va 2 = Some t"
    and m: "m = st64 (ram s) (entry t (PX 0 va)) v"
  shows "pt_wf (s\<lparr>ram := m\<rparr>) fl root" "tables m root = tables (ram s) root"
    "d \<le> 2 \<Longrightarrow> tbl m root va' d = tbl (ram s) root va' d"
    "lookup m root va' =
       (if same_page va va' then if v AND PTE_V \<noteq> 0 then Some v else None else lookup (ram s) root va')"
proof -
  have tal: "al_page t" "t \<notin> set fl"
    using pt_wf_tbl [OF wf t] by auto
  have tb: "tbl m root va' d = tbl (ram s) root va' d" if "d \<le> 2" for va' d
    using tbl_store_above [OF wf t, of d va' v] that by (simp add: m)
  show "d \<le> 2 \<Longrightarrow> tbl m root va' d = tbl (ram s) root va' d"
    by (rule tb)
  show tabs: "tables m root = tables (ram s) root"
    unfolding tables_def using tb by (metis (no_types, lifting))
  have "kmem_inv (s\<lparr>ram := m\<rparr>) fl"
    using wf tal by (intro kmem_inv_poke [of s fl "{t}"]) (auto simp: pt_wf_def m entry_same_outside unat_PX)
  moreover have "frame_ok s x \<and> x \<notin> set fl" if "x \<in> tables m root" for x
    using that wf by (auto simp: tabs pt_wf_def)
  moreover have "k = k' \<and> same_path k w w'"
    if "k \<le> 2" "k' \<le> 2" "tbl m root w k = Some x" "tbl m root w' k' = Some x" for w w' k k' x
    using that tb [of k w] tb [of k' w'] pt_wf_unique [OF wf, of w k x w' k'] by auto
  ultimately show "pt_wf (s\<lparr>ram := m\<rparr>) fl root"
    by (simp add: pt_wf_def frame_ok_def)
  show "lookup m root va' =
      (if same_page va va' then if v AND PTE_V \<noteq> 0 then Some v else None else lookup (ram s) root va')"
  proof (cases "same_page va va'")
    case True
    then have "same_path 2 va va'" "PX 0 va = PX 0 va'"
      by (auto simp: same_page_def numeral_3_eq_3 numeral_2_eq_2 same_path_Suc)
    then have "tbl m root va' 2 = Some t" "ld64 m (entry t (PX 0 va')) = v"
      using tbl_same_path [of 2 va va' m root] tb [of 2 va] t by (simp_all add: m)
    then show ?thesis
      using True by (simp add: lookup_def)
  next
    case False
    then show ?thesis
      using lookup_store_other [OF wf t, of va' v]
      by (simp add: m same_page_def numeral_3_eq_3 numeral_2_eq_2)
  qed
qed


lemma store_leaf_ptrs:
  assumes "pt_wf s fl root" and "tbl (ram s) root va 2 = Some t"
    and m: "m = st64 (ram s) (entry t (PX 0 va)) v" and "table_ptrs (ram s) root"
  shows "table_ptrs m root"
proof (rule table_ptrs_step [OF assms(4)], rule disjI1)
  fix va' d x
  assume d: "d < 2" "tbl m root va' d = Some x"
  then have x: "tbl (ram s) root va' d = Some x"
    using store_leaf(3) [OF assms(1-3), of d va'] by simp
  then have "x \<noteq> t" "al_page x" "al_page t"
    using pt_wf_unique [OF assms(1) x, of va 2] pt_wf_tbl(2) [OF assms(1) x] pt_wf_tbl(2) [OF assms(1,2)] assms(2) d(1) by auto
  then show "tbl (ram s) root va' d = Some x \<and> ld64 m (entry x (PX (2 - d) va')) = ld64 (ram s) (entry x (PX (2 - d) va'))"
    using x by (simp add: m ld64_entry_upd unat_PX)
qed

section \<open>\<open>vmmap\<close>\<close>

definition leaf :: "u64 \<Rightarrow> u8 \<Rightarrow> u64" where
  "leaf pa perm = PA2PTE pa OR ucast perm OR PTE_V"

lemma leaf_valid: "leaf pa perm AND PTE_V \<noteq> 0"
proof -
  have "leaf pa perm AND PTE_V = 1"
    by (rule bit_word_eqI) (auto simp: leaf_def PA2PTE_def bit_simps bit_1_iff)
  then show ?thesis
    by simp
qed

text \<open>A leaf entry gives back the frame it was made of.\<close>

lemma PTE2PA_leaf: "al_page pa \<Longrightarrow> unat pa < 2 ^ 56 \<Longrightarrow> PTE2PA (leaf pa perm) = pa"
proof -
  assume h: "al_page pa" "unat pa < 2 ^ 56"
  have "unat (ucast perm OR PTE_V) < 2 ^ 10"
  proof -
    have "ucast perm OR PTE_V = take_bit 10 (ucast perm OR PTE_V)"
      by (rule bit_word_eqI) (auto simp: bit_simps bit_1_iff dest: bit_imp_le_length)
    then show ?thesis
      by (metis take_bit_nat_less_exp unsigned_take_bit_eq)
  qed
  then show ?thesis
    using PTE2PA_entry [OF h] by (simp add: leaf_def or.assoc)
qed

text \<open>The page \<open>i\<close> pages after \<open>a\<close>.\<close>

definition nth_page :: "u64 \<Rightarrow> nat \<Rightarrow> u64" where
  "nth_page a i = a + of_nat (4096 * i)"

lemma nth_page_0 [simp]: "nth_page a 0 = a"
  by (simp add: nth_page_def)

lemma nth_page_Suc: "nth_page a (Suc i) = nth_page (a + PGSIZE) i"
  by (simp add: nth_page_def algebra_simps)

lemma all_less_Suc: "(\<forall>i < Suc n. P i) \<longleftrightarrow> P 0 \<and> (\<forall>i < n. P (Suc i))"
  by (auto simp: less_Suc_eq_0_disj)

lemma map_page:
  assumes wf: "pt_wf s fl root" and w: "walk root va True s = (pte, s1)" and "pte \<noteq> 0"
  shows "ld64 (ram s1) pte AND PTE_V \<noteq> 0 \<longleftrightarrow> lookup (ram s) root va \<noteq> None" (is ?A)
    and "\<exists>fl'. pt_ext root s fl (s1\<lparr>ram := st64 (ram s1) pte (leaf pa perm)\<rparr>) fl' \<and> length fl \<le> length fl' + 2 \<and>
      (\<forall>va'. lookup (st64 (ram s1) pte (leaf pa perm)) root va' =
        (if same_page va va' then Some (leaf pa perm) else lookup (ram s) root va'))" (is ?B)
proof -
  obtain fl1 t where e: "pt_ext root s fl s1 fl1" "\<And>va'. lookup (ram s1) root va' = lookup (ram s) root va'"
      "length fl \<le> length fl1 + 2" "tbl (ram s1) root va 2 = Some t" "pte = entry t (PX 0 va)"
    using walk_alloc [OF wf, of va] w \<open>pte \<noteq> 0\<close> by (metis prod.inject)
  have wf1: "pt_wf s1 fl1 root"
    using e(1) by (simp add: pt_ext_def)
  show ?A
    using e(4,5) unfolding e(2) [symmetric] by (simp add: lookup_def)
  have t: "al_page t" "t \<in> tables (ram s1) root"
    using pt_wf_tbl(2) [OF wf1 e(4)] tables_I [OF e(4)] by simp_all
  note sl = store_leaf [OF wf1 e(4) refl, where v = "leaf pa perm", folded e(5)]
  have "same_outside (tables (ram s1) root \<union> set fl1) (ram s1) (st64 (ram s1) pte (leaf pa perm))"
    using t(2) unfolding e(5) by (intro same_outside_mono [OF entry_same_outside [OF t(1) unat_PX]]) simp
  then have "pt_ext root s1 fl1 (s1\<lparr>ram := st64 (ram s1) pte (leaf pa perm)\<rparr>) fl1"
    using sl(1-3) store_leaf_ptrs [OF wf1 e(4) refl, where v = "leaf pa perm", folded e(5)] by (simp add: pt_ext_def)
  from pt_ext_trans [OF e(1) this] show ?B
    using e(2,3) sl(4) leaf_valid by (intro exI [of _ fl1]) simp
qed

lemma vmmap_step:
  "vmmap_loop (Suc fuel) root va vl pa perm s =
     (let (pte, s) = walk root va True s in
      if pte = 0 then Inr (False, s)
      else if ld64 (ram s) pte AND PTE_V \<noteq> 0 then Inl (Panic ''map: remap'')
      else if va = vl then Inr (True, s\<lparr>ram := st64 (ram s) pte (leaf pa perm)\<rparr>)
      else vmmap_loop fuel root (va + PGSIZE) vl (pa + PGSIZE) perm (s\<lparr>ram := st64 (ram s) pte (leaf pa perm)\<rparr>))"
  by (simp only: vmmap_loop.simps leaf_def Let_def)

lemma vmmap_loop_success:
  assumes "pt_wf s fl root" and "vmmap_loop fuel root va vl pa perm s = Inr (True, s')"
    and "vl = nth_page va n" and "n < 4503599627370496"
  shows "\<exists>fl'. pt_ext root s fl s' fl' \<and>
    (\<forall>i < Suc n. lookup (ram s) root (nth_page va i) = None \<and>
      lookup (ram s') root (nth_page va i) = Some (leaf (nth_page pa i) perm)) \<and>
    (\<forall>va'. (\<forall>i < Suc n. \<not> same_page (nth_page va i) va') \<longrightarrow> lookup (ram s') root va' = lookup (ram s) root va')"
  using assms
proof (induction n arbitrary: fuel va pa s fl)
  case 0
  then obtain fuel' pte s1 where f: "fuel = Suc fuel'" "walk root va True s = (pte, s1)"
    by (cases fuel; cases "walk root va True s") auto
  then have *: "pte \<noteq> 0" "\<not> ld64 (ram s1) pte AND PTE_V \<noteq> 0" "s' = s1\<lparr>ram := st64 (ram s1) pte (leaf pa perm)\<rparr>"
    using 0 by (auto simp: vmmap_step simp del: vmmap_loop.simps split: if_splits)
  show ?case
    using map_page(2) [OF 0(1) f(2) *(1), of pa perm] map_page(1) [OF 0(1) f(2) *(1)] *(2,3)
    by (auto simp: same_page_def)
next
  case (Suc n)
  obtain fuel' pte s1 where f: "fuel = Suc fuel'" "walk root va True s = (pte, s1)"
    using Suc.prems(2) by (cases fuel; cases "walk root va True s") auto
  let ?s2 = "s1\<lparr>ram := st64 (ram s1) pte (leaf pa perm)\<rparr>"
  have "unat (of_nat (4096 * Suc n) :: u64) = 4096 * Suc n"
    using Suc.prems(4) by (intro unat_of_nat64) simp
  then have "va \<noteq> vl"
    using Suc.prems(3) unfolding nth_page_def by (metis add_cancel_right_right mult_is_0 nat.simps(3) unsigned_0 zero_neq_numeral)
  then have *: "pte \<noteq> 0" "\<not> ld64 (ram s1) pte AND PTE_V \<noteq> 0"
      "vmmap_loop fuel' root (va + PGSIZE) vl (pa + PGSIZE) perm ?s2 = Inr (True, s')"
    using Suc.prems(2) f by (auto simp: vmmap_step simp del: vmmap_loop.simps split: if_splits)
  have un: "lookup (ram s) root va = None"
    using map_page(1) [OF Suc.prems(1) f(2) *(1)] *(2) by simp
  obtain fl1 where e: "pt_ext root s fl ?s2 fl1" and "\<forall>va'. lookup (st64 (ram s1) pte (leaf pa perm)) root va' =
        (if same_page va va' then Some (leaf pa perm) else lookup (ram s) root va')"
    using map_page(2) [OF Suc.prems(1) f(2) *(1), of pa perm] by blast
  then have l: "\<And>va'. lookup (ram ?s2) root va' =
      (if same_page va va' then Some (leaf pa perm) else lookup (ram s) root va')"
    by simp
  have "\<exists>fl'. pt_ext root ?s2 fl1 s' fl' \<and>
    (\<forall>i < Suc n. lookup (ram ?s2) root (nth_page (va + PGSIZE) i) = None \<and>
      lookup (ram s') root (nth_page (va + PGSIZE) i) = Some (leaf (nth_page (pa + PGSIZE) i) perm)) \<and>
    (\<forall>va'. (\<forall>i < Suc n. \<not> same_page (nth_page (va + PGSIZE) i) va') \<longrightarrow>
      lookup (ram s') root va' = lookup (ram ?s2) root va')"
    using Suc.prems(3,4) e by (intro Suc.IH [OF _ *(3)]) (simp_all add: pt_ext_def nth_page_Suc)
  then obtain fl' where ih: "pt_ext root ?s2 fl1 s' fl'"
      "\<And>i. i < Suc n \<Longrightarrow> lookup (ram ?s2) root (nth_page va (Suc i)) = None"
      "\<And>i. i < Suc n \<Longrightarrow> lookup (ram s') root (nth_page va (Suc i)) = Some (leaf (nth_page pa (Suc i)) perm)"
      "\<And>va'. \<forall>i < Suc n. \<not> same_page (nth_page va (Suc i)) va' \<Longrightarrow> lookup (ram s') root va' = lookup (ram ?s2) root va'"
    by (auto simp: nth_page_Suc)
  have other: "\<not> same_page va (nth_page va (Suc i))" "lookup (ram s) root (nth_page va (Suc i)) = None"
    if "i < Suc n" for i
    using ih(2) [OF that] by (auto simp only: l split: if_splits)
  have "\<forall>i < Suc n. \<not> same_page (nth_page va (Suc i)) va"
    using other(1) same_page_sym by blast
  from ih(4) [OF this] have "lookup (ram s') root va = Some (leaf pa perm)"
    unfolding l by (simp add: same_page_def)
  moreover have "lookup (ram s') root va' = lookup (ram s) root va'"
    if "\<forall>i < Suc (Suc n). \<not> same_page (nth_page va i) va'" for va'
    using that ih(4) [of va'] by (simp only: all_less_Suc [of "Suc n"] nth_page_0 l) simp
  ultimately show ?case
    using pt_ext_trans [OF e ih(1)] un ih(3) other(2)
    by (intro exI [of _ fl']) (simp only: all_less_Suc [of "Suc n"] nth_page_0, blast)
qed

lemma bit_PX: "m < 9 \<Longrightarrow> bit (PX l va) m \<longleftrightarrow> bit va (12 + 9 * l + m)"
proof -
  assume "m < 9"
  then have "bit (0x1FF :: u64) m"
    using bit_mask_iff [of 9 m, where ?'a = "64 word"] by (simp add: mask_eq_exp_minus_1 possible_bit_def)
  then show ?thesis
    by (simp add: PX_def bit_simps add_ac)
qed

lemma same_page_eq:
  assumes "same_page a b" and "al_page a" and "al_page b" and "unat a < 2 ^ 39" and "unat b < 2 ^ 39"
  shows "a = b"
proof (rule bit_word_eqI)
  fix n
  assume "n < LENGTH(64)"
  show "bit a n = bit b n"
  proof (cases "12 \<le> n \<and> n < 39")
    case True
    define l where "l = (n - 12) div 9"
    define m where "m = (n - 12) mod 9"
    have "n - 12 < 27" "n = 12 + (n - 12)"
      using True by arith+
    then have l: "n = 12 + 9 * l + m" "m < 9" "l < 3"
      by (simp_all add: l_def m_def)
    then have "2 - l < 3" "2 - (2 - l) = l"
      by simp_all
    then have "PX l a = PX l b"
      using assms(1) unfolding same_page_def same_path_def by (metis l(3))
    then show ?thesis
      using bit_PX [OF l(2), of l] l(1) by metis
  next
    case False
    then show ?thesis
      using bit_al_page [OF assms(2), of n] bit_al_page [OF assms(3), of n] bit_less [OF assms(4), of n]
        bit_less [OF assms(5), of n] by (metis not_le)
  qed
qed

lemma unat_nth_page: "unat a + 4096 * i < 18446744073709551616 \<Longrightarrow> unat (nth_page a i) = unat a + 4096 * i"
proof -
  assume h: "unat a + 4096 * i < 18446744073709551616"
  then have "unat (of_nat (4096 * i) :: u64) = 4096 * i"
    by (intro unat_of_nat64) simp
  then show ?thesis
    using h unat_add64_small [of a "of_nat (4096 * i)"] by (simp only: nth_page_def)
qed

lemma nth_page_distinct:
  assumes "al_page va" and "unat va + 4096 * n \<le> 2 ^ 39" and "i < j" and "j < n"
  shows "\<not> same_page (nth_page va i) (nth_page va j)"
proof
  assume sp: "same_page (nth_page va i) (nth_page va j)"
  have u: "unat (nth_page va i) = unat va + 4096 * i" "unat (nth_page va j) = unat va + 4096 * j"
    using assms(2-4) by (simp_all add: unat_nth_page)
  then have "al_page (nth_page va i)" "al_page (nth_page va j)" "unat (nth_page va i) < 2 ^ 39" "unat (nth_page va j) < 2 ^ 39"
    using assms by (simp_all add: al_page_def)
  with sp have "nth_page va i = nth_page va j"
    by (rule same_page_eq)
  with u assms(3) show False
    by simp
qed

lemma vmmap_loop_total:
  assumes "pt_wf s fl root" and "Suc n \<le> fuel" and "2 * Suc n \<le> length fl" and "vl = nth_page va n"
    and "\<forall>i < Suc n. lookup (ram s) root (nth_page va i) = None"
    and "\<forall>j < Suc n. \<forall>i < j. \<not> same_page (nth_page va i) (nth_page va j)"
  shows "\<exists>s'. vmmap_loop fuel root va vl pa perm s = Inr (True, s')"
  using assms
proof (induction n arbitrary: fuel va pa s fl)
  case (0 fuel va pa s fl)
  then obtain fuel' pte s1 where f: "fuel = Suc fuel'" "walk root va True s = (pte, s1)"
    by (cases fuel; cases "walk root va True s") auto
  have "pte \<noteq> 0"
    using walk_alloc [OF 0(1), of va] f(2) 0(3) by (metis One_nat_def Suc_1 mult.right_neutral not_less prod.inject)
  then show ?case
    using map_page(1) [OF 0(1) f(2)] 0(4,5) f by (simp add: vmmap_step del: vmmap_loop.simps)
next
  case (Suc n)
  then obtain fuel' pte s1 where f: "fuel = Suc fuel'" "walk root va True s = (pte, s1)"
    by (cases fuel; cases "walk root va True s") auto
  have "\<not> length fl < 2"
    using Suc.prems(3) by simp
  then have pte: "pte \<noteq> 0"
    using walk_alloc [OF Suc.prems(1), of va] f(2) by (metis prod.inject)
  let ?s2 = "s1\<lparr>ram := st64 (ram s1) pte (leaf pa perm)\<rparr>"
  have un: "\<not> ld64 (ram s1) pte AND PTE_V \<noteq> 0"
    using map_page(1) [OF Suc.prems(1) f(2) pte] Suc.prems(5) by (metis nth_page_0 zero_less_Suc)
  obtain fl1 where e0: "pt_ext root s fl ?s2 fl1" "length fl \<le> length fl1 + 2"
      "\<forall>va'. lookup (st64 (ram s1) pte (leaf pa perm)) root va' =
        (if same_page va va' then Some (leaf pa perm) else lookup (ram s) root va')"
    using map_page(2) [OF Suc.prems(1) f(2) pte, of pa perm] by blast
  then have e: "pt_wf ?s2 fl1 root" "\<And>va'. lookup (ram ?s2) root va' =
        (if same_page va va' then Some (leaf pa perm) else lookup (ram s) root va')"
    by (simp_all add: pt_ext_def)
  have "\<exists>s'. vmmap_loop fuel' root (va + PGSIZE) vl (pa + PGSIZE) perm ?s2 = Inr (True, s')"
  proof (rule Suc.IH [OF e(1)])
    show "\<forall>i < Suc n. lookup (ram ?s2) root (nth_page (va + PGSIZE) i) = None"
    proof (intro allI impI)
      fix i
      assume "i < Suc n"
      then have "\<not> same_page (nth_page va 0) (nth_page va (Suc i))" "lookup (ram s) root (nth_page va (Suc i)) = None"
        using Suc.prems(5,6) by (metis Suc_less_eq zero_less_Suc)+
      then show "lookup (ram ?s2) root (nth_page (va + PGSIZE) i) = None"
        unfolding e(2) nth_page_Suc by simp
    qed
    show "\<forall>j < Suc n. \<forall>i < j. \<not> same_page (nth_page (va + PGSIZE) i) (nth_page (va + PGSIZE) j)"
      using Suc.prems(6) unfolding nth_page_Suc [symmetric] by (metis Suc_less_eq)
  qed (use Suc.prems(2-4) f(1) e0(2) in \<open>simp_all add: nth_page_Suc\<close>)
  then show ?case
    using f pte un by (auto simp add: vmmap_step simp del: vmmap_loop.simps)
qed

lemma vmmap_range:
  assumes "unat va mod 4096 = 0" and "unat sz mod 4096 = 0" and "sz \<noteq> 0"
  obtains n where "unat sz div 4096 = Suc n" "n < 4503599627370496" "va + sz - PGSIZE = nth_page va n"
    "\<And>perm pa s. vmmap root va sz pa perm s = vmmap_loop (Suc n) root va (nth_page va n) pa perm s"
proof -
  have sz: "unat sz = 4096 * (unat sz div 4096)"
    using assms(2) by (simp add: mod_0_imp_dvd)
  with assms(3) obtain n where n: "unat sz div 4096 = Suc n"
    by (metis mult_0_right not0_implies_Suc unat_eq_zero)
  have "4096 * Suc n < 4096 * 4503599627370496"
    using sz n unat_lt_pow64 [of sz] by simp
  then have small: "Suc n < 4503599627370496"
    by (simp only: nat_mult_less_cancel1)
  have "sz = of_nat (4096 * Suc n)"
    using sz n by (metis of_nat_unat ucast_id)
  then have "va + sz - PGSIZE = nth_page va n"
    by (simp add: nth_page_def algebra_simps)
  with n small that [of n] assms show thesis
    by (simp add: vmmap_def del: vmmap_loop.simps)
qed

text \<open>
  C14: when \<open>vmmap\<close> succeeds, the abstract page table has been extended by exactly the
  requested pages: none of them was mapped before, page \<open>i\<close> of the range now has the leaf entry
  for frame \<open>i\<close> with the given permissions, no other address translates differently, the page
  table is still well-formed, and only its tables and pages taken off the free list were
  written.
\<close>

theorem vmmap_correct:
  assumes "pt_wf s fl root" and "vmmap root va sz pa perm s = Inr (True, s')"
  shows "\<exists>fl'. pt_wf s' fl' root \<and> same_outside (tables (ram s) root \<union> set fl) (ram s) (ram s') \<and>
    (\<forall>i < unat sz div 4096. lookup (ram s) root (nth_page va i) = None \<and>
      lookup (ram s') root (nth_page va i) = Some (leaf (nth_page pa i) perm)) \<and>
    (\<forall>va'. (\<forall>i < unat sz div 4096. \<not> same_page (nth_page va i) va') \<longrightarrow>
      lookup (ram s') root va' = lookup (ram s) root va')"
proof -
  have "unat va mod 4096 = 0" "unat sz mod 4096 = 0" "sz \<noteq> 0"
    using assms(2) by (auto simp: vmmap_def split: if_splits)
  from vmmap_range [OF this, of root] obtain n where n: "unat sz div 4096 = Suc n" "n < 4503599627370496"
      "vmmap root va sz pa perm s = vmmap_loop (Suc n) root va (nth_page va n) pa perm s"
    by metis
  have "vmmap_loop (Suc n) root va (nth_page va n) pa perm s = Inr (True, s')"
    using assms(2) unfolding n(3) .
  from vmmap_loop_success [OF assms(1) this refl n(2)] show ?thesis
    unfolding n(1) pt_ext_def by blast
qed

text \<open>
  C22: \<open>vmmap\<close> returns and succeeds whenever the range is aligned and lies in the 39-bit address
  space, none of its pages is mapped, and two pages per mapped page are free for new tables.
\<close>

theorem vmmap_succeeds:
  assumes "pt_wf s fl root" and "al_page va" and "unat sz mod 4096 = 0" and "sz \<noteq> 0"
    and "unat va + unat sz \<le> 2 ^ 39" and "2 * (unat sz div 4096) \<le> length fl"
    and "\<forall>i < unat sz div 4096. lookup (ram s) root (nth_page va i) = None"
  shows "\<exists>s'. vmmap root va sz pa perm s = Inr (True, s')"
proof -
  have al: "unat va mod 4096 = 0"
    using assms(2) by (simp add: al_page_def)
  from vmmap_range [OF this assms(3,4), of root] obtain n where n: "unat sz div 4096 = Suc n"
      "vmmap root va sz pa perm s = vmmap_loop (Suc n) root va (nth_page va n) pa perm s"
    by metis
  have "4096 * Suc n \<le> unat sz"
    using n(1) by (metis times_div_less_eq_dividend)
  then have "\<forall>j < Suc n. \<forall>i < j. \<not> same_page (nth_page va i) (nth_page va j)"
    using nth_page_distinct [OF assms(2), of "Suc n"] assms(5) by auto
  then show ?thesis
    using vmmap_loop_total [OF assms(1), of n "Suc n"] assms(6,7) unfolding n by blast
qed


section \<open>New page tables\<close>

lemma empty_table:
  assumes "kmem_inv s fl" and "frame_ok s root" and "root \<notin> set fl"
    and "\<And>x. PGROUNDDOWN x = root \<Longrightarrow> ram s x = 0"
  shows "pt_wf s fl root" "lookup (ram s) root va = None" "tables (ram s) root = {root}"
proof -
  have al: "al_page root"
    using assms(2) by (rule frame_okD)
  have z: "ld64 (ram s) (entry root i) = 0" if "unat i < 512" for i
    using ld64_zero_page [OF al assms(4) that] .
  have t1: "tbl (ram s) root va (Suc d) = None" for va d
    by (induction d) (simp_all add: z unat_PX)
  then have t: "tbl (ram s) root va d = Some t \<Longrightarrow> d = 0 \<and> t = root" for va d t
    by (cases d) auto
  then show tabs: "tables (ram s) root = {root}"
    by (auto simp: tables_def intro!: exI [of _ 0])
  show "pt_wf s fl root"
    unfolding pt_wf_def tabs using assms(1-3) by (auto dest!: t simp: same_path_def)
  show "lookup (ram s) root va = None"
    using t1 [of va 1] by (simp add: lookup_def numeral_2_eq_2)
qed

text \<open>C24: \<open>uvmcreate\<close> returns 0 only when no page is free; otherwise the page it returns is a
  well-formed page table that maps no address.\<close>

theorem uvmcreate_empty:
  assumes "kmem_inv s fl" and "uvmcreate s = (root, s')"
  shows "(root = 0 \<longleftrightarrow> fl = []) \<and> (root \<noteq> 0 \<longrightarrow> pt_wf s' (tl fl) root \<and> (\<forall>va. lookup (ram s') root va = None))"
proof (cases fl)
  case Nil
  then show ?thesis
    using assms kalloc_none [of s] by (simp add: uvmcreate_def)
next
  case (Cons p ps)
  then obtain s1 where k: "kalloc s = (p, s1)" "kmem_inv s1 ps"
      "ram s1 = (\<lambda>x. if PGROUNDDOWN x = p then 0 else ram s x)" "\<forall>q. frame_ok s1 q = frame_ok s q"
    using kalloc_some [of s p ps] assms(1) by blast
  have p: "frame_ok s p" "p \<noteq> 0" "p \<notin> set ps"
    using kmem_inv_page [OF assms(1), of p] assms(1) Cons by (auto simp: kmem_inv_def)
  then have r: "root = p" "s' = s1"
    using assms(2) k(1) by (auto simp: uvmcreate_def split: if_splits)
  have "pt_wf s1 ps p" "\<And>va. lookup (ram s1) p va = None"
    using empty_table [OF k(2), of p] p k(3,4) by simp_all
  then show ?thesis
    using Cons p(2) r by simp
qed

text \<open>A machine with three free pages, used by the witnesses.\<close>

definition three_pages :: pmem where
  "three_pages = \<lparr>ram = st64 (st64 (\<lambda>_. 0) 0x80300000 0x80400000) 0x80400000 0x80500000,
     memlist = 0x80300000, ekernel = 0x80200000, kcaches = replicate 9 0\<rparr>"

lemma three_pages_inv: "kmem_inv three_pages [0x80300000, 0x80400000, 0x80500000]"
  by (simp add: kmem_inv_def three_pages_def frame_ok_def al_page_def al8_def)

lemma uvmcreate_empty_witness:
  "\<exists>s'. uvmcreate three_pages = (0x80300000, s') \<and> pt_wf s' [0x80400000, 0x80500000] 0x80300000 \<and>
    lookup (ram s') 0x80300000 0x1000 = None"
proof -
  obtain s' where s': "uvmcreate three_pages = (0x80300000, s')"
    using kalloc_some [OF three_pages_inv] by (auto simp: uvmcreate_def)
  show ?thesis
    using uvmcreate_empty [OF three_pages_inv s'] s' by simp
qed

lemma three_pages_table:
  obtains s1 where "uvmcreate three_pages = (0x80300000, s1)" "pt_wf s1 [0x80400000, 0x80500000] 0x80300000"
    "\<And>va. lookup (ram s1) 0x80300000 va = None" "tables (ram s1) 0x80300000 = {0x80300000}"
    "\<And>x. PGROUNDDOWN x = 0x80900000 \<Longrightarrow> ram s1 x = 0"
proof -
  obtain s1 where k: "kalloc three_pages = (0x80300000, s1)" "kmem_inv s1 [0x80400000, 0x80500000]"
      "ram s1 = (\<lambda>x. if PGROUNDDOWN x = 0x80300000 then 0 else ram three_pages x)"
      "\<forall>q. frame_ok s1 q = frame_ok three_pages q"
    using kalloc_some [OF three_pages_inv] by blast
  have "frame_ok s1 0x80300000"
    unfolding k(4) [rule_format] by (simp add: frame_ok_def three_pages_def al_page_def)
  note e = empty_table [OF k(2) this]
  have z: "same_outside ({0x80300000} \<union> {0x80400000}) (\<lambda>_. 0) (ram three_pages)"
    unfolding three_pages_def pmem.simps
    by (intro same_outside_trans [OF same_outside_st64_0 same_outside_st64_0]) (simp_all add: al_page_def)
  show thesis
  proof (rule that [of s1])
    show "ram s1 x = 0" if "PGROUNDDOWN x = 0x80900000" for x
      using z that by (simp add: k(3) same_outside_def)
  qed (use k e in \<open>simp_all add: uvmcreate_def\<close>)
qed

lemma vmmap_succeeds_witness:
  "\<exists>s1 s'. uvmcreate three_pages = (0x80300000, s1) \<and> vmmap 0x80300000 0x1000 4096 0x87000000 6 s1 = Inr (True, s')"
proof -
  obtain s1 where s1: "uvmcreate three_pages = (0x80300000, s1)" "pt_wf s1 [0x80400000, 0x80500000] 0x80300000"
      "\<And>va. lookup (ram s1) 0x80300000 va = None"
    using three_pages_table by metis
  have "\<exists>s'. vmmap 0x80300000 0x1000 4096 0x87000000 6 s1 = Inr (True, s')"
    by (rule vmmap_succeeds [OF s1(2)]) (simp_all add: al_page_def s1(3))
  with s1(1) show ?thesis
    by blast
qed

lemma vmmap_correct_witness:
  "\<exists>s1 s'. uvmcreate three_pages = (0x80300000, s1) \<and> vmmap 0x80300000 0x1000 4096 0x87000000 6 s1 = Inr (True, s') \<and>
    lookup (ram s') 0x80300000 0x1000 = Some (leaf 0x87000000 6) \<and> lookup (ram s') 0x80300000 0x5000 = None"
proof -
  obtain s1 where s1: "uvmcreate three_pages = (0x80300000, s1)" "pt_wf s1 [0x80400000, 0x80500000] 0x80300000"
      "\<And>va. lookup (ram s1) 0x80300000 va = None"
    using three_pages_table by metis
  have "\<exists>s'. vmmap_loop (Suc 0) 0x80300000 0x1000 (nth_page 0x1000 0) 0x87000000 6 s1 = Inr (True, s')"
    by (rule vmmap_loop_total [OF s1(2), of 0]) (simp_all add: s1(3))
  then obtain s' where s': "vmmap 0x80300000 0x1000 4096 0x87000000 6 s1 = Inr (True, s')"
    by (auto simp: vmmap_def)
  have "\<not> same_page 0x1000 0x5000"
    by (auto simp: al_page_def dest: same_page_eq)
  then show ?thesis
    using vmmap_correct [OF s1(2) s'] s1(1,3) s' by auto
qed


section \<open>Kernel mappings in a process page table\<close>

lemma uvmmapkernel_loop_entries:
  assumes "al_page k" and "al_page u" and "k \<noteq> u" and "set is \<subseteq> {0..<512}" and "distinct is" and "unat j < 512"
  shows "ld64 (ram (uvmmapkernel_loop is k u s)) (entry u j) =
      (if unat j \<in> set is \<and> ld64 (ram s) (entry k j) AND PTE_V \<noteq> 0 then ld64 (ram s) (entry k j)
       else ld64 (ram s) (entry u j)) \<and>
    same_outside {u} (ram s) (ram (uvmmapkernel_loop is k u s)) \<and>
    uvmmapkernel_loop is k u s = s\<lparr>ram := ram (uvmmapkernel_loop is k u s)\<rparr>"
  using assms(4,5)
proof (induction "is" arbitrary: s)
  case (Cons i "is")
  have i: "unat (of_nat i :: u64) = i" "i < 512"
    using Cons.prems by simp_all
  define s1 where "s1 = (if ld64 (ram s) (entry k (of_nat i)) AND PTE_V \<noteq> 0
    then s\<lparr>ram := st64 (ram s) (entry u (of_nat i)) (ld64 (ram s) (entry k (of_nat i)))\<rparr> else s)"
  have run: "uvmmapkernel_loop (i # is) k u s = uvmmapkernel_loop is k u s1"
    by (simp add: s1_def Let_def)
  have so: "same_outside {u} (ram s) (ram s1)"
    using entry_same_outside [OF assms(2), of "of_nat i"] i by (simp add: s1_def)
  have kj: "ld64 (ram s1) (entry k j) = ld64 (ram s) (entry k j)"
    using so assms(1,3,6) by (intro ld64_entry_outside) auto
  have j: "of_nat i = j \<longleftrightarrow> i = unat j"
    using i by auto
  have uj: "ld64 (ram s1) (entry u j) =
      (if i = unat j \<and> ld64 (ram s) (entry k j) AND PTE_V \<noteq> 0 then ld64 (ram s) (entry k j) else ld64 (ram s) (entry u j))"
    using ld64_entry_upd [OF assms(2,2) _ assms(6), of "of_nat i" "ram s" "ld64 (ram s) (entry k (of_nat i))"] i j
    by (auto simp: s1_def)
  have ih: "ld64 (ram (uvmmapkernel_loop is k u s1)) (entry u j) =
      (if unat j \<in> set is \<and> ld64 (ram s1) (entry k j) AND PTE_V \<noteq> 0 then ld64 (ram s1) (entry k j)
       else ld64 (ram s1) (entry u j))"
    "same_outside {u} (ram s1) (ram (uvmmapkernel_loop is k u s1))"
    "uvmmapkernel_loop is k u s1 = s1\<lparr>ram := ram (uvmmapkernel_loop is k u s1)\<rparr>"
    using Cons.IH [of s1] Cons.prems by auto
  have "uvmmapkernel_loop is k u s1 = s\<lparr>ram := ram (uvmmapkernel_loop is k u s1)\<rparr>"
    by (subst ih(3)) (simp add: s1_def)
  then show ?case
    unfolding run using ih(1) same_outside_trans [OF so ih(2)] uj kj by auto
qed simp

lemma uvmmapkernel_entries:
  assumes "al_page k" and "al_page u" and "k \<noteq> u" and "unat j < 512"
  shows "ld64 (ram (uvmmapkernel k u s)) (entry u j) =
      (if ld64 (ram s) (entry k j) AND PTE_V \<noteq> 0 then ld64 (ram s) (entry k j) else ld64 (ram s) (entry u j))"
    and "same_outside {u} (ram s) (ram (uvmmapkernel k u s))"
    and "uvmmapkernel k u s = s\<lparr>ram := ram (uvmmapkernel k u s)\<rparr>"
  using uvmmapkernel_loop_entries [OF assms(1-3) _ _ assms(4), of "[0..<512]" s] assms(4)
  by (auto simp: uvmmapkernel_def)

text \<open>Two roots with the same valid entry for \<open>va\<close> share everything below it.\<close>

lemma walk_shared:
  assumes "ld64 (ram s) (entry u (PX 2 va)) = ld64 (ram s) (entry k (PX 2 va))"
    and "ld64 (ram s) (entry k (PX 2 va)) AND PTE_V \<noteq> 0"
  shows "walk u va a s = walk k va a s"
  using assms by (simp add: walk_def numeral_2_eq_2)

lemma lookup_shared:
  assumes "ld64 m (entry u (PX 2 va)) = ld64 m' (entry k (PX 2 va))" and "\<And>t i. t \<in> tables m' k \<Longrightarrow>
      unat i < 512 \<Longrightarrow> t \<noteq> u \<Longrightarrow> ld64 m (entry t i) = ld64 m' (entry t i)" and "u \<notin> tables m' k"
  shows "lookup m u va = lookup m' k va"
proof -
  have t: "tbl m u va (Suc d) = tbl m' k va (Suc d)" if "d \<le> 1" for d
    using that
  proof (induction d)
    case 0
    then show ?case
      using assms(1) by simp
  next
    case (Suc d)
    then have "ld64 m (entry t (PX (2 - Suc d) va)) = ld64 m' (entry t (PX (2 - Suc d) va))"
      if "tbl m' k va (Suc d) = Some t" for t
      using assms(2,3) tables_I [OF that] unat_PX by (metis One_nat_def Suc_1 Suc_le_mono le_SucI)
    then show ?case
      unfolding tbl.simps(2) [of m u va "Suc d"] tbl.simps(2) [of m' k va "Suc d"]
      using Suc by (auto simp del: tbl.simps split: option.split)
  qed
  then have t2: "tbl m u va 2 = tbl m' k va 2"
    by (simp add: numeral_2_eq_2 del: tbl.simps)
  show ?thesis
  proof (cases "tbl m' k va 2")
    case (Some t)
    then have "ld64 m (entry t (PX 0 va)) = ld64 m' (entry t (PX 0 va))"
      using assms(2,3) tables_I [OF Some] unat_PX by (metis order_refl)
    then show ?thesis
      using t2 Some by (simp add: lookup_def)
  qed (use t2 in \<open>simp add: lookup_def\<close>)
qed

text \<open>
  C23: a new process page table, after \<open>uvmmapkernel\<close>, translates every address exactly as the
  kernel's page table does, and the kernel's own translation has not changed.
\<close>

theorem uvmmapkernel_correct:
  assumes "pt_wf s fl k" and "al_page u" and "u \<notin> tables (ram s) k" and "\<And>x. PGROUNDDOWN x = u \<Longrightarrow> ram s x = 0"
  shows "lookup (ram (uvmmapkernel k u s)) u va = lookup (ram s) k va \<and>
    lookup (ram (uvmmapkernel k u s)) k va = lookup (ram s) k va"
proof -
  have k: "al_page k" "k \<in> tables (ram s) k"
    using pt_wf_tbl(2) [OF assms(1), of va 0] tables_I [of "ram s" k va 0] by simp_all
  with assms(3) have "k \<noteq> u"
    by auto
  note e = uvmmapkernel_entries [OF k(1) assms(2) this, where s = s]
  have "lookup (ram (uvmmapkernel k u s)) k va = lookup (ram s) k va"
    using assms(3) by (intro lookup_outside [OF assms(1) e(2) [OF unat_PX]]) simp
  moreover have "lookup (ram (uvmmapkernel k u s)) u va = lookup (ram s) k va"
  proof (cases "ld64 (ram s) (entry k (PX 2 va)) AND PTE_V = 0")
    case True
    then have "ld64 (ram (uvmmapkernel k u s)) (entry u (PX 2 va)) = 0"
      using e(1) [OF unat_PX, of 2 va] ld64_zero_page [OF assms(2,4) unat_PX] by simp
    then show ?thesis
      using True by (simp add: lookup_def numeral_2_eq_2)
  next
    case False
    have "al_page t" if "t \<in> tables (ram s) k" for t
      using that pt_wf_tbl(2) [OF assms(1)] by (auto simp: tables_def)
    then show ?thesis
      using False e(1) [OF unat_PX, of 2 va] assms(3) ld64_entry_outside [OF e(2) [OF unat_PX]]
      by (intro lookup_shared) simp_all
  qed
  ultimately show ?thesis
    by simp
qed

lemma walk_mapped:
  assumes "lookup (ram s) root va = Some e"
  obtains t where "walk root va a s = (entry t (PX 0 va), s)" "tbl (ram s) root va 2 = Some t"
    "ld64 (ram s) (entry t (PX 0 va)) = e" "e AND PTE_V \<noteq> 0"
  using assms
  by (auto simp: lookup_def walk_def numeral_2_eq_2 split: option.splits if_splits)

lemma vmmap_one: "unat va mod 4096 = 0 \<Longrightarrow>
  vmmap root va PGSIZE pa perm s =
    (let (pte, s) = walk root va True s in
     if pte = 0 then Inr (False, s)
     else if ld64 (ram s) pte AND PTE_V \<noteq> 0 then Inl (Panic ''map: remap'')
     else Inr (True, s\<lparr>ram := st64 (ram s) pte (leaf pa perm)\<rparr>))"
  by (simp add: vmmap_def vmmap_step Let_def case_prod_beta del: vmmap_loop.simps)

text \<open>A page mapped in the kernel table is seen through a process table made from it.\<close>

lemma uvmmapkernel_correct_witness:
  "\<exists>s1 s'. uvmcreate three_pages = (0x80300000, s1) \<and>
    vmmap 0x80300000 0x1000 PGSIZE 0x87000000 6 s1 = Inr (True, s') \<and>
    lookup (ram (uvmmapkernel 0x80300000 0x80900000 s')) 0x80900000 0x1000 = Some (leaf 0x87000000 6)"
proof -
  let ?k = "0x80300000 :: u64" and ?u = "0x80900000 :: u64"
  obtain s1 where s1: "uvmcreate three_pages = (?k, s1)" "pt_wf s1 [0x80400000, 0x80500000] ?k"
      "\<And>va. lookup (ram s1) ?k va = None" "tables (ram s1) ?k = {?k}"
      "\<And>x. PGROUNDDOWN x = ?u \<Longrightarrow> ram s1 x = 0"
    using three_pages_table by metis
  have "\<exists>s'. vmmap_loop (Suc 0) ?k 0x1000 (nth_page 0x1000 0) 0x87000000 6 s1 = Inr (True, s')"
    by (rule vmmap_loop_total [OF s1(2), of 0]) (simp_all add: s1(3))
  then obtain s' where s': "vmmap ?k 0x1000 PGSIZE 0x87000000 6 s1 = Inr (True, s')"
    by (auto simp: vmmap_def)
  obtain pte s0 where w: "walk ?k 0x1000 True s1 = (pte, s0)"
    by fastforce
  then have pte: "pte \<noteq> 0" and e: "s' = s0\<lparr>ram := st64 (ram s0) pte (leaf 0x87000000 6)\<rparr>"
    using s' by (auto simp: vmmap_one split: if_splits)
  obtain fl' where ext: "pt_ext ?k s1 [0x80400000, 0x80500000] s' fl'"
      and l: "lookup (ram s') ?k 0x1000 = Some (leaf 0x87000000 6)"
    using map_page(2) [OF s1(2) w pte, of "0x87000000" 6] unfolding e same_page_def by (fastforce simp: same_path_refl)
  have "?u \<notin> tables (ram s') ?k"
    using ext s1(4) by (auto simp: pt_ext_def)
  moreover have "ram s' x = 0" if "PGROUNDDOWN x = ?u" for x
    using ext s1(4,5) that by (auto simp: pt_ext_def same_outside_def)
  ultimately have "lookup (ram (uvmmapkernel ?k ?u s')) ?u 0x1000 = Some (leaf 0x87000000 6)"
    using uvmmapkernel_correct [of s' fl' ?k ?u "0x1000"] ext l by (simp add: pt_ext_def al_page_def)
  with s1(1) s' show ?thesis
    by blast
qed

text \<open>
  C25: the tables of the kernel are shared, not copied. When two processes have taken the
  kernel's root entry for an address, a page the first one maps there is mapped in the kernel's
  own page table, and the second process cannot map the same address: \<open>vmmap\<close> panics.
\<close>

theorem shared_tables_panic:
  assumes wf: "pt_wf s fl k" and "unat va mod 4096 = 0"
    and valid: "ld64 (ram s) (entry k (PX 2 va)) AND PTE_V \<noteq> 0"
    and u1: "ld64 (ram s) (entry u1 (PX 2 va)) = ld64 (ram s) (entry k (PX 2 va))"
    and u2: "ld64 (ram s) (entry u2 (PX 2 va)) = ld64 (ram s) (entry k (PX 2 va))"
    and u2o: "al_page u2" "u2 \<notin> tables (ram s) k \<union> set fl"
    and map1: "vmmap u1 va PGSIZE pa perm s = Inr (True, s1)"
  shows "lookup (ram s1) k va = Some (leaf pa perm) \<and>
    vmmap u2 va PGSIZE pa2 perm2 s1 = Inl (Panic ''map: remap'')"
proof -
  obtain pte s0 where w: "walk k va True s = (pte, s0)"
    by fastforce
  have "walk u1 va True s = (pte, s0)"
    using walk_shared [OF u1 valid] w by simp
  then have pte: "pte \<noteq> 0" and s1: "s1 = s0\<lparr>ram := st64 (ram s0) pte (leaf pa perm)\<rparr>"
    using map1 by (auto simp: vmmap_one [OF assms(2)] split: if_splits)
  obtain fl1 where ext: "pt_ext k s fl s1 fl1" and "lookup (st64 (ram s0) pte (leaf pa perm)) k va = Some (leaf pa perm)"
    using map_page(2) [OF wf w pte, of pa perm] unfolding s1 same_page_def by (metis same_path_refl)
  then have l: "lookup (ram s1) k va = Some (leaf pa perm)"
    by (simp add: s1)
  let ?t1 = "PTE2PA (ld64 (ram s) (entry k (PX 2 va)))"
  have "tbl (ram s) k va 1 = Some ?t1"
    using valid by simp
  then have "tbl (ram s1) k va 1 = Some ?t1"
    using ext unfolding pt_ext_def by (metis one_le_numeral)
  then have kw: "walk k va True s1 = walk_from 1 ?t1 va True s1"
    by (auto simp: walk_def numeral_2_eq_2 split: if_splits)
  have "ld64 (ram s1) (entry u2 (PX 2 va)) = ld64 (ram s) (entry u2 (PX 2 va))"
    using ext u2o by (intro ld64_entry_outside [OF _ _ _ unat_PX]) (auto simp: pt_ext_def)
  then have "walk u2 va True s1 = walk_from 1 ?t1 va True s1"
    using valid u2 by (simp add: walk_def numeral_2_eq_2)
  moreover obtain t where "walk k va True s1 = (entry t (PX 0 va), s1)" "tbl (ram s1) k va 2 = Some t"
      "ld64 (ram s1) (entry t (PX 0 va)) = leaf pa perm"
    using walk_mapped [OF l] by metis
  moreover from this have "entry t (PX 0 va) \<noteq> 0"
    using ext by (intro entry_nonzero pt_wf_tbl [of s1 fl1 k va 2] unat_PX) (simp_all add: pt_ext_def)
  ultimately show ?thesis
    using l kw leaf_valid [of pa perm] by (simp add: vmmap_one [OF assms(2)])
qed

text \<open>A kernel table with one empty second-level table, and two processes that share it.\<close>

definition shared_machine :: pmem where
  "shared_machine = \<lparr>ram = st64 (st64 (st64 (st64 (\<lambda>_. 0) 0x80500000 0x80800000)
      0x80300000 (PA2PTE 0x80400000 OR PTE_V)) 0x80600000 (PA2PTE 0x80400000 OR PTE_V))
      0x80700000 (PA2PTE 0x80400000 OR PTE_V),
     memlist = 0x80500000, ekernel = 0x80200000, kcaches = replicate 9 0\<rparr>"

lemma shared_machine_wf:
  "pt_wf shared_machine [0x80500000, 0x80800000] 0x80300000" (is "pt_wf _ ?fl ?k")
  "lookup (ram shared_machine) 0x80300000 0x1000 = None"
  "tables (ram shared_machine) 0x80300000 = {0x80300000, 0x80400000}"
proof -
  let ?v = "PA2PTE 0x80400000 OR PTE_V" and ?m0 = "st64 (\<lambda>_. 0) 0x80500000 0x80800000"
  let ?s0 = "shared_machine\<lparr>ram := ?m0\<rparr>" and ?m1 = "st64 ?m0 (entry ?k (PX 2 0x1000)) (PA2PTE 0x80400000 OR PTE_V)"
  have inv: "kmem_inv ?s0 ?fl"
    by (simp add: kmem_inv_def shared_machine_def frame_ok_def al_page_def al8_def)
  have frame: "frame_ok ?s0 ?k" "frame_ok ?s0 0x80400000"
    by (simp_all add: shared_machine_def frame_ok_def al_page_def)
  have z: "?m0 x = 0" if "PGROUNDDOWN x \<noteq> 0x80500000" for x
    using same_outside_st64_0 [of "0x80500000"] that by (simp add: same_outside_def al_page_def)
  note e0 = empty_table [OF inv frame(1)]
  have wf0: "pt_wf ?s0 ?fl ?k" "\<And>va. lookup ?m0 ?k va = None" "tables ?m0 ?k = {?k}"
    using e0 z by simp_all
  have iv: "ld64 (ram ?s0) (entry ?k (PX (2 - 0) 0x1000)) AND PTE_V = 0"
    using ld64_zero_page [OF frame_okD(1) [OF frame(1)] _ unat_PX, where m = ?m0] z by simp
  have m1: "ram (?s0\<lparr>ram := ?m1\<rparr>) = ?m1"
    by simp
  have r0: "tbl (ram ?s0) ?k 0x1000 0 = Some ?k"
    by simp
  note link = link_table [OF wf0(1) r0 _ iv frame(2), where m = ?m1]
  have wf1: "pt_wf (?s0\<lparr>ram := ?m1\<rparr>) ?fl ?k" "lookup ?m1 ?k 0x1000 = None" "tables ?m1 ?k = {?k, 0x80400000}"
    using link z wf0 by (simp_all add: insert_commute)
  have px: "entry ?k (PX 2 0x1000) = ?k"
    by (simp add: entry_def PX_def)
  have ms: "ram shared_machine = st64 (st64 ?m1 0x80600000 ?v) 0x80700000 ?v"
    by (simp add: shared_machine_def px)
  have so: "same_outside ({0x80600000} \<union> {0x80700000}) ?m1 (ram shared_machine)"
    unfolding ms by (intro same_outside_trans [OF same_outside_st64_0 same_outside_st64_0]) (simp_all add: al_page_def)
  have so2: "same_outside ({0x80600000} \<union> {0x80700000}) (ram (?s0\<lparr>ram := ?m1\<rparr>)) (ram shared_machine)"
    using so by simp
  have dis: "({0x80600000} \<union> {0x80700000}) \<inter> tables ?m1 ?k = {}" "set ?fl \<inter> tables ?m1 ?k = {}"
    by (simp_all add: wf1(3))
  have inv2: "kmem_inv shared_machine ?fl"
    using kmem_inv_poke [OF _ so2, of ?fl] wf1(1) wf1(3) dis
    by (auto simp: pt_wf_def shared_machine_def)
  show "pt_wf shared_machine ?fl ?k"
    using pt_wf_outside [OF wf1(1) so2 _ inv2] dis by simp
  show "lookup (ram shared_machine) ?k 0x1000 = None"
    using lookup_outside [OF wf1(1) so2] dis wf1(2) by simp
  show "tables (ram shared_machine) ?k = {?k, 0x80400000}"
    using tables_outside [OF wf1(1) so2] dis wf1(3) by simp
qed

lemma shared_tables_panic_witness:
  "\<exists>s1. vmmap 0x80600000 0x1000 PGSIZE 0x87000000 6 shared_machine = Inr (True, s1) \<and>
    lookup (ram s1) 0x80300000 0x1000 = Some (leaf 0x87000000 6) \<and>
    vmmap 0x80700000 0x1000 PGSIZE 0x87100000 6 s1 = Inl (Panic ''map: remap'')"
proof -
  let ?k = "0x80300000 :: u64"
  have e: "ld64 (ram shared_machine) (entry u (PX 2 0x1000)) = PA2PTE 0x80400000 OR PTE_V"
    if "u \<in> {0x80300000, 0x80600000, 0x80700000}" for u
    using that by (auto simp: shared_machine_def entry_def PX_def al8_def)
  have valid: "ld64 (ram shared_machine) (entry ?k (PX 2 0x1000)) AND PTE_V \<noteq> 0"
    by (simp add: e one_flag)
  have "walk 0x80600000 0x1000 True shared_machine = walk ?k 0x1000 True shared_machine"
    using valid by (intro walk_shared) (simp_all add: e)
  then have "vmmap 0x80600000 0x1000 PGSIZE 0x87000000 6 shared_machine = vmmap ?k 0x1000 PGSIZE 0x87000000 6 shared_machine"
    by (simp add: vmmap_one)
  moreover have "\<exists>s1. vmmap_loop (Suc 0) ?k 0x1000 (nth_page 0x1000 0) 0x87000000 6 shared_machine = Inr (True, s1)"
    by (rule vmmap_loop_total [OF shared_machine_wf(1), of 0]) (simp_all add: shared_machine_wf(2))
  ultimately obtain s1 where s1: "vmmap 0x80600000 0x1000 PGSIZE 0x87000000 6 shared_machine = Inr (True, s1)"
    by (auto simp: vmmap_def)
  have "lookup (ram s1) ?k 0x1000 = Some (leaf 0x87000000 6) \<and>
      vmmap 0x80700000 0x1000 PGSIZE 0x87100000 6 s1 = Inl (Panic ''map: remap'')"
    by (rule shared_tables_panic [OF shared_machine_wf(1) _ valid _ _ _ _ s1])
      (simp_all add: e shared_machine_wf(3) al_page_def)
  with s1 show ?thesis
    by blast
qed

section \<open>\<open>copyout\<close>\<close>

lemma ALIGNDOWN_page: "ALIGNDOWN a PGSIZE = PGROUNDDOWN a"
  by (simp add: ALIGNDOWN_def PGROUNDDOWN_def)

lemma al_page_next: "al_page a \<Longrightarrow> al_page (a + PGSIZE)"
  by (simp add: al_page_def unat_mod_add64)

text \<open>The number of bytes one iteration copies.\<close>

definition chunk :: "u64 \<Rightarrow> u64 \<Rightarrow> u64" where
  "chunk a len = (let n = PGSIZE - (a - PGROUNDDOWN a) in if len < n then len else n)"

lemma copyout_step:
  "copyout_loop (Suc fuel) pt a src len s =
     (if 0 < len then
        let (pte, s) = walk pt (PGROUNDDOWN a) False s in
        if pte = 0 \<or> ld64 (ram s) pte AND PTE_V = 0 \<or> ld64 (ram s) pte AND PTE_U = 0 then Inr (False, s)
        else copyout_loop fuel pt (a + chunk a len) (src + chunk a len) (len - chunk a len)
          (s\<lparr>ram := memcpy (ram s) (PTE2PA (ld64 (ram s) pte) + (a - PGROUNDDOWN a)) src (chunk a len)\<rparr>)
      else Inr (True, s))"
  by (subst copyout_loop.simps) (simp add: ALIGNDOWN_page Let_def chunk_def case_prod_beta)

lemma copyout_loop_next:
  assumes "\<And>t. \<exists>b s'. copyout_loop fuel pt (a + chunk a len) (src + chunk a len) (len - chunk a len) t = Inr (b, s')"
  shows "\<exists>b s'. copyout_loop (Suc fuel) pt a src len s = Inr (b, s')"
  using assms by (auto simp: copyout_step Let_def case_prod_beta)

lemma copyout_loop_returns:
  assumes "al_page a \<and> unat len \<le> 4096 * fuel"
  shows "\<exists>b s'. copyout_loop fuel pt a src len s = Inr (b, s')"
  using assms
proof (induction fuel arbitrary: a src len s)
  case 0
  then have "len = 0"
    by (simp add: unat_eq_zero)
  then show ?case
    by (subst copyout_loop.simps) auto
next
  case (Suc fuel)
  have al: "al_page (a + PGSIZE)"
    using Suc.prems by (intro al_page_next) simp
  have ch: "chunk a len = (if len < PGSIZE then len else PGSIZE)"
    using Suc.prems by (simp add: chunk_def Let_def)
  have "\<exists>b s'. copyout_loop fuel pt (a + chunk a len) (src + chunk a len) (len - chunk a len) t = Inr (b, s')" for t
  proof (cases "len < PGSIZE")
    case True
    then show ?thesis
      unfolding ch by (subst copyout_loop.simps) auto
  next
    case False
    then have "unat (len - PGSIZE) \<le> 4096 * fuel"
      using Suc.prems by (simp add: unat_sub_le le_diff_conv)
    then show ?thesis
      using Suc.IH [of "a + PGSIZE" "len - PGSIZE"] al False by (simp add: ch)
  qed
  then show ?case
    by (rule copyout_loop_next)
qed

text \<open>C27: \<open>copyout\<close> always returns, whatever the addresses, the length and the page table: the
  loop makes at most \<open>len / 4096 + 2\<close> iterations.\<close>

theorem copyout_returns: "\<exists>b s'. copyout pt dstva src len s = Inr (b, s')"
proof -
  let ?r = "PGSIZE - (dstva - PGROUNDDOWN dstva)"
  have "\<exists>b s'. copyout_loop (Suc (unat len div 4096)) pt (dstva + chunk dstva len) (src + chunk dstva len)
      (len - chunk dstva len) t = Inr (b, s')" for t
  proof (cases "len < ?r")
    case True
    then show ?thesis
      by (subst copyout_loop.simps) (auto simp: chunk_def Let_def)
  next
    case False
    have "dstva + ?r = PGROUNDDOWN dstva + PGSIZE"
      by simp
    then have "al_page (dstva + ?r)"
      using al_page_next [OF al_page_PGROUNDDOWN] by metis
    moreover have "unat (len - ?r) \<le> 4096 * Suc (unat len div 4096)"
    proof -
      have "unat (len - ?r) \<le> unat len"
        using False by (simp add: unat_sub_le)
      moreover have "unat len < 4096 * Suc (unat len div 4096)"
        using mod_less_divisor [of 4096 "unat len"] div_mult_mod_eq [of "unat len" 4096] by simp
      ultimately show ?thesis
        by simp
    qed
    ultimately show ?thesis
      using copyout_loop_returns False by (simp add: chunk_def Let_def)
  qed
  from copyout_loop_next [OF this] show ?thesis
    by (simp add: copyout_def)
qed

section \<open>The kernel page table\<close>

text \<open>
  A page table as \<open>kvmmap\<close> builds it: well-formed, with pointers above and leaves that may be
  read, written or executed below.
\<close>

definition kernel_table :: "u64 \<Rightarrow> pmem \<Rightarrow> bool" where
  "kernel_table root s \<longleftrightarrow> (\<exists>fl. pt_wf s fl root) \<and> table_ptrs (ram s) root \<and>
     (\<forall>va e. lookup (ram s) root va = Some e \<longrightarrow> e AND (PTE_R OR PTE_W OR PTE_X) \<noteq> 0)"

lemma leaf_flags: "(ucast perm :: u64) AND (PTE_R OR PTE_W OR PTE_X) \<noteq> 0 \<Longrightarrow> leaf pa perm AND (PTE_R OR PTE_W OR PTE_X) \<noteq> 0"
  by (simp add: leaf_def bit.conj_disj_distrib2 or_eq_0_iff)

lemma lookup_same_page: "same_page va va' \<Longrightarrow> lookup m root va' = lookup m root va"
  using tbl_same_path [of 2 va va' m root]
  by (cases "tbl m root va 2")
    (auto simp: lookup_def same_page_def numeral_3_eq_3 numeral_2_eq_2 same_path_Suc simp del: tbl.simps)

lemma kvmmap_kernel:
  assumes "kernel_table root s" and "kvmmap root va pa sz perm s = Inr s'"
    and "(ucast perm :: u64) AND (PTE_R OR PTE_W OR PTE_X) \<noteq> 0"
  shows "kernel_table root s'" and "lookup (ram s') root va \<noteq> None"
proof -
  obtain fl where wf: "pt_wf s fl root"
    using assms(1) by (auto simp: kernel_table_def)
  have v: "vmmap root va sz pa perm s = Inr (True, s')"
    using assms(2) by (auto simp: kvmmap_def bindR_eq_Inr split: if_splits)
  then have "unat va mod 4096 = 0" "unat sz mod 4096 = 0" "sz \<noteq> 0"
    by (auto simp: vmmap_def split: if_splits)
  from vmmap_range [OF this, of root] obtain n where n: "n < 4503599627370496"
      "vmmap root va sz pa perm s = vmmap_loop (Suc n) root va (nth_page va n) pa perm s"
    by metis
  obtain fl' where e: "pt_ext root s fl s' fl'"
      "\<And>i. i < Suc n \<Longrightarrow> lookup (ram s') root (nth_page va i) = Some (leaf (nth_page pa i) perm)"
      "\<And>va'. (\<forall>i < Suc n. \<not> same_page (nth_page va i) va') \<Longrightarrow> lookup (ram s') root va' = lookup (ram s) root va'"
    using vmmap_loop_success [OF wf v [unfolded n(2)] refl n(1)] by blast
  show "lookup (ram s') root va \<noteq> None"
    using e(2) [of 0] by simp
  have "x AND (PTE_R OR PTE_W OR PTE_X) \<noteq> 0" if x: "lookup (ram s') root va' = Some x" for va' x
  proof (cases "\<forall>i < Suc n. \<not> same_page (nth_page va i) va'")
    case True
    then show ?thesis
      using e(3) x assms(1) unfolding kernel_table_def by metis
  next
    case False
    then obtain i where "i < Suc n" "same_page (nth_page va i) va'"
      by blast
    then show ?thesis
      using x e(2) lookup_same_page leaf_flags [OF assms(3)] by (metis option.inject)
  qed
  then show "kernel_table root s'"
    using e(1) assms(1) unfolding kernel_table_def pt_ext_def by blast
qed

lemma kernel_perms:
  "(ucast (BITS_U8 1 OR BITS_U8 3) :: u64) AND (PTE_R OR PTE_W OR PTE_X) \<noteq> 0"
  "(ucast (BITS_U8 1) :: u64) AND (PTE_R OR PTE_W OR PTE_X) \<noteq> 0"
  "(ucast (BITS_U8 1 OR BITS_U8 2) :: u64) AND (PTE_R OR PTE_W OR PTE_X) \<noteq> 0"
  by (simp_all add: BITS_U8_def)

text \<open>What \<open>kvmmake\<close> returns is such a table, and the test device is mapped in it.\<close>

lemma kvmmake_kernel:
  assumes "kmem_inv s0 fl" and "fl \<noteq> []" and "kvmmake k s0 = Inr (kroot, s)"
  shows "kernel_table kroot s" "lookup (ram s) kroot SIFIVE_TEST_ADDR \<noteq> None"
proof -
  obtain p ps where fl: "fl = p # ps"
    using assms(2) by (cases fl) auto
  obtain s1 where k: "kalloc s0 = (p, s1)" "kmem_inv s1 ps" "ram s1 = (\<lambda>x. if PGROUNDDOWN x = p then 0 else ram s0 x)"
      "\<forall>q. frame_ok s1 q = frame_ok s0 q"
    using kalloc_some [of s0 p ps] assms(1) fl by blast
  have p: "frame_ok s1 p" "p \<notin> set ps"
    using kmem_inv_page [OF assms(1), of p] assms(1) fl k(4) by (auto simp: kmem_inv_def)
  note e = empty_table [OF k(2) p]
  have z: "PGROUNDDOWN x = p \<Longrightarrow> ram s1 x = 0" for x
    by (simp add: k(3))
  have zp: "ld64 (ram s1) (entry p (PX l va)) = 0" for l va
    using ld64_zero_page [OF frame_okD(1) [OF p(1)] z unat_PX] by simp
  then have "tbl (ram s1) p va (Suc d) = None" for va d
    by (induction d) simp_all
  then have tp: "tbl (ram s1) p va d = Some t \<Longrightarrow> t = p" for va d t
    by (cases d) auto
  have "table_ptrs (ram s1) p"
    unfolding table_ptrs_def by (intro allI impI) (drule tp; simp add: zp)
  then have k1: "kernel_table p s1"
    using e z by (auto simp: kernel_table_def)
  obtain a b c d e' f g where "kvmmap p (stext k) (stext k) (etext k - stext k) (BITS_U8 1 OR BITS_U8 3) s1 = Inr a"
      "kvmmap p (srodata k) (srodata k) (erodata k - srodata k) (BITS_U8 1) a = Inr b"
      "kvmmap p (sdata k) (sdata k) (edata k - sdata k) (BITS_U8 1 OR BITS_U8 2) b = Inr c"
      "kvmmap p (sbss k) (sbss k) (ebss k - sbss k) (BITS_U8 1 OR BITS_U8 2) c = Inr d"
      "kvmmap p (ekernel d) (ekernel d) (PHYEND - ekernel d) (BITS_U8 1 OR BITS_U8 2) d = Inr e'"
      "kvmmap p UART0 UART0 PGSIZE (BITS_U8 1 OR BITS_U8 2) e' = Inr f"
      "kvmmap p VIRTIO_BLK0 VIRTIO_BLK0 PGSIZE (BITS_U8 1 OR BITS_U8 2) f = Inr g"
      and last: "kvmmap p SIFIVE_TEST_ADDR SIFIVE_TEST_ADDR PGSIZE (BITS_U8 1 OR BITS_U8 2) g = Inr s" "kroot = p"
    using assms(3) k(1) by (auto simp: kvmmake_def bindR_eq_Inr)
  then have "kernel_table p g"
    using k1 kvmmap_kernel(1) [OF _ _ kernel_perms(1)] kvmmap_kernel(1) [OF _ _ kernel_perms(2)]
      kvmmap_kernel(1) [OF _ _ kernel_perms(3)] by metis
  from kvmmap_kernel [OF this last(1) kernel_perms(3)] show "kernel_table kroot s" "lookup (ram s) kroot SIFIVE_TEST_ADDR \<noteq> None"
    unfolding last(2) .
qed

section \<open>Freeing a process page table\<close>

lemma leaf_table_panics:
  assumes "\<forall>i \<in> set is. ld64 (ram s) (entry t (of_nat i)) AND PTE_V \<noteq> 0 \<longrightarrow>
      ld64 (ram s) (entry t (of_nat i)) AND (PTE_R OR PTE_W OR PTE_X) \<noteq> 0"
    and "\<exists>i \<in> set is. ld64 (ram s) (entry t (of_nat i)) AND PTE_V \<noteq> 0"
  shows "freewalk_entries d is t s = Inl (Panic ''freewalk: leaf'')"
  using assms by (induction "is") (auto simp: Let_def)

text \<open>A leaf reached through the first entries of the root and of the second-level table.\<close>

lemma first_table_panics:
  assumes "ld64 (ram s) (entry u 0) = e2" "e2 AND PTE_V \<noteq> 0" "e2 AND (PTE_R OR PTE_W OR PTE_X) = 0" "PTE2PA e2 = l1"
    and "ld64 (ram s) (entry l1 0) = e1" "e1 AND PTE_V \<noteq> 0" "e1 AND (PTE_R OR PTE_W OR PTE_X) = 0" "PTE2PA e1 = l0"
    and "\<forall>i < 512. ld64 (ram s) (entry l0 (of_nat i)) AND PTE_V \<noteq> 0 \<longrightarrow>
      ld64 (ram s) (entry l0 (of_nat i)) AND (PTE_R OR PTE_W OR PTE_X) \<noteq> 0"
    and "\<exists>i < 512. ld64 (ram s) (entry l0 (of_nat i)) AND PTE_V \<noteq> 0"
  shows "uvmfreewalk u s = Inl (Panic ''freewalk: leaf'')"
proof -
  have range: "[0..<512] = (0 :: nat) # [Suc 0..<512]"
    by (simp add: upt_rec)
  have "freewalk_entries d [0..<512] l0 s = Inl (Panic ''freewalk: leaf'')" for d
    using assms(9,10) by (intro leaf_table_panics) auto
  then have "freewalk_entries (Suc d) (0 # is) l1 s = Inl (Panic ''freewalk: leaf'')" for d "is"
    using assms(5-8) by (simp add: Let_def)
  from this [of 32767] have "freewalk l1 s = Inl (Panic ''freewalk: leaf'')"
    by (simp add: freewalk_def range del: freewalk_entries.simps)
  moreover have "\<not> PX 2 KERNBASE \<le> 0"
    by (simp add: PX_def)
  ultimately have "uvmfreewalk_loop (0 # is) u s = Inl (Panic ''freewalk: leaf'')" for "is"
    using assms(1-4) by (simp add: Let_def)
  then show ?thesis
    by (simp add: uvmfreewalk_def range del: uvmfreewalk_loop.simps)
qed

text \<open>The addresses of the first two megabytes: page \<open>i\<close> has index \<open>i\<close> in the first last-level table.\<close>

lemma PX_first:
  assumes "i < 512"
  shows "PX 2 (push_bit 12 (of_nat i)) = 0" "PX 1 (push_bit 12 (of_nat i)) = 0" "PX 0 (push_bit 12 (of_nat i)) = of_nat i"
proof -
  have b: "bit (of_nat i :: u64) n \<Longrightarrow> n < 9" for n
    using assms by (intro bit_less [of "of_nat i" 9]) simp_all
  have px: "bit (PX l va) n \<Longrightarrow> n < 9" for l va n
    using unat_PX [of l va] by (intro bit_less [of "PX l va" 9]) simp_all
  have v: "bit (PX l (push_bit 12 (of_nat i))) n \<longleftrightarrow> bit (of_nat i :: u64) (9 * l + n)" if "n < 9" "l < 3" for l n
    using that by (simp add: bit_PX bit_push_bit_iff)
  have "PX l (push_bit 12 (of_nat i)) = 0" if l: "0 < l" "l < 3" for l
  proof (rule bit_word_eqI)
    fix n
    show "bit (PX l (push_bit 12 (of_nat i))) n = bit 0 n"
      using v [OF px l(2), of l _ n] px [of l _ n] b [of "9 * l + n"] l(1) by fastforce
  qed
  then show "PX 2 (push_bit 12 (of_nat i)) = 0" "PX 1 (push_bit 12 (of_nat i)) = 0"
    by simp_all
  show "PX 0 (push_bit 12 (of_nat i)) = of_nat i"
  proof (rule bit_word_eqI)
    fix n
    show "bit (PX 0 (push_bit 12 (of_nat i))) n = bit (of_nat i :: u64) n"
      using v [of n 0] px [of 0 _ n] b [of n] by (cases "n < 9") auto
  qed
qed

text \<open>
  C26: a process page table cannot be freed. When \<open>kvmmake\<close> has built the kernel's page table and
  a process gets a new one from \<open>uvmcreate\<close> and \<open>uvmmapkernel\<close>, as \<open>mapproc\<close> does, then \<open>uvmfree\<close>
  of that table panics, even before the process maps a page of its own: the kernel maps
  devices below its image, so the walk over the lower half of the table enters a shared table
  of the kernel and meets its leaf entries.
\<close>

theorem uvmfree_panics:
  assumes "kmem_inv s0 fl" and "fl \<noteq> []" and "kvmmake k s0 = Inr (kroot, s)"
    and "uvmcreate s = (u, s1)" and "u \<noteq> 0"
  shows "uvmfree u 0 0 0 (uvmmapkernel kroot u s1) = Inl (Panic ''freewalk: leaf'')"
proof -
  let ?va = SIFIVE_TEST_ADDR and ?s2 = "uvmmapkernel kroot u s1"
  note kt = kvmmake_kernel [OF assms(1-3)]
  obtain fl' where wf: "pt_wf s fl' kroot"
    using kt(1) by (auto simp: kernel_table_def)
  have "kalloc s = (u, s1)"
    using assms(4,5) by (auto simp: uvmcreate_def split: prod.splits if_splits)
  then obtain fl1 where a: "frame_ok s1 u" "u \<notin> tables (ram s) kroot" "same_outside {u} (ram s) (ram s1)"
    using kalloc_wf [OF wf _ assms(5)] by metis
  have k: "al_page kroot" "kroot \<in> tables (ram s) kroot" and u: "al_page u"
    using pt_wf_tbl(2) [OF wf, of ?va 0] tables_I [of "ram s" kroot ?va 0] frame_okD(1) [OF a(1)] by simp_all
  then have ku: "kroot \<noteq> u"
    using a(2) by auto
  note ent = uvmmapkernel_entries [OF k(1) u ku, where s = s1]
  have so: "same_outside {u} (ram s) (ram ?s2)"
    using same_outside_trans [OF a(3) ent(2) [OF unat_PX]] by simp
  have same: "ld64 (ram ?s2) (entry t i) = ld64 (ram s) (entry t i)" if "tbl (ram s) kroot va d = Some t" "d \<le> 2" "unat i < 512" for va d t i
    using that a(2) tables_I [OF that(1,2)] pt_wf_tbl(2) [OF wf that(1,2)] by (intro ld64_entry_outside [OF so]) auto
  have px: "PX 2 ?va = 0" "PX 1 ?va = 0"
    by (simp_all add: PX_def)
  obtain e where l: "lookup (ram s) kroot ?va = Some e"
    using kt(2) by blast
  then obtain l0 where l0: "tbl (ram s) kroot ?va 2 = Some l0" "ld64 (ram s) (entry l0 (PX 0 ?va)) AND PTE_V \<noteq> 0"
    by (auto simp: lookup_def split: option.splits if_splits)
  then obtain l1 where l1: "tbl (ram s) kroot ?va 1 = Some l1"
    using tbl_prefix [of "ram s" kroot ?va 2 l0 1] by (auto simp del: tbl.simps)
  let ?e2 = "ld64 (ram s) (entry kroot 0)" and ?e1 = "ld64 (ram s) (entry l1 0)"
  have e2: "?e2 AND PTE_V \<noteq> 0" "PTE2PA ?e2 = l1"
    using l1 px(1) by (auto split: if_splits)
  have e1: "?e1 AND PTE_V \<noteq> 0" "PTE2PA ?e1 = l0"
    using l0(1) tbl.simps(2) [of "ram s" kroot ?va 1] l1 px(2)
    by (auto simp: numeral_2_eq_2 simp del: tbl.simps split: if_splits)
  have f2: "?e2 AND (PTE_R OR PTE_W OR PTE_X) = 0"
    using table_ptrsD [of "ram s" kroot ?va 0 kroot] kt(1) e2(1) px(1) by (simp add: kernel_table_def)
  have f1: "?e1 AND (PTE_R OR PTE_W OR PTE_X) = 0"
    using table_ptrsD [of "ram s" kroot ?va 1 l1] kt(1) e1(1) l1 px(2) by (simp add: kernel_table_def del: tbl.simps)
  have u0: "ld64 (ram ?s2) (entry u 0) = ?e2"
    using ent(1) [of 0] ld64_entry_outside [OF a(3) k(1), of 0] ku e2(1) by simp
  have leaves: "ld64 (ram s) (entry l0 (of_nat i)) AND (PTE_R OR PTE_W OR PTE_X) \<noteq> 0"
    if "i < 512" "ld64 (ram s) (entry l0 (of_nat i)) AND PTE_V \<noteq> 0" for i
  proof -
    let ?v = "push_bit 12 (of_nat i) :: u64"
    have "same_path 2 ?va ?v"
      using px PX_first [OF that(1)] by (simp add: numeral_2_eq_2 same_path_Suc) (simp add: same_path_def)
    then have "tbl (ram s) kroot ?v 2 = Some l0"
      using l0(1) tbl_same_path by metis
    then have "lookup (ram s) kroot ?v = Some (ld64 (ram s) (entry l0 (of_nat i)))"
      using that(2) PX_first(3) [OF that(1)] by (simp add: lookup_def)
    then show ?thesis
      using kt(1) unfolding kernel_table_def by blast
  qed
  have same0: "ld64 (ram ?s2) (entry l0 (of_nat i)) = ld64 (ram s) (entry l0 (of_nat i))" if "i < 512" for i
    using same [OF l0(1), of "of_nat i"] that by simp
  have "\<exists>i < 512. ld64 (ram s) (entry l0 (of_nat i)) AND PTE_V \<noteq> 0"
    using l0(2) unat_PX [of 0 ?va] by (intro exI [of _ "unat (PX 0 ?va)"]) simp
  then have "\<exists>i < 512. ld64 (ram ?s2) (entry l0 (of_nat i)) AND PTE_V \<noteq> 0"
    using same0 by metis
  then have "uvmfreewalk u ?s2 = Inl (Panic ''freewalk: leaf'')"
    using leaves same0 same [OF l1, of 0]
    by (intro first_table_panics [OF u0 e2(1) f2 e2(2) _ e1(1) f1 e1(2)]) simp_all
  then show ?thesis
    by (simp add: uvmfree_def)
qed

text \<open>
  A machine on which \<open>kvmmake\<close> succeeds. Regions are pairs of an address and a number of pages;
  a region that lies in one last-level table needs two free pages at most.
\<close>

lemma walk_existing:
  "tbl (ram s) root va 2 = Some t \<Longrightarrow> walk root va a s = (entry t (PX 0 va), s)"
  by (auto simp: walk_def numeral_2_eq_2 split: option.splits if_splits)

lemma vmmap_existing:
  fixes pa :: u64 and perm :: u8
  assumes wf: "pt_wf s fl root" and t: "tbl (ram s) root va 2 = Some t" and "lookup (ram s) root va = None"
  defines "s1 \<equiv> s\<lparr>ram := st64 (ram s) (entry t (PX 0 va)) (leaf pa perm)\<rparr>"
  shows "vmmap_loop (Suc fuel) root va vl pa perm s =
      (if va = vl then Inr (True, s1) else vmmap_loop fuel root (va + PGSIZE) vl (pa + PGSIZE) perm s1)"
    and "pt_wf s1 fl root" "\<And>va'. tbl (ram s1) root va' 2 = tbl (ram s) root va' 2"
    "\<And>va'. \<not> same_page va va' \<Longrightarrow> lookup (ram s1) root va' = lookup (ram s) root va'"
    "ekernel s1 = ekernel s"
proof -
  note sl = store_leaf [OF wf t refl, where v = "leaf pa perm"]
  show "pt_wf s1 fl root" "\<And>va'. tbl (ram s1) root va' 2 = tbl (ram s) root va' 2"
      "\<And>va'. \<not> same_page va va' \<Longrightarrow> lookup (ram s1) root va' = lookup (ram s) root va'" "ekernel s1 = ekernel s"
    using sl by (simp_all add: s1_def)
  have "entry t (PX 0 va) \<noteq> 0"
    using pt_wf_tbl(2,3) [OF wf t] by (intro entry_nonzero unat_PX) simp_all
  moreover have "\<not> ld64 (ram s) (entry t (PX 0 va)) AND PTE_V \<noteq> 0"
    using assms(3) t by (simp add: lookup_def split: if_splits)
  ultimately show "vmmap_loop (Suc fuel) root va vl pa perm s =
      (if va = vl then Inr (True, s1) else vmmap_loop fuel root (va + PGSIZE) vl (pa + PGSIZE) perm s1)"
    using walk_existing [OF t] unfolding s1_def by (simp add: vmmap_step Let_def del: vmmap_loop.simps)
qed

text \<open>The pages of a range as a list; a run of \<open>vmmap_loop\<close> over the rest of a range.\<close>

lemma vmmap_loop_in_table:
  assumes "pt_wf s fl root" and "\<forall>i < Suc n. tbl (ram s) root (nth_page va i) 2 \<noteq> None"
    and "\<forall>i < Suc n. lookup (ram s) root (nth_page va i) = None"
    and "\<forall>j < Suc n. \<forall>i < j. \<not> same_page (nth_page va i) (nth_page va j)" and "n < fuel" and "vl = nth_page va n"
  shows "\<exists>s'. vmmap_loop fuel root va vl pa perm s = Inr (True, s') \<and> pt_wf s' fl root \<and> ekernel s' = ekernel s \<and>
    (\<forall>va'. (\<forall>i < Suc n. \<not> same_page (nth_page va i) va') \<longrightarrow> lookup (ram s') root va' = lookup (ram s) root va')"
  using assms
proof (induction n arbitrary: fuel va pa s)
  case 0
  then obtain t fuel' where t: "tbl (ram s) root va 2 = Some t" "lookup (ram s) root va = None" "fuel = Suc fuel'" "vl = va"
    by (cases fuel) auto
  note v = vmmap_existing [OF 0(1) t(1,2), where pa = pa and perm = perm]
  show ?case
    using v(1) [where fuel = fuel' and vl = vl] v(2,4,5) t(3,4) by (simp del: vmmap_loop.simps)
next
  case (Suc n)
  obtain t fuel' where t: "tbl (ram s) root va 2 = Some t" "lookup (ram s) root va = None" "fuel = Suc fuel'"
    using Suc.prems(2,3,5) by (cases fuel) (auto simp only: all_less_Suc [of "Suc n"] nth_page_0)
  define s1 where "s1 = s\<lparr>ram := st64 (ram s) (entry t (PX 0 va)) (leaf pa perm)\<rparr>"
  note v = vmmap_existing [OF Suc.prems(1) t(1,2), where pa = pa and perm = perm, folded s1_def]
  have far: "\<not> same_page va (nth_page va (Suc i))" if "i < Suc n" for i
    using Suc.prems(4) that by (metis Suc_less_eq nth_page_0 zero_less_Suc)
  then have ne: "va \<noteq> vl"
    using Suc.prems(6) by (metis lessI same_page_def same_path_refl)
  have "\<exists>s'. vmmap_loop fuel' root (va + PGSIZE) vl (pa + PGSIZE) perm s1 = Inr (True, s') \<and> pt_wf s' fl root \<and>
      ekernel s' = ekernel s1 \<and>
      (\<forall>va'. (\<forall>i < Suc n. \<not> same_page (nth_page (va + PGSIZE) i) va') \<longrightarrow> lookup (ram s') root va' = lookup (ram s1) root va')"
  proof (rule Suc.IH [OF v(2)])
    show "\<forall>i < Suc n. tbl (ram s1) root (nth_page (va + PGSIZE) i) 2 \<noteq> None"
      using Suc.prems(2) unfolding v(3) nth_page_Suc [symmetric] by blast
    show "\<forall>i < Suc n. lookup (ram s1) root (nth_page (va + PGSIZE) i) = None"
      using Suc.prems(3) far v(4) unfolding nth_page_Suc [symmetric] by (metis Suc_less_eq)
    show "\<forall>j < Suc n. \<forall>i < j. \<not> same_page (nth_page (va + PGSIZE) i) (nth_page (va + PGSIZE) j)"
      using Suc.prems(4) unfolding nth_page_Suc [symmetric] by (metis Suc_less_eq)
  qed (use Suc.prems(5,6) t(3) in \<open>simp_all add: nth_page_Suc\<close>)
  then obtain s' where s': "vmmap_loop fuel' root (va + PGSIZE) vl (pa + PGSIZE) perm s1 = Inr (True, s')" "pt_wf s' fl root"
      "ekernel s' = ekernel s"
      "\<And>va'. (\<forall>i < Suc n. \<not> same_page (nth_page va (Suc i)) va') \<Longrightarrow> lookup (ram s') root va' = lookup (ram s1) root va'"
    unfolding nth_page_Suc [symmetric] v(5) by metis
  have "lookup (ram s') root va' = lookup (ram s) root va'" if "\<forall>i < Suc (Suc n). \<not> same_page (nth_page va i) va'" for va'
    using that s'(4) [of va'] v(4) [of va'] by (simp only: all_less_Suc [of "Suc n"] nth_page_0) simp
  then show ?case
    using v(1) [where fuel = fuel' and vl = vl] ne t(3) s' by (simp del: vmmap_loop.simps)
qed

text \<open>The first page of a region may need new tables; the others then find theirs.\<close>

lemma kvmmap_region:
  assumes wf: "pt_wf s fl root" and "2 \<le> length fl" and "al_page a" and "unat a + 4096 * Suc n \<le> 549755813888"
    and "unat sz = 4096 * Suc n" and table: "\<forall>i < Suc n. same_path 2 a (nth_page a i)"
    and un: "\<forall>i < Suc n. lookup (ram s) root (nth_page a i) = None"
  shows "\<exists>s' fl'. kvmmap root a pa sz perm s = Inr s' \<and> pt_wf s' fl' root \<and> length fl \<le> length fl' + 2 \<and>
    ekernel s' = ekernel s \<and>
    (\<forall>va'. (\<forall>i < Suc n. \<not> same_page (nth_page a i) va') \<longrightarrow> lookup (ram s') root va' = lookup (ram s) root va')"
proof -
  have sz: "unat a mod 4096 = 0" "unat sz mod 4096 = 0" "sz \<noteq> 0"
    using assms(3,5) by (auto simp: al_page_def)
  from vmmap_range [OF this, of root] obtain n' where n': "unat sz div 4096 = Suc n'"
      "vmmap root a sz pa perm s = vmmap_loop (Suc n') root a (nth_page a n') pa perm s"
    by metis
  have "n' = n"
    using n'(1) assms(5) by simp
  then have run: "vmmap root a sz pa perm s = vmmap_loop (Suc n) root a (nth_page a n) pa perm s"
    using n'(2) by simp
  have distinct: "\<forall>j < Suc n. \<forall>i < j. \<not> same_page (nth_page a i) (nth_page a j)"
    using nth_page_distinct [OF assms(3), of "Suc n"] assms(4) by auto
  obtain pte s1 where w: "walk root a True s = (pte, s1)"
    by fastforce
  have pte: "pte \<noteq> 0"
    using walk_alloc [OF wf, of a] w assms(2) by (metis linorder_not_less prod.inject)
  let ?s2 = "s1\<lparr>ram := st64 (ram s1) pte (leaf pa perm)\<rparr>"
  obtain fl1 where e: "pt_ext root s fl ?s2 fl1" "length fl \<le> length fl1 + 2"
      "\<And>va'. lookup (ram ?s2) root va' = (if same_page a va' then Some (leaf pa perm) else lookup (ram s) root va')"
    using map_page(2) [OF wf w pte, of pa perm] by auto
  have wf2: "pt_wf ?s2 fl1 root" "ekernel ?s2 = ekernel s"
    using e(1) by (simp_all add: pt_ext_def)
  have "lookup (ram s) root a = None"
    using un by (metis nth_page_0 zero_less_Suc)
  then have "\<not> ld64 (ram s1) pte AND PTE_V \<noteq> 0"
    using map_page(1) [OF wf w pte] by simp
  then have step: "vmmap_loop (Suc n) root a (nth_page a n) pa perm s =
      (if a = nth_page a n then Inr (True, ?s2)
       else vmmap_loop n root (a + PGSIZE) (nth_page a n) (pa + PGSIZE) perm ?s2)"
    using w pte by (simp add: vmmap_step del: vmmap_loop.simps)
  have ok: "kvmmap root a pa sz perm s = Inr s'" if "vmmap_loop (Suc n) root a (nth_page a n) pa perm s = Inr (True, s')" for s'
    using run that by (simp add: kvmmap_def del: vmmap_loop.simps)
  show ?thesis
  proof (cases n)
    case 0
    then have "kvmmap root a pa sz perm s = Inr ?s2"
      using step by (intro ok) simp
    then show ?thesis
      using wf2 e(2,3) 0 by (intro exI [of _ ?s2] exI [of _ fl1]) simp
  next
    case (Suc m)
    have far: "\<not> same_page a (nth_page a (Suc i))" if "i < n" for i
      using distinct that by (metis Suc_less_eq nth_page_0 zero_less_Suc)
    then have ne: "a \<noteq> nth_page a n"
      using Suc by (metis lessI same_page_def same_path_refl)
    have "lookup (ram ?s2) root a \<noteq> None"
      unfolding e(3) by (simp add: same_page_def)
    then have t: "tbl (ram ?s2) root a 2 \<noteq> None"
      by (auto simp: lookup_def split: option.splits)
    have "\<exists>s'. vmmap_loop n root (a + PGSIZE) (nth_page a n) (pa + PGSIZE) perm ?s2 = Inr (True, s') \<and> pt_wf s' fl1 root \<and>
        ekernel s' = ekernel ?s2 \<and>
        (\<forall>va'. (\<forall>i < Suc m. \<not> same_page (nth_page (a + PGSIZE) i) va') \<longrightarrow> lookup (ram s') root va' = lookup (ram ?s2) root va')"
    proof (rule vmmap_loop_in_table [OF wf2(1)])
      have "tbl (ram ?s2) root (nth_page a (Suc i)) 2 \<noteq> None" if "i < Suc m" for i
        using table [rule_format, of "Suc i"] t tbl_same_path [of 2 a "nth_page a (Suc i)" "ram ?s2" root] that Suc by simp
      then show "\<forall>i < Suc m. tbl (ram ?s2) root (nth_page (a + PGSIZE) i) 2 \<noteq> None"
        unfolding nth_page_Suc [symmetric] by blast
      show "\<forall>i < Suc m. lookup (ram ?s2) root (nth_page (a + PGSIZE) i) = None"
        using far un unfolding nth_page_Suc [symmetric] e(3) Suc by simp
      show "\<forall>j < Suc m. \<forall>i < j. \<not> same_page (nth_page (a + PGSIZE) i) (nth_page (a + PGSIZE) j)"
        using distinct unfolding nth_page_Suc [symmetric] Suc by blast
    qed (use Suc in \<open>simp_all add: nth_page_Suc\<close>)
    then obtain s' where s': "vmmap_loop n root (a + PGSIZE) (nth_page a n) (pa + PGSIZE) perm ?s2 = Inr (True, s')" "pt_wf s' fl1 root"
        "ekernel s' = ekernel s"
        "\<And>va'. (\<forall>i < Suc m. \<not> same_page (nth_page a (Suc i)) va') \<Longrightarrow> lookup (ram s') root va' = lookup (ram ?s2) root va'"
      unfolding nth_page_Suc [symmetric] wf2(2) by blast
    have "lookup (ram s') root va' = lookup (ram s) root va'" if "\<forall>i < Suc n. \<not> same_page (nth_page a i) va'" for va'
      using that s'(4) [of va'] unfolding Suc e(3) by (simp only: all_less_Suc [of "Suc m"] nth_page_0) simp
    moreover have "kvmmap root a pa sz perm s = Inr s'"
      using step ne s'(1) by (intro ok) simp
    ultimately show ?thesis
      using s'(2,3) e(2) by blast
  qed
qed

text \<open>Regions still to be mapped: page-aligned, in the address space and without a mapping.\<close>

definition todo :: "u64 \<Rightarrow> nat \<Rightarrow> (u64 \<times> nat) list \<Rightarrow> u64 \<Rightarrow> pmem \<Rightarrow> bool" where
  "todo root m rs end s \<longleftrightarrow> (\<exists>fl. pt_wf s fl root \<and> m \<le> length fl) \<and> ekernel s = end \<and>
     (\<forall>(b, k) \<in> set rs. al_page b \<and> unat b + 4096 * k \<le> 549755813888 \<and> (\<forall>i < k. lookup (ram s) root (nth_page b i) = None))"

lemma region_far:
  assumes "al_page a" and "unat a + 4096 * n \<le> 549755813888" and "al_page b" and "unat b + 4096 * k \<le> 549755813888"
    and "unat b + 4096 * k \<le> unat a \<or> unat a + 4096 * n \<le> unat b" and "i < n" and "j < k"
  shows "\<not> same_page (nth_page a i) (nth_page b j)"
proof
  assume sp: "same_page (nth_page a i) (nth_page b j)"
  have u: "unat (nth_page a i) = unat a + 4096 * i" "unat (nth_page b j) = unat b + 4096 * j"
    using assms by (simp_all add: unat_nth_page)
  then have "al_page (nth_page a i)" "al_page (nth_page b j)" "unat (nth_page a i) < 2 ^ 39" "unat (nth_page b j) < 2 ^ 39"
    using assms by (simp_all add: al_page_def)
  with sp have "nth_page a i = nth_page b j"
    by (rule same_page_eq)
  then show False
    using u assms(5-7) by auto
qed

lemma kvmmap_todo:
  assumes "todo root m' ((a, Suc n) # rs) end s" and m: "m' = m + 2" and "unat sz = 4096 * Suc n"
    and "\<forall>i < Suc n. same_path 2 a (nth_page a i)"
    and "\<forall>(b, k) \<in> set rs. unat b + 4096 * k \<le> unat a \<or> unat a + 4096 * Suc n \<le> unat b"
  shows "\<exists>s'. kvmmap root a pa sz perm s = Inr s' \<and> todo root m rs end s'"
proof -
  obtain fl where fl: "pt_wf s fl root" "m + 2 \<le> length fl" and a: "al_page a" "unat a + 4096 * Suc n \<le> 549755813888"
      "\<forall>i < Suc n. lookup (ram s) root (nth_page a i) = None" and en: "ekernel s = end"
    using assms(1) m by (auto simp: todo_def)
  then have "2 \<le> length fl"
    by simp
  from kvmmap_region [OF fl(1) this a(1,2) assms(3,4) a(3), of pa perm]
  obtain s' fl' where s': "kvmmap root a pa sz perm s = Inr s'" "pt_wf s' fl' root" "length fl \<le> length fl' + 2"
      "ekernel s' = ekernel s"
      "\<And>va'. (\<forall>i < Suc n. \<not> same_page (nth_page a i) va') \<Longrightarrow> lookup (ram s') root va' = lookup (ram s) root va'"
    by blast
  have "lookup (ram s') root (nth_page b j) = None" if b: "(b, k) \<in> set rs" "j < k" for b k j
  proof -
    have r: "al_page b" "unat b + 4096 * k \<le> 549755813888" "lookup (ram s) root (nth_page b j) = None"
      using assms(1) b by (auto simp: todo_def)
    have "\<forall>i < Suc n. \<not> same_page (nth_page a i) (nth_page b j)"
      using region_far [OF a(1,2) r(1,2)] assms(5) b by blast
    then show ?thesis
      using s'(5) r(3) by simp
  qed
  then have "todo root m rs end s'"
    using assms(1) s'(2-4) fl(2) en unfolding todo_def by fastforce
  then show ?thesis
    using s'(1) by blast
qed

text \<open>
  A small machine: the kernel image ends twenty pages before the end of the RAM, and each of its
  four sections is one page.
\<close>

definition image :: ksyms where
  "image = \<lparr>stext = 0x80200000, etext = 0x80201000, srodata = 0x80201000, erodata = 0x80202000,
     sdata = 0x80202000, edata = 0x80203000, sbss = 0x80203000, ebss = 0x80204000\<rparr>"

lemma freerange_ekernel: "freerange_loop fuel p e s = Inr s' \<Longrightarrow> ekernel s' = ekernel s"
proof (induction fuel arbitrary: p s)
  case 0
  then show ?case
    by (subst (asm) freerange_loop.simps) (simp split: if_splits)
next
  case (Suc fuel)
  then show ?case
    by (subst (asm) (2) freerange_loop.simps) (auto simp: bindR_eq_Inr kfree_def split: if_splits)
qed

lemma length_pages [simp]: "length (pages p n) = n"
  by (induction n arbitrary: p) simp_all

lemma small_machine:
  obtains s0 fl where "kmem_inv s0 fl" "length fl = 20" "ekernel s0 = 0x87FEC000"
proof -
  let ?s = "one_page\<lparr>memlist := 0, ekernel := 0x87FEC000\<rparr>" and ?p = "0x87FEC000 :: u64"
  have "kmem_inv ?s []"
    by (intro kmem_inv_empty) simp_all
  then have "\<exists>s'. freerange_loop 20 ?p PHYEND ?s = Inr s' \<and> kmem_inv s' (rev (pages ?p 20) @ [])"
    by (rule freerange_loop_ok) (simp_all add: al_page_def)
  then obtain s0 where "freerange_loop 20 ?p PHYEND ?s = Inr s0" "kmem_inv s0 (rev (pages ?p 20))"
    by auto
  then show thesis
    using freerange_ekernel [of 20 ?p PHYEND ?s s0] that [of s0 "rev (pages ?p 20)"] by (simp del: pages.simps)
qed

lemma image_table:
  "\<forall>i \<in> set [0..<20]. PX 2 (nth_page 0x87FEC000 i) = PX 2 0x87FEC000 \<and> PX 1 (nth_page 0x87FEC000 i) = PX 1 0x87FEC000"
  by (simp add: nth_page_def PX_def upt_rec)

lemma uvmfree_panics_witness:
  "\<exists>s0 kroot s u s1. kvmmake image s0 = Inr (kroot, s) \<and> uvmcreate s = (u, s1) \<and> u \<noteq> 0 \<and>
    uvmfree u 0 0 0 (uvmmapkernel kroot u s1) = Inl (Panic ''freewalk: leaf'')"
proof -
  obtain s0 fl where s0: "kmem_inv s0 fl" "length fl = 20" "ekernel s0 = 0x87FEC000"
    by (rule small_machine)
  then obtain r ps where fl: "fl = r # ps"
    by (cases fl) auto
  obtain k0 where k: "kalloc s0 = (r, k0)" "kmem_inv k0 ps" "ram k0 = (\<lambda>x. if PGROUNDDOWN x = r then 0 else ram s0 x)"
      "\<forall>q. frame_ok k0 q = frame_ok s0 q"
    using kalloc_some [of s0 r ps] s0(1) fl by blast
  have r: "frame_ok k0 r" "r \<notin> set ps"
    using kmem_inv_page [OF s0(1), of r] s0(1) fl k(4) by (auto simp: kmem_inv_def)
  have "PGROUNDDOWN x = r \<Longrightarrow> ram k0 x = 0" for x
    by (simp add: k(3))
  note e = empty_table [OF k(2) r this]
  have ek: "ekernel k0 = 0x87FEC000"
    using k(1) s0(3) by (auto simp: kalloc_def Let_def split: if_splits)
  let ?rs = "[(0x80200000, Suc 0), (0x80201000, Suc 0), (0x80202000, Suc 0), (0x80203000, Suc 0), (0x87FEC000, Suc 19),
    (UART0, Suc 0), (VIRTIO_BLK0, Suc 0), (SIFIVE_TEST_ADDR, Suc 0)]"
  have one: "\<forall>i < Suc 0. same_path 2 a (nth_page a i)" for a
    by simp
  have rest: "\<forall>i < Suc 19. same_path 2 0x87FEC000 (nth_page 0x87FEC000 i)"
    using image_table by (auto simp: same_path_def less_2_cases_iff)
  have k0: "todo r 19 ?rs 0x87FEC000 k0"
    using e s0(2) fl ek unfolding todo_def by (auto simp: al_page_def)
  obtain a where a: "kvmmap r 0x80200000 0x80200000 0x1000 (BITS_U8 1 OR BITS_U8 3) k0 = Inr a" "todo r 17 (tl ?rs) 0x87FEC000 a"
    using kvmmap_todo [OF k0, where m = 17 and sz = "0x1000", OF _ _ one] by fastforce
  obtain b where b: "kvmmap r 0x80201000 0x80201000 0x1000 (BITS_U8 1) a = Inr b" "todo r 15 (drop 2 ?rs) 0x87FEC000 b"
    using kvmmap_todo [OF a(2) [unfolded list.sel], where m = 15 and sz = "0x1000", OF _ _ one] by fastforce
  obtain c where c: "kvmmap r 0x80202000 0x80202000 0x1000 (BITS_U8 1 OR BITS_U8 2) b = Inr c" "todo r 13 (drop 3 ?rs) 0x87FEC000 c"
    using kvmmap_todo [of r 15 _ 0 _ "0x87FEC000" b, where m = 13 and sz = "0x1000", OF _ _ _ one] b(2) by fastforce
  obtain d where d: "kvmmap r 0x80203000 0x80203000 0x1000 (BITS_U8 1 OR BITS_U8 2) c = Inr d" "todo r 11 (drop 4 ?rs) 0x87FEC000 d"
    using kvmmap_todo [of r 13 _ 0 _ "0x87FEC000" c, where m = 11 and sz = "0x1000", OF _ _ _ one] c(2) by fastforce
  have "\<exists>f. kvmmap r 0x87FEC000 0x87FEC000 0x14000 (BITS_U8 1 OR BITS_U8 2) d = Inr f \<and> todo r 9 (drop 5 ?rs) 0x87FEC000 f"
    by (rule kvmmap_todo [OF _ _ _ rest, where m' = 11]) (use d(2) in simp_all)
  then obtain f where f: "kvmmap r 0x87FEC000 0x87FEC000 0x14000 (BITS_U8 1 OR BITS_U8 2) d = Inr f" "todo r 9 (drop 5 ?rs) 0x87FEC000 f"
    by blast
  obtain g where g: "kvmmap r UART0 UART0 0x1000 (BITS_U8 1 OR BITS_U8 2) f = Inr g" "todo r 7 (drop 6 ?rs) 0x87FEC000 g"
    using kvmmap_todo [of r 9 _ 0 _ "0x87FEC000" f, where m = 7 and sz = "0x1000", OF _ _ _ one] f(2) by fastforce
  obtain h where h: "kvmmap r VIRTIO_BLK0 VIRTIO_BLK0 0x1000 (BITS_U8 1 OR BITS_U8 2) g = Inr h" "todo r 5 (drop 7 ?rs) 0x87FEC000 h"
    using kvmmap_todo [of r 7 _ 0 _ "0x87FEC000" g, where m = 5 and sz = "0x1000", OF _ _ _ one] g(2) by fastforce
  obtain s where s: "kvmmap r SIFIVE_TEST_ADDR SIFIVE_TEST_ADDR 0x1000 (BITS_U8 1 OR BITS_U8 2) h = Inr s" "todo r 3 [] 0x87FEC000 s"
    using kvmmap_todo [of r 5 _ 0 _ "0x87FEC000" h, where m = 3 and sz = "0x1000", OF _ _ _ one] h(2) by fastforce
  have make: "kvmmake image s0 = Inr (r, s)"
    using a b c d f g h s(1) by (simp add: kvmmake_def k(1) image_def todo_def)
  obtain fl' where "pt_wf s fl' r" "3 \<le> length fl'"
    using s(2) by (auto simp: todo_def)
  then obtain u us s1 where u: "kalloc s = (u, s1)" "fl' = u # us" "kmem_inv s fl'"
    using kalloc_some [of s "hd fl'" "tl fl'"] by (cases fl') (auto simp: pt_wf_def)
  then have u0: "u \<noteq> 0" "uvmcreate s = (u, s1)"
    using kmem_inv_page [of s fl' u] by (auto simp: uvmcreate_def)
  have "fl \<noteq> []"
    using fl by simp
  from uvmfree_panics [OF s0(1) this make u0(2,1)] show ?thesis
    using make u0 by blast
qed

end
