(* ===== verification/Sched.thy ===== *)
theory Sched
  imports Trap Virtio
begin

text \<open>
  The scheduler of \<open>kernel/task/scheduler.c\<close> as a state machine: its loop dispatches the head
  of the ready list or idles, and goes on when the process switches back. The specification is
  a queue; the intrusive list of process objects implements it. Between the steps of the
  scheduler other code runs; what the scheduler relies on is that it only appends to the
  queue, and the system calls, traps and the program loader of the kernel are shown to do so.
\<close>

section \<open>The ready list\<close>

text \<open>The processes \<open>ps\<close>, linked in this order by their \<open>prev\<close> and \<open>next\<close> fields.\<close>

fun linked :: "(u64 \<Rightarrow> proc option) \<Rightarrow> u64 \<Rightarrow> u64 list \<Rightarrow> bool" where
  "linked P prev [] \<longleftrightarrow> True"
| "linked P prev (p # ps) \<longleftrightarrow> p \<noteq> 0 \<and>
     (\<exists>x. P p = Some x \<and> p_prev x = prev \<and> p_next x = (case ps of [] \<Rightarrow> 0 | q # _ \<Rightarrow> q)) \<and> linked P p ps"

definition ready :: "'d kstate \<Rightarrow> u64 list \<Rightarrow> bool" where
  "ready s ps \<longleftrightarrow> linked (procs s) 0 ps \<and> distinct ps \<and>
     ready_list_head s = (case ps of [] \<Rightarrow> 0 | p # _ \<Rightarrow> p) \<and>
     ready_list_tail s = (if ps = [] then 0 else last ps)"

lemma linked_upd: "p \<notin> set ps \<Longrightarrow> linked (P(p \<mapsto> x)) prev ps = linked P prev ps"
  by (induction ps arbitrary: prev) auto

lemma linked_cong: "(\<And>p. p \<in> set ps \<Longrightarrow> P p = Q p) \<Longrightarrow> linked P prev ps = linked Q prev ps"
  by (induction ps arbitrary: prev) auto

lemma linked_new_head:
  assumes "linked P prev (q # ps)" and "P q = Some y" and "q \<notin> set ps"
  shows "linked (P(q \<mapsto> y\<lparr>p_prev := prev'\<rparr>)) prev' (q # ps)"
  using assms by (auto simp: linked_upd)

text \<open>The hart that runs the scheduler and the process it runs.\<close>

definition hart :: "'d kstate \<Rightarrow> nat" where
  "hart s = unat (ucast (r_tp (csr s)) :: i32)"

definition running :: "'d kstate \<Rightarrow> u64" where
  "running s = c_proc (cpus s ! hart s)"

section \<open>One iteration\<close>

lemma sched_pick_empty:
  assumes "ready s []" and "bsync D (kfs s) = Inr ((), f)"
  shows "\<exists>s'. sched_pick D s = Inr (0, s') \<and> kfs s' = f \<and> ready s' [] \<and> procs s' = procs s \<and>
    cpus s' = cpus s \<and> hart s' = hart s \<and> r_sstatus (csr s') AND SSTATUS_SIE \<noteq> 0"
proof -
  have "(w AND NOT SSTATUS_SIE OR SSTATUS_SIE) AND SSTATUS_SIE = SSTATUS_SIE" for w :: u64
    by (rule bit_word_eqI) (auto simp: bit_simps)
  then show ?thesis
    using assms
    by (simp add: sched_pick_def kop_simps curcpu_def cpuid_def intr_off_def intr_on_def fsK_def ready_def hart_def)
qed

lemma sched_pick_head:
  assumes "ready s (p # ps)" and "bsync D (kfs s) = Inr ((), f)" and "hart s < length (cpus s)"
    and "procs s p = Some x"
  shows "\<exists>s'. sched_pick D s = Inr (p, s') \<and> kfs s' = f \<and> ready s' ps \<and>
    procs s' p = Some (x\<lparr>p_state := RUNNING\<rparr>) \<and> running s' = p \<and> hart s' = hart s \<and>
    length (cpus s') = length (cpus s) \<and>
    (\<forall>q. q \<noteq> p \<longrightarrow> map_option p_state (procs s' q) = map_option p_state (procs s q))"
proof -
  have h: "ready_list_head s = p" "p \<noteq> 0" "linked (procs s) p ps" "p \<notin> set ps" "distinct ps"
    "p_next x = (case ps of [] \<Rightarrow> 0 | q # _ \<Rightarrow> q)" "ready_list_tail s = last (p # ps)"
    using assms(1,4) by (auto simp: ready_def)
  show ?thesis
  proof (cases ps)
    case Nil
    then show ?thesis
      using h assms(2-4)
      by (simp add: sched_pick_def kop_simps curcpu_def cpuid_def intr_off_def fsK_def get_proc_def put_proc_def
          ready_def hart_def running_def)
  next
    case (Cons q qs)
    then obtain y where y: "procs s q = Some y" "q \<noteq> 0" "q \<noteq> p"
      using h by auto
    have "linked ((procs s)(q \<mapsto> y\<lparr>p_prev := 0\<rparr>)) 0 ps"
      using linked_new_head [of "procs s" p q qs y 0] h Cons y by auto
    then have l: "linked ((procs s)(q \<mapsto> y\<lparr>p_prev := 0\<rparr>, p \<mapsto> x\<lparr>p_state := RUNNING\<rparr>)) 0 ps"
      using h(4) by (simp add: linked_upd)
    show ?thesis
      using h Cons y assms(2-4) l
      by (simp add: sched_pick_def kop_simps curcpu_def cpuid_def intr_off_def fsK_def get_proc_def put_proc_def
          ready_def hart_def running_def)
  qed
qed


lemma sched_back_run:
  assumes "hart s < length (cpus s)"
  shows "sched_back s = Inr ((), s\<lparr>cpus := (cpus s)[hart s := (cpus s ! hart s)\<lparr>c_proc := 0\<rparr>]\<rparr>)"
  by (simp add: sched_back_def kop_simps curcpu_def cpuid_def hart_def)

section \<open>Other code\<close>

text \<open>
  What the scheduler relies on while other code runs, that of the process it has switched to
  or of an interrupt: the code may change the file system, the memory, the registers and every
  process object in any way that leaves the block cache coherent and the hart and its current
  process as they are, and it may append the processes \<open>qs\<close> to the ready list.
\<close>

definition appends :: "('d fs_state \<Rightarrow> bool) \<Rightarrow> 'd kstate \<Rightarrow> u64 list \<Rightarrow> 'd kstate \<Rightarrow> bool" where
  "appends I s qs s' \<longleftrightarrow> I (kfs s') \<and> hart s' = hart s \<and> length (cpus s') = length (cpus s) \<and>
     running s' = running s \<and> (\<forall>ps. ready s ps \<longrightarrow> ready s' (ps @ qs))"

text \<open>Operations that keep a part \<open>g\<close> of the state.\<close>

definition keeps :: "('s \<Rightarrow> 'b) \<Rightarrow> ('s, 'a) kop \<Rightarrow> bool" where
  "keeps g m \<longleftrightarrow> (\<forall>s x s'. m s = Inr (x, s') \<longrightarrow> g s' = g s)"

named_theorems keeps_intros \<open>operations that keep a part of the state\<close>

lemma keepsD: "keeps g m \<Longrightarrow> m s = Inr (x, s') \<Longrightarrow> g s' = g s"
  by (simp add: keeps_def)

lemma keeps_basic [keeps_intros]:
  "keeps g (retK x)" "keeps g (getK h)" "keeps g (failK e)" "keeps g (needK e oh)"
  "(\<And>s. g (f s) = g s) \<Longrightarrow> keeps g (modK f)"
  by (auto simp: keeps_def kop_simps split: option.splits)

lemma keeps_bind [keeps_intros]: "keeps g m \<Longrightarrow> (\<And>x. keeps g (k x)) \<Longrightarrow> keeps g (bindK m k)"
  by (fastforce simp: keeps_def bindK_run bindR_eq_Inr)

lemma keeps_then [keeps_intros]: "keeps g m \<Longrightarrow> keeps g k \<Longrightarrow> keeps g (thenK m k)"
  unfolding thenK_def by (rule keeps_bind)

lemma keeps_control [keeps_intros]:
  "keeps g m \<Longrightarrow> keeps g n \<Longrightarrow> keeps g (if b then m else n)"
  "keeps g m \<Longrightarrow> (\<And>x. r = Some x \<Longrightarrow> keeps g (k x)) \<Longrightarrow> keeps g (case r of None \<Rightarrow> m | Some x \<Rightarrow> k x)"
  "(\<And>x y. keeps g (h x y)) \<Longrightarrow> keeps g (case z of (x, y) \<Rightarrow> h x y)"
  "keeps g m \<Longrightarrow> keeps g (assertK b e m)"
  by (auto simp: keeps_def kop_simps split: option.splits prod.splits if_splits)

lemma keeps_kfs [keeps_intros]:
  "(\<And>s f. g (s\<lparr>kfs := f\<rparr>) = g s) \<Longrightarrow> keeps g (fsK m)"
  "(\<And>s f. g (s\<lparr>kfs := f\<rparr>) = g s) \<Longrightarrow> keeps g (memK n)"
  "(\<And>s f. g (s\<lparr>kfs := f\<rparr>) = g s) \<Longrightarrow> keeps g (memU l)"
  by (auto simp: keeps_def fsK_def memK_def memU_def bindR_eq_Inr)

text \<open>
  The globals of the scheduler and the hart; with the process objects, everything of the
  scheduler's state.
\<close>

definition globals :: "'d kstate \<Rightarrow> u64 \<times> u64 \<times> cpu list \<times> nat" where
  "globals s = (ready_list_head s, ready_list_tail s, cpus s, hart s)"

lemma globals_upd [simp]:
  "globals (s\<lparr>kfs := f\<rparr>) = globals s" "globals (s\<lparr>procs := P\<rparr>) = globals s" "globals (s\<lparr>tfs := T\<rparr>) = globals s"
  "globals (s\<lparr>old_procs := O'\<rparr>) = globals s" "globals (s\<lparr>pid_bitmap := bm\<rparr>) = globals s"
  "globals (s\<lparr>last_pid := l\<rparr>) = globals s" "globals (s\<lparr>forkret_init := i\<rparr>) = globals s"
  "r_tp c = r_tp (csr s) \<Longrightarrow> globals (s\<lparr>csr := c\<rparr>) = globals s"
  by (simp_all add: globals_def hart_def)

lemma appends_keeps:
  assumes "globals s' = globals s" and "I (kfs s')" and "\<And>ps p. ready s ps \<Longrightarrow> p \<in> set ps \<Longrightarrow> procs s' p = procs s p"
  shows "appends I s [] s'"
proof -
  have g: "ready_list_head s' = ready_list_head s" "ready_list_tail s' = ready_list_tail s" "cpus s' = cpus s" "hart s' = hart s"
    using assms(1) by (simp_all add: globals_def)
  have "ready s' ps" if "ready s ps" for ps
    using that assms(3) [OF that] linked_cong [of ps "procs s'" "procs s" 0] g by (simp add: ready_def)
  then show ?thesis
    using assms(2) g by (simp add: appends_def running_def)
qed

text \<open>
  Traps and system calls keep the process objects and the globals of the scheduler. The
  parameter \<open>M\<close>, the access to user memory, is assumed to do so.
\<close>

lemma keeps_task [keeps_intros]:
  "keeps g curproc" "keeps g curcpu" "keeps g (get_proc p)" "keeps g (get_tf p)" "keeps g (argraw i)"
  "keeps g (argint i)" "keeps g (argaddr i)" "keeps g (argfd i)"
  by (auto simp: curproc_def curcpu_def cpuid_def get_proc_def get_tf_def argraw_def argint_def argaddr_def argfd_def Let_def
      intro!: keeps_intros)

lemma keeps_usertrap:
  assumes "\<And>a n. keeps (\<lambda>s. (globals s, procs s)) (uload M a n)" and "\<And>a xs. keeps (\<lambda>s. (globals s, procs s)) (ustore M a xs)"
  shows "keeps (\<lambda>s. (globals s, procs s)) (usertrap D U M)"
proof -
  let ?g = "\<lambda>s. (globals s, procs s)"
  have "keeps ?g (sys_read D U M)" "keeps ?g (sys_write D U M)"
    unfolding sys_read_def sys_write_def by (intro keeps_intros assms; simp)+
  then have "syscalls D U M n = Some f \<Longrightarrow> keeps ?g f" for n f
    by (auto simp: syscalls_def sys_execve_def keeps_basic split: if_splits)
  then show ?thesis
    unfolding usertrap_def syscall_def intr_on_def trapret_def put_tf_def Let_def by (intro keeps_intros; simp)
qed

text \<open>
  \<open>kexec\<close>, with the allocation and the release of processes, keeps the globals and changes
  one process object at most, the one the slab allocator gives it.
\<close>

lemma keeps_freeproc:
  assumes "\<And>s f. g (s\<lparr>kfs := f\<rparr>) = g s" and "\<And>s bm. g (s\<lparr>pid_bitmap := bm\<rparr>) = g s"
    and "\<And>s T O'. g (s\<lparr>procs := (procs s)(p := None), tfs := T, old_procs := O'\<rparr>) = g s"
  shows "keeps g (freeproc p)"
  unfolding freeproc_def by (intro keeps_intros; simp add: assms)

definition but :: "u64 \<Rightarrow> 'd kstate \<Rightarrow> (u64 \<times> u64 \<times> cpu list \<times> nat) \<times> (u64 \<Rightarrow> proc option)" where
  "but p s = (globals s, (procs s)(p := None))"

lemma but_upd [simp]:
  "but p (s\<lparr>kfs := f\<rparr>) = but p s" "but p (s\<lparr>pid_bitmap := bm\<rparr>) = but p s" "but p (s\<lparr>last_pid := l\<rparr>) = but p s"
  "but p (s\<lparr>tfs := T\<rparr>) = but p s" "but p (s\<lparr>procs := (procs s)(p := x)\<rparr>) = but p s"
  "but p (s\<lparr>procs := (procs s)(p := x), tfs := T, old_procs := O'\<rparr>) = but p s"
  by (simp_all add: but_def globals_def hart_def)

lemma keeps_mapproc [keeps_intros]: "(\<And>s f. g (s\<lparr>kfs := f\<rparr>) = g s) \<Longrightarrow> keeps g mapproc"
  unfolding mapproc_def by (intro keeps_intros; simp)

lemma keeps_put_proc [keeps_intros]: "keeps (but p) (put_proc p x)"
  unfolding put_proc_def by (intro keeps_intros) simp

lemma keeps_put_tf [keeps_intros]: "keeps (but p) (put_tf a x)"
  unfolding put_tf_def by (intro keeps_intros) simp

lemma keeps_freeproc_but [keeps_intros]: "keeps (but p) (freeproc p)"
  by (rule keeps_freeproc) simp_all

text \<open>Results: \<open>m\<close> only returns values with \<open>Q\<close>.\<close>

definition yields :: "('a \<Rightarrow> bool) \<Rightarrow> ('s, 'a) kop \<Rightarrow> bool" where
  "yields Q m \<longleftrightarrow> (\<forall>s x s'. m s = Inr (x, s') \<longrightarrow> Q x)"

lemma yields_intros:
  "Q x \<Longrightarrow> yields Q (retK x)" "(\<And>x. yields Q (k x)) \<Longrightarrow> yields Q (bindK m k)" "yields Q n \<Longrightarrow> yields Q (thenK l n)"
  "yields Q m1 \<Longrightarrow> yields Q m2 \<Longrightarrow> yields Q (if b then m1 else m2)"
  by (auto simp: yields_def kop_simps bindR_eq_Inr)

lemma keeps_allocpid [keeps_intros]:
  "keeps (but p) (\<lambda>s. (let (pid, bm, l) = allocpid (pid_bitmap s, last_pid s) in Inr (pid, s\<lparr>pid_bitmap := bm, last_pid := l\<rparr>)))"
  by (auto simp: keeps_def split: prod.splits)

lemma allocproc_parts:
  "\<exists>R. allocproc fa = bindK (getK proc_cache) (\<lambda>c. bindK (memK (cache_alloc c)) (\<lambda>p. if p = 0 then retK 0 else R p)) \<and>
    (\<forall>p. keeps (but p) (R p) \<and> yields (\<lambda>r. r = 0 \<or> r = p) (R p))"
proof (intro exI conjI allI)
  show "allocproc fa = bindK (getK proc_cache) (\<lambda>c. bindK (memK (cache_alloc c)) (\<lambda>p. if p = 0 then retK 0 else
     bindK (\<lambda>s. (let (pid, bm, l) = allocpid (pid_bitmap s, last_pid s)
                in Inr (pid, s\<lparr>pid_bitmap := bm, last_pid := l\<rparr>))) (\<lambda>pid.
     bindK (getK old_procs) (\<lambda>old.
     let x = (old p)\<lparr>p_pid := scast pid, p_state := SLEEPING, p_sz := 0, p_brk := 0, p_stack_bottom := 0, p_stack_top := 0\<rparr> in
     bindK (memK (\<lambda>k. Inr (kalloc k))) (\<lambda>kstack.
     thenK (put_proc p (x\<lparr>p_kstack := kstack\<rparr>))
    (if kstack = 0 then thenK (freeproc p) (retK 0)
     else
     let tf = kstack + PGSIZE - SIZEOF_TRAPFRAME; x = x\<lparr>p_kstack := kstack, p_trapframe := tf\<rparr> in
     thenK (put_proc p x)
    (thenK (put_tf tf zero_tf)
    (bindK mapproc (\<lambda>root.
     let x = x\<lparr>p_root := root\<rparr> in
     thenK (put_proc p x)
    (if root = 0 then thenK (freeproc p) (retK 0)
     else
     thenK (put_proc p (x\<lparr>p_context := zero_ctxt\<lparr>ctx_sp := kstack + PGSIZE, ctx_ra := fa\<rparr>\<rparr>))
    (retK p)))))))))))"
    by (simp only: allocproc_def)
qed (unfold Let_def [of "_ :: proc"] Let_def [of "_ :: u64"], (intro keeps_intros yields_intros; simp)+)

lemma allocproc_but:
  fixes s :: "'d kstate"
  assumes "allocproc fa s = Inr (r, s')"
  shows "\<exists>p. (r = 0 \<or> r = p) \<and> but p s' = but p s"
proof -
  obtain R :: "u64 \<Rightarrow> ('d kstate, u64) kop" where R: "allocproc fa = bindK (getK proc_cache) (\<lambda>c. bindK (memK (cache_alloc c)) (\<lambda>p. if p = 0 then retK 0 else R p))"
      "\<And>p. keeps (but p) (R p)" "\<And>p. yields (\<lambda>r. r = 0 \<or> r = p) (R p)"
    using allocproc_parts by blast
  obtain p s1 where p: "memK (cache_alloc (proc_cache s)) s = Inr (p, s1)" "(if p = 0 then retK 0 else R p) s1 = Inr (r, s')"
    using assms by (auto simp: R(1) bindK_run bindR_eq_Inr)
  have "but p s1 = but p s"
    by (rule keepsD [of "but p" "memK (cache_alloc (proc_cache s))", OF _ p(1)]) (intro keeps_intros; simp)
  moreover have "p = 0 \<Longrightarrow> r = 0 \<and> s' = s1" "p \<noteq> 0 \<Longrightarrow> but p s' = but p s1 \<and> (r = 0 \<or> r = p)"
    using p(2) keepsD [OF R(2), of p s1 r s'] R(3) [of p] by (auto simp: yields_def)
  ultimately show ?thesis
    by metis
qed

lemma keeps_load_segs [keeps_intros]:
  "(\<And>s f. g (s\<lparr>kfs := f\<rparr>) = g s) \<Longrightarrow> keeps g (load_segs D U ip root tab is max_va)"
proof (induction "is" arbitrary: max_va)
  case Nil
  then show ?case
    unfolding load_segs.simps by (intro keeps_intros)
next
  case (Cons i "is")
  show ?case
    unfolding load_segs.simps load_seg_def storeK_def Let_def
    by (intro keeps_intros Cons.IH; simp add: Cons.prems)
qed

lemma keeps_exec_exits [keeps_intros]:
  "keeps (but p) (exec_fail D p ip)" "keeps (but p) (exec_fail_tab D tabp p ip)"
  unfolding exec_fail_tab_def exec_fail_def by (intro keeps_intros; simp)+

lemma kexec_parts:
  "\<exists>A R. kexec D U fa cell path argv = bindK (fsK (namei D path)) (\<lambda>ip. if ip = 0 then retK (- 1) else
      bindK (fsK (get_inode ip)) (\<lambda>x. if i_type x \<noteq> INODE_FILE then A ip else
      bindK (allocproc fa) (\<lambda>p. if p = 0 then A ip else R ip p))) \<and>
    (\<forall>ip p. keeps (but p) (A ip) \<and> keeps (but p) (R ip p))"
  unfolding kexec_def
  by (intro exI conjI allI, rule refl)
    (unfold Let_def storeK_def, (intro keeps_intros; simp)+)

lemma kexec_but:
  fixes s :: "'d kstate"
  assumes "kexec D U fa cell path argv s = Inr (r, s')"
  shows "\<exists>p. but p s' = but p s"
proof -
  obtain A R where A: "kexec D U fa cell path argv = bindK (fsK (namei D path)) (\<lambda>ip. if ip = 0 then retK (- 1) else
      bindK (fsK (get_inode ip)) (\<lambda>x. if i_type x \<noteq> INODE_FILE then A ip else
      bindK (allocproc fa) (\<lambda>p. if p = 0 then A ip else R ip p)))"
      and k: "\<And>ip p. keeps (but p) (A ip)" "\<And>ip p. keeps (but p) (R ip p)"
    using kexec_parts [where D = D and U = U] by blast
  obtain ip s1 where i: "fsK (namei D path) s = Inr (ip, s1)" and i2: "(if ip = 0 then retK (- 1) else
      bindK (fsK (get_inode ip)) (\<lambda>x. if i_type x \<noteq> INODE_FILE then A ip else
      bindK (allocproc fa) (\<lambda>p. if p = 0 then A ip else R ip p))) s1 = Inr (r, s')"
    using assms by (auto simp: A bindK_run bindR_eq_Inr)
  have s1: "but p s1 = but p s" for p
    by (rule keepsD [of "but p" "fsK (namei D path)", OF _ i]) (intro keeps_intros; simp)
  show ?thesis
  proof (cases "ip = 0")
    case True
    then show ?thesis
      using i2 s1 by auto
  next
    case False
    then obtain x s2 where x: "fsK (get_inode ip) s1 = Inr (x, s2)" and x2: "(if i_type x \<noteq> INODE_FILE then A ip else
      bindK (allocproc fa) (\<lambda>p. if p = 0 then A ip else R ip p)) s2 = Inr (r, s')"
      using i2 by (auto simp: bindK_run bindR_eq_Inr)
    have s2: "but p s2 = but p s" for p
      by (rule trans [OF keepsD [of "but p" "fsK (get_inode ip)", OF _ x] s1]) (intro keeps_intros; simp)
    show ?thesis
    proof (cases "i_type x \<noteq> INODE_FILE")
      case True
      then show ?thesis
        using x2 keepsD [OF k(1) [of undefined ip], of s2 r s'] s2 [of undefined] by (intro exI [of _ undefined]) simp
    next
      case False
      then obtain p s3 where p: "allocproc fa s2 = Inr (p, s3)" "(if p = 0 then A ip else R ip p) s3 = Inr (r, s')"
        using x2 by (auto simp: bindK_run bindR_eq_Inr)
      obtain q where q: "p = 0 \<or> p = q" "but q s3 = but q s2"
        using allocproc_but [OF p(1)] by blast
      have "but q s' = but q s3"
        using p(2) q(1) keepsD [OF k(1) [of q ip], of s3 r s'] keepsD [OF k(2) [of q ip], of s3 r s']
        by (auto split: if_splits)
      then show ?thesis
        using q(2) s2 by metis
    qed
  qed
qed

text \<open>
  So a trap of the running process, with the system call it makes, appends nothing, and neither
  does the execution of a program, unless the slab allocator gives out an object that is on the
  ready list.
\<close>

lemma usertrap_appends:
  assumes "usertrap D U M s = Inr (x, s')" and "I (kfs s')"
    and "\<And>a n. keeps (\<lambda>s. (globals s, procs s)) (uload M a n)" and "\<And>a xs. keeps (\<lambda>s. (globals s, procs s)) (ustore M a xs)"
  shows "appends I s [] s'"
  using keepsD [OF keeps_usertrap [OF assms(3,4)] assms(1)] assms(2) by (intro appends_keeps) simp_all

lemma kexec_appends:
  assumes "kexec D U fa cell path argv s = Inr (r, s')" and "I (kfs s')"
  shows "\<exists>p. (\<forall>q. q \<noteq> p \<longrightarrow> procs s' q = procs s q) \<and> globals s' = globals s \<and>
    ((\<forall>ps. ready s ps \<longrightarrow> p \<notin> set ps) \<longrightarrow> appends I s [] s')"
proof -
  obtain p where p: "globals s' = globals s" "(procs s')(p := None) = (procs s)(p := None)"
    using kexec_but [OF assms(1)] by (auto simp: but_def)
  have same: "procs s' q = procs s q" if "q \<noteq> p" for q
    using fun_cong [OF p(2), of q] that by simp
  have "appends I s [] s'" if "\<forall>ps. ready s ps \<longrightarrow> p \<notin> set ps"
    using p(1) assms(2) same that by (intro appends_keeps) metis+
  then show ?thesis
    using p(1) same by blast
qed

section \<open>The state machine\<close>

text \<open>
  The scheduler dispatches or idles when the hart runs no process; when the process switches
  back, the hart is free again. \<open>Other qs\<close> is a step of other code that appends \<open>qs\<close>.
\<close>

datatype ev = Dispatch u64 | Idle | Other "u64 list" | Back

inductive sched_step :: "'d blkdev \<Rightarrow> ('d fs_state \<Rightarrow> bool) \<Rightarrow> 'd kstate \<Rightarrow> ev \<Rightarrow> 'd kstate \<Rightarrow> bool"
  for D I where
  dispatch: "running s = 0 \<Longrightarrow> sched_pick D s = Inr (p, s') \<Longrightarrow> p \<noteq> 0 \<Longrightarrow> sched_step D I s (Dispatch p) s'"
| idle: "running s = 0 \<Longrightarrow> sched_pick D s = Inr (0, s') \<Longrightarrow> sched_step D I s Idle s'"
| other: "appends I s qs s' \<Longrightarrow> sched_step D I s (Other qs) s'"
| returns: "running s \<noteq> 0 \<Longrightarrow> sched_back s = Inr ((), s') \<Longrightarrow> sched_step D I s Back s'"

inductive sched_trace :: "'d blkdev \<Rightarrow> ('d fs_state \<Rightarrow> bool) \<Rightarrow> 'd kstate \<Rightarrow> ev list \<Rightarrow> 'd kstate \<Rightarrow> bool"
  for D I where
  nil: "sched_trace D I s [] s"
| step: "sched_trace D I s es s1 \<Longrightarrow> sched_step D I s1 e s2 \<Longrightarrow> sched_trace D I s (es @ [e]) s2"

inductive_cases dispatchE: "sched_step D I s (Dispatch p) s'"
inductive_cases idleE: "sched_step D I s Idle s'"
inductive_cases otherE: "sched_step D I s (Other qs) s'"
inductive_cases backE: "sched_step D I s Back s'"

text \<open>The processes dispatched and the processes that became ready along a trace.\<close>

fun dispatched :: "ev list \<Rightarrow> u64 list" where
  "dispatched [] = []"
| "dispatched (Dispatch p # es) = p # dispatched es"
| "dispatched (_ # es) = dispatched es"

fun arrived :: "ev list \<Rightarrow> u64 list" where
  "arrived [] = []"
| "arrived (Other qs # es) = qs @ arrived es"
| "arrived (_ # es) = arrived es"

lemma dispatched_append [simp]: "dispatched (es @ es') = dispatched es @ dispatched es'"
  by (induction es rule: dispatched.induct) simp_all

lemma arrived_append [simp]: "arrived (es @ es') = arrived es @ arrived es'"
  by (induction es rule: arrived.induct) simp_all

text \<open>
  The invariant: the ready list is well-formed and holds \<open>ps\<close>, the hart is one of the array and
  the cache is coherent; \<open>r\<close> is the running process.
\<close>

definition sched_inv :: "('d fs_state \<Rightarrow> bool) \<Rightarrow> u64 list \<Rightarrow> u64 \<Rightarrow> 'd kstate \<Rightarrow> bool" where
  "sched_inv I ps r s \<longleftrightarrow> ready s ps \<and> hart s < length (cpus s) \<and> I (kfs s) \<and> running s = r"

lemma ready_Cons_proc: "ready s (p # ps) \<Longrightarrow> p \<noteq> 0 \<and> (\<exists>x. procs s p = Some x)"
  by (auto simp: ready_def)

lemma bsync_inv:
  assumes "block_device D content ok vb" and "bc_inv content ok vb f"
  shows "\<exists>f'. bsync D f = Inr ((), f') \<and> bc_inv content ok vb f' \<and> view content f' = view content f \<and>
    content (dst f') = view content f"
  using block_device.bsync_ok [OF assms] by blast

text \<open>
  The next iteration of the loop on a free hart. It brings the device up to date and changes no
  file. With a process on the ready list it takes the first one off the list and makes it the
  running one; otherwise it enables interrupts and waits.
\<close>

definition picked :: "('d \<Rightarrow> u64 \<Rightarrow> blk) \<Rightarrow> 'd kstate \<Rightarrow> u64 list \<Rightarrow> 'd kstate \<Rightarrow> bool" where
  "picked content s ps s' \<longleftrightarrow> view content (kfs s') = view content (kfs s) \<and>
     content (dst (kfs s')) = view content (kfs s) \<and>
     (case ps of
        [] \<Rightarrow> procs s' = procs s \<and> cpus s' = cpus s \<and> r_sstatus (csr s') AND SSTATUS_SIE \<noteq> 0
      | p # _ \<Rightarrow> map_option p_state (procs s' p) = Some RUNNING \<and>
          (\<forall>q. q \<noteq> p \<longrightarrow> map_option p_state (procs s' q) = map_option p_state (procs s q)))"

lemma pick_enabled:
  assumes D: "block_device D content ok vb" and inv: "sched_inv (bc_inv content ok vb) ps 0 s"
  shows "\<exists>s'. sched_pick D s = Inr (case ps of [] \<Rightarrow> 0 | p # _ \<Rightarrow> p, s') \<and> picked content s ps s' \<and>
    sched_inv (bc_inv content ok vb) (tl ps) (case ps of [] \<Rightarrow> 0 | p # _ \<Rightarrow> p) s'"
proof -
  obtain f where f: "bsync D (kfs s) = Inr ((), f)" "bc_inv content ok vb f" "view content f = view content (kfs s)"
      "content (dst f) = view content (kfs s)"
    using bsync_inv [OF D] inv by (auto simp: sched_inv_def)
  show ?thesis
  proof (cases ps)
    case Nil
    then show ?thesis
      using sched_pick_empty [of s D f] f inv by (fastforce simp: sched_inv_def running_def picked_def)
  next
    case (Cons p qs)
    then obtain x where "procs s p = Some x"
      using inv ready_Cons_proc [of s p qs] by (auto simp: sched_inv_def)
    then obtain s' where s': "sched_pick D s = Inr (p, s')" "kfs s' = f" "ready s' qs"
        "procs s' p = Some (x\<lparr>p_state := RUNNING\<rparr>)" "running s' = p" "hart s' = hart s" "length (cpus s') = length (cpus s)"
        "\<forall>q. q \<noteq> p \<longrightarrow> map_option p_state (procs s' q) = map_option p_state (procs s q)"
      using sched_pick_head [of s p qs D f x] f(1) inv Cons by (auto simp: sched_inv_def)
    then show ?thesis
      using f inv Cons by (intro exI [of _ s']) (simp add: sched_inv_def picked_def)
  qed
qed

lemma step_inv:
  assumes D: "block_device D content ok vb" and inv: "sched_inv (bc_inv content ok vb) ps r s"
    and st: "sched_step D (bc_inv content ok vb) s e s'"
  shows "case e of
      Dispatch p \<Rightarrow> ps \<noteq> [] \<and> p = hd ps \<and> sched_inv (bc_inv content ok vb) (tl ps) p s'
    | Idle \<Rightarrow> r = 0 \<and> ps = [] \<and> sched_inv (bc_inv content ok vb) [] 0 s'
    | Other qs \<Rightarrow> sched_inv (bc_inv content ok vb) (ps @ qs) r s'
    | Back \<Rightarrow> sched_inv (bc_inv content ok vb) ps 0 s'"
  using st
proof cases
  case (dispatch p)
  then show ?thesis
    using pick_enabled [OF D, of ps s] inv by (cases ps) (auto simp: sched_inv_def)
next
  case idle
  then show ?thesis
    using pick_enabled [OF D, of ps s] inv ready_Cons_proc [of s] by (cases ps) (auto simp: sched_inv_def)
next
  case (other qs)
  then show ?thesis
    using inv by (auto simp: sched_inv_def appends_def)
next
  case returns
  then show ?thesis
    using inv sched_back_run [of s] by (auto simp: sched_inv_def running_def hart_def ready_def)
qed

text \<open>A queue \<open>q\<close> from which the processes \<open>d\<close> have been taken.\<close>

lemma queue_take:
  assumes "d = take (length d) q" and "drop (length d) q \<noteq> []"
  shows "d @ [hd (drop (length d) q)] = take (Suc (length d)) q"
  using assms by (auto simp: take_Suc_conv_app_nth hd_drop_conv_nth)

lemma queue_append:
  assumes "d = take (length d) q"
  shows "d = take (length d) (q @ qs)" "drop (length d) (q @ qs) = drop (length d) q @ qs"
proof -
  have "length d \<le> length q"
    using assms by (metis length_take min.cobounded1)
  then show "d = take (length d) (q @ qs)" "drop (length d) (q @ qs) = drop (length d) q @ qs"
    using assms by simp_all
qed

text \<open>The ready list after a trace, and the process that runs.\<close>

lemma trace_queue:
  assumes D: "block_device D content ok vb" and "sched_trace D (bc_inv content ok vb) s es s'"
    and "sched_inv (bc_inv content ok vb) ps 0 s"
  shows "dispatched es = take (length (dispatched es)) (ps @ arrived es) \<and>
    (\<exists>r. sched_inv (bc_inv content ok vb) (drop (length (dispatched es)) (ps @ arrived es)) r s' \<and>
      (r = 0 \<or> dispatched es \<noteq> [] \<and> r = last (dispatched es)))"
  using assms(2,3)
proof (induction rule: sched_trace.induct)
  case (nil s)
  then show ?case
    by auto
next
  case (step s es s1 e s2)
  define q where "q = ps @ arrived es"
  obtain r where pre: "dispatched es = take (length (dispatched es)) q"
      and inv: "sched_inv (bc_inv content ok vb) (drop (length (dispatched es)) q) r s1"
      and r: "r = 0 \<or> dispatched es \<noteq> [] \<and> r = last (dispatched es)"
    using step.IH [OF step.prems] unfolding q_def by blast
  note si = step_inv [OF D inv step.hyps(2)]
  show ?case
  proof (cases e)
    case (Dispatch p)
    then have eq: "ps @ arrived (es @ [e]) = q" "dispatched (es @ [e]) = dispatched es @ [p]"
      by (simp_all add: q_def)
    have front: "dispatched es @ [p] = take (Suc (length (dispatched es))) q"
      using si Dispatch queue_take [OF pre] by auto
    have rest: "sched_inv (bc_inv content ok vb) (drop (Suc (length (dispatched es))) q) p s2"
      using si Dispatch by (auto simp: drop_Suc tl_drop)
    have "p = 0 \<or> dispatched es @ [p] \<noteq> [] \<and> p = last (dispatched es @ [p])"
      by simp
    with front rest show ?thesis
      unfolding eq length_append_singleton by blast
  next
    case (Other qs)
    then have "ps @ arrived (es @ [e]) = q @ qs" "dispatched (es @ [e]) = dispatched es"
      by (simp_all add: q_def)
    then show ?thesis
      using si Other r queue_append [OF pre, of qs] by auto
  qed (use si pre r in \<open>auto simp: q_def\<close>)
qed

text \<open>
  C17: the scheduler is first in, first out. It starts with the processes \<open>ps\<close> on the ready list;
  between its steps other code may do anything to the file system, the memory, the registers
  and the process objects that leaves the cache coherent and the current process of the hart
  alone, and may append processes to the ready list. The processes dispatched are then the
  first ones of \<open>ps\<close> and the appended ones, in that order; the ready list is a well-formed list
  of the others; and the hart runs the process dispatched last or none.
\<close>

theorem sched_fifo:
  assumes "block_device D content ok vb" and "sched_inv (bc_inv content ok vb) ps 0 s"
    and "sched_trace D (bc_inv content ok vb) s es s'"
  shows "dispatched es = take (length (dispatched es)) (ps @ arrived es) \<and>
    ready s' (drop (length (dispatched es)) (ps @ arrived es)) \<and>
    (running s' = 0 \<or> dispatched es \<noteq> [] \<and> running s' = last (dispatched es))"
  using trace_queue [OF assms(1,3,2)] by (auto simp: sched_inv_def)

text \<open>
  C18: the scheduler never gets stuck and never panics. In every state it reaches with a free
  hart, the next iteration of its loop ends, with a device that holds exactly what the file
  system sees: after \<open>n\<close> dispatches it runs the process that became ready at position \<open>n\<close>,
  which is then the running one and the only one whose state changes, and if there is none it
  changes no process, enables interrupts and idles. While a process runs, its return frees the
  hart.
\<close>

theorem sched_progress:
  assumes "block_device D content ok vb" and "sched_inv (bc_inv content ok vb) ps 0 s"
    and "sched_trace D (bc_inv content ok vb) s es s'"
  shows "let todo = drop (length (dispatched es)) (ps @ arrived es) in
    if running s' = 0
    then \<exists>s2. sched_step D (bc_inv content ok vb) s' (case todo of [] \<Rightarrow> Idle | p # _ \<Rightarrow> Dispatch p) s2 \<and>
      content (dst (kfs s2)) = view content (kfs s') \<and> view content (kfs s2) = view content (kfs s') \<and>
      running s2 = (case todo of [] \<Rightarrow> 0 | p # _ \<Rightarrow> p) \<and>
      (if todo = [] then procs s2 = procs s' \<and> r_sstatus (csr s2) AND SSTATUS_SIE \<noteq> 0
       else map_option p_state (procs s2 (hd todo)) = Some RUNNING \<and>
         map_option p_state \<circ> (procs s2)(hd todo := None) = map_option p_state \<circ> (procs s')(hd todo := None))
    else \<exists>s2. sched_step D (bc_inv content ok vb) s' Back s2 \<and> running s2 = 0 \<and> ready s2 todo"
proof -
  let ?todo = "drop (length (dispatched es)) (ps @ arrived es)" and ?I = "bc_inv content ok vb"
  obtain r where inv: "sched_inv ?I ?todo r s'"
    using trace_queue [OF assms(1,3,2)] by blast
  show ?thesis
  proof (cases "running s' = 0")
    case True
    then have inv0: "sched_inv ?I ?todo 0 s'"
      using inv by (simp add: sched_inv_def)
    obtain s2 where s2: "sched_pick D s' = Inr (case ?todo of [] \<Rightarrow> 0 | p # _ \<Rightarrow> p, s2)" "picked content s' ?todo s2"
        "sched_inv ?I (tl ?todo) (case ?todo of [] \<Rightarrow> 0 | p # _ \<Rightarrow> p) s2"
      using pick_enabled [OF assms(1) inv0] by blast
    have "sched_step D ?I s' (case ?todo of [] \<Rightarrow> Idle | p # _ \<Rightarrow> Dispatch p) s2"
      using s2(1) True inv0 ready_Cons_proc [of s']
      by (cases ?todo) (auto simp: sched_inv_def intro!: sched_step.idle sched_step.dispatch)
    then show ?thesis
      using True s2(2,3) unfolding Let_def by (cases ?todo) (auto simp: sched_inv_def picked_def fun_eq_iff)
  next
    case False
    obtain s2 where s2: "sched_back s' = Inr ((), s2)"
      using inv sched_back_run [of s'] by (simp add: sched_inv_def)
    then have "sched_step D ?I s' Back s2"
      using False by (intro sched_step.returns)
    moreover from this have "sched_inv ?I ?todo 0 s2"
      using step_inv [OF assms(1) inv] by fastforce
    ultimately show ?thesis
      using False by (auto simp: Let_def sched_inv_def)
  qed
qed


section \<open>Two ready processes\<close>

definition fs0 :: "ref_dev vstate fs_state" where
  "fs0 = bc_state.extend bc0 \<lparr>kmem = one_page, fs_block_size = 4096, fs_blocks_count = 0, fs_root = 0,
     fs_private = None, fs_inode_cache = replicate 64 0, fs_icache_size = 0, inodes = Map.empty, infos = Map.empty,
     files = Map.empty, ftable_head = [], ftable_count = 0, file_cache = 0\<rparr>"

lemma fs0_inv: "bc_inv ref_content ref_ok ref_vb fs0"
  using bc0_inv by (simp add: bc_inv_def fs0_def bc_state.defs)

definition idle_proc :: proc where
  "idle_proc = \<lparr>p_state = RUNNABLE, p_pid = 1, p_root = 0, p_sz = 0, p_brk = 0, p_stack_bottom = 0, p_stack_top = 0,
     p_kstack = 0, p_trapframe = 0, p_context = zero_ctxt, p_parent = 0, p_fdtable = replicate 16 0, p_prev = 0,
     p_next = 0, p_name = []\<rparr>"

definition two_ready :: "ref_dev vstate kstate" where
  "two_ready = \<lparr>kfs = fs0, procs = [0x1000 \<mapsto> idle_proc\<lparr>p_next := 0x2000\<rparr>, 0x2000 \<mapsto> idle_proc\<lparr>p_prev := 0x1000\<rparr>,
       0x3000 \<mapsto> idle_proc],
     old_procs = (\<lambda>_. idle_proc), tfs = Map.empty, proc_cache = 0, ready_list_head = 0x1000, ready_list_tail = 0x2000,
     cpus = [\<lparr>c_proc = 0, c_context = zero_ctxt\<rparr>], pid_bitmap = replicate 4096 0, last_pid = 0, kvmroot = 0,
     forkret_init = True, csr = \<lparr>r_sepc = 0, r_sstatus = 0, r_scause = 0, r_stval = 0, r_sscratch = 0, r_satp = 0,
     r_stvec = 0, r_tp = 0\<rparr>\<rparr>"

lemma two_ready_inv: "sched_inv (bc_inv ref_content ref_ok ref_vb) [0x1000, 0x2000] 0 two_ready"
proof -
  have "kfs two_ready = fs0"
    by (simp add: two_ready_def)
  then show ?thesis
    using fs0_inv unfolding sched_inv_def
    by (simp add: ready_def hart_def running_def two_ready_def idle_proc_def)
qed

text \<open>Other code can append a process that is not on the list.\<close>

lemma linked_snoc:
  assumes "linked P prev ps" and "ps \<noteq> []" and "p \<notin> set ps" and "distinct ps" and "p \<noteq> 0" and "P (last ps) = Some y"
  shows "linked (P(last ps \<mapsto> y\<lparr>p_next := p\<rparr>, p \<mapsto> x\<lparr>p_prev := last ps, p_next := 0\<rparr>)) prev (ps @ [p])"
  using assms
proof (induction ps arbitrary: prev)
  case (Cons a ps)
  show ?case
  proof (cases "ps = []")
    case True
    then show ?thesis
      using Cons.prems by auto
  next
    case False
    let ?P = "P(last ps \<mapsto> y\<lparr>p_next := p\<rparr>, p \<mapsto> x\<lparr>p_prev := last ps, p_next := 0\<rparr>)"
    have "linked ?P a (ps @ [p])"
      using Cons.prems False by (intro Cons.IH) simp_all
    moreover have "?P a = P a"
      using Cons.prems False by auto
    ultimately show ?thesis
      using Cons.prems False by (cases ps) (simp_all del: fun_upd_apply)
  qed
qed simp

lemma linked_next: "linked P prev (p # ps) \<Longrightarrow> p_next (the (P p)) = (case ps of [] \<Rightarrow> 0 | q # _ \<Rightarrow> q) \<and> linked P p ps"
  by auto

lemma linked_nonzero: "linked P prev (p # ps) \<Longrightarrow> p \<noteq> 0"
  by simp

lemma linked_unique: "linked P prev (p # ps) \<Longrightarrow> linked P prev' (p # qs) \<Longrightarrow> ps = qs"
proof (induction ps arbitrary: p qs prev prev')
  case Nil
  show ?case
    using linked_next [OF Nil(1)] linked_next [OF Nil(2)] linked_nonzero [of P p "hd qs" "tl qs"] by (cases qs) (simp_all del: linked.simps)
next
  case (Cons a ps)
  have n: "p_next (the (P p)) = a" "linked P p (a # ps)" "linked P p qs"
    using linked_next [OF Cons.prems(1)] linked_next [OF Cons.prems(2)] by (simp_all del: linked.simps)
  moreover have "a \<noteq> 0"
    using linked_nonzero [OF n(2)] .
  ultimately obtain qs' where "qs = a # qs'"
    using linked_next [OF Cons.prems(2)] by (cases qs) (simp_all del: linked.simps)
  then show ?case
    using Cons.IH [OF n(2)] n(3) by blast
qed

lemma linked_member: "linked P prev ps \<Longrightarrow> p \<in> set ps \<Longrightarrow> \<exists>x. P p = Some x"
  by (induction ps arbitrary: prev) auto

lemma ready_unique: "ready s ps \<Longrightarrow> ready s qs \<Longrightarrow> ps = qs"
  using linked_unique [of "procs s" 0 "hd ps" "tl ps" 0 "tl qs"]
  by (cases ps; cases qs) (auto simp: ready_def)

lemma appends_possible:
  assumes "ready s ps" and "I (kfs s)" and "procs s p = Some x" and "p \<notin> set ps" and "p \<noteq> 0" and "ps \<noteq> []"
  shows "\<exists>s'. appends I s [p] s'"
proof -
  obtain y where y: "procs s (last ps) = Some y"
    using linked_member [of "procs s" 0 ps "last ps"] assms(1,6) by (auto simp: ready_def)
  define P where "P = (procs s)(last ps \<mapsto> y\<lparr>p_next := p\<rparr>, p \<mapsto> x\<lparr>p_prev := last ps, p_next := 0\<rparr>)"
  define s1 where "s1 = s\<lparr>procs := P, ready_list_tail := p\<rparr>"
  have f: "procs s1 = P" "ready_list_head s1 = ready_list_head s" "ready_list_tail s1 = p" "kfs s1 = kfs s"
      "cpus s1 = cpus s" "csr s1 = csr s"
    by (simp_all add: s1_def)
  have h: "linked (procs s) 0 ps" "distinct ps" "ready_list_head s = hd ps"
    using assms(1,6) by (cases ps; simp add: ready_def)+
  have "linked P 0 (ps @ [p])"
    unfolding P_def by (rule linked_snoc [OF h(1) assms(6,4) h(2) assms(5) y])
  then have "ready s1 (ps @ [p])"
    using h(2,3) assms(4,6) unfolding ready_def f by (cases ps) auto
  then have "ready s qs \<longrightarrow> ready s1 (qs @ [p])" for qs
    using ready_unique [OF assms(1), of qs] by auto
  then have "appends I s [p] s1"
    using assms(2) by (simp add: appends_def hart_def running_def f)
  then show ?thesis
    by blast
qed

lemma sched_progress_witness:
  "\<exists>s2. sched_step (virtio_blkdev ref_vio 0x80220000) (bc_inv ref_content ref_ok ref_vb) two_ready (Dispatch 0x1000) s2 \<and>
    running s2 = 0x1000 \<and> map_option p_state (procs s2 0x1000) = Some RUNNING \<and>
    ref_content (dst (kfs s2)) = view ref_content (kfs two_ready)"
proof -
  have "running two_ready = 0"
    using two_ready_inv by (simp add: sched_inv_def)
  then show ?thesis
    using sched_progress [OF ref_device two_ready_inv sched_trace.nil, of "0x80220000"] by (simp add: Let_def) blast
qed

lemma sched_fifo_witness:
  "\<exists>s'. sched_trace (virtio_blkdev ref_vio 0x80220000) (bc_inv ref_content ref_ok ref_vb) two_ready
      [Other [0x3000], Dispatch 0x1000] s' \<and> ready s' [0x2000, 0x3000] \<and> (running s' = 0 \<or> running s' = 0x1000)"
proof -
  let ?D = "virtio_blkdev ref_vio 0x80220000" and ?I = "bc_inv ref_content ref_ok ref_vb"
  have "\<exists>s1. appends ?I two_ready [0x3000] s1"
    using two_ready_inv
    by (intro appends_possible [of _ "[0x1000, 0x2000]" _ _ idle_proc]) (auto simp: sched_inv_def two_ready_def)
  then obtain s1 where s1: "sched_step ?D ?I two_ready (Other [0x3000]) s1"
    by (blast intro: sched_step.other)
  have i1: "sched_inv ?I [0x1000, 0x2000, 0x3000] 0 s1"
    using step_inv [OF ref_device two_ready_inv s1] by simp
  obtain s' where "sched_pick ?D s1 = Inr (0x1000, s')"
    using pick_enabled [OF ref_device i1] by auto
  moreover have "running s1 = 0"
    using i1 by (simp add: sched_inv_def)
  ultimately have "sched_step ?D ?I s1 (Dispatch 0x1000) s'"
    by (intro sched_step.dispatch) simp_all
  from sched_trace.step [OF sched_trace.step [OF sched_trace.nil s1] this]
  have t: "sched_trace ?D ?I two_ready [Other [0x3000], Dispatch 0x1000] s'"
    by simp
  then show ?thesis
    using sched_fifo [OF ref_device two_ready_inv t] by auto
qed

end
