(* ===== verification/DiskView.thy ===== *)
theory DiskView
  imports Inode
begin

text \<open>
  The file system code sees the disk through the block cache. This theory says what the three
  access patterns of \<open>fs/ext2\<close> do to the contents of the disk as the file system sees them
  (\<open>view\<close>): reading a block and releasing it, changing a block and releasing it, and writing
  through a pinned buffer such as the superblock's. Each leaves the pinned buffers where they
  are. With these, an operation of the file system is a function on the view.
\<close>

section \<open>Pinned buffers\<close>

text \<open>
  \<open>calm sl sl'\<close>: the reference counts are the same, and a buffer that is in use still holds
  its block. \<open>room k sl\<close>: \<open>k\<close> more buffers can be pinned.
\<close>

definition calm :: "bslot list \<Rightarrow> bslot list \<Rightarrow> bool" where
  "calm sl sl' \<longleftrightarrow> (\<forall>i < NBLKNUM. brefcnt (sl' ! i) = brefcnt (sl ! i) \<and>
     (brefcnt (sl ! i) \<noteq> 0 \<longrightarrow> bvalid (sl ! i) \<longrightarrow> bvalid (sl' ! i) \<and> blk_no (sl' ! i) = blk_no (sl ! i)))"

definition pin :: "nat \<Rightarrow> bslot list \<Rightarrow> bslot list \<Rightarrow> bool" where
  "pin c sl sl' \<longleftrightarrow> c < NBLKNUM \<and> (\<forall>i < NBLKNUM. brefcnt (sl' ! i) = brefcnt (sl ! i) + (if i = c then 1 else 0) \<and>
     (brefcnt (sl ! i) \<noteq> 0 \<longrightarrow> bvalid (sl ! i) \<longrightarrow> bvalid (sl' ! i) \<and> blk_no (sl' ! i) = blk_no (sl ! i)))"

definition room :: "nat \<Rightarrow> bslot list \<Rightarrow> bool" where
  "room k sl \<longleftrightarrow> (\<forall>i < NBLKNUM. unat (brefcnt (sl ! i)) + k < 2147483648) \<and>
     k \<le> card {i. i < NBLKNUM \<and> brefcnt (sl ! i) = 0}"

lemma calm_refl [simp]: "calm sl sl"
  by (simp add: calm_def)

lemma calm_trans: "calm sl sl1 \<Longrightarrow> calm sl1 sl2 \<Longrightarrow> calm sl sl2"
  unfolding calm_def by metis

lemma room_calm: "calm sl sl' \<Longrightarrow> room k sl' = room k sl"
proof -
  assume "calm sl sl'"
  then have *: "\<And>i. i < NBLKNUM \<Longrightarrow> brefcnt (sl' ! i) = brefcnt (sl ! i)"
    by (simp add: calm_def)
  then have "{i. i < NBLKNUM \<and> brefcnt (sl' ! i) = 0} = {i. i < NBLKNUM \<and> brefcnt (sl ! i) = 0}"
    by auto
  then show ?thesis
    using * by (simp add: room_def)
qed

lemma room_mono: "room k sl \<Longrightarrow> j \<le> k \<Longrightarrow> room j sl"
  by (fastforce simp: room_def)

lemma room_free: "room (Suc k) sl \<Longrightarrow> \<exists>i < NBLKNUM. brefcnt (sl ! i) = 0"
proof -
  assume "room (Suc k) sl"
  then have "{i. i < NBLKNUM \<and> brefcnt (sl ! i) = 0} \<noteq> {}"
    unfolding room_def by (metis card.empty not_less_eq_eq le0)
  then show ?thesis
    by blast
qed

lemma pin_count:
  assumes "pin c sl sl'" and "room (Suc k) sl"
  shows "unat (brefcnt (sl' ! c)) = Suc (unat (brefcnt (sl ! c)))" "brefcnt (sl' ! c) \<noteq> 0"
    "0 < sint (brefcnt (sl' ! c))"
proof -
  have c: "c < NBLKNUM" and e: "brefcnt (sl' ! c) = brefcnt (sl ! c) + 1"
    using assms(1) by (auto simp: pin_def)
  have b: "unat (brefcnt (sl ! c)) + Suc k < 2147483648"
    using assms(2) c by (simp add: room_def)
  show u: "unat (brefcnt (sl' ! c)) = Suc (unat (brefcnt (sl ! c)))"
    using b unfolding e by (simp add: unat_word_ariths)
  then show "brefcnt (sl' ! c) \<noteq> 0"
    by auto
  have "sint (brefcnt (sl' ! c)) = int (unat (brefcnt (sl' ! c)))"
  proof -
    have "int (unat (brefcnt (sl' ! c))) < 2147483648"
      using b u by linarith
    then have "uint (brefcnt (sl' ! c)) < 2 ^ 31"
      by simp
    then show ?thesis
      by (simp add: sint_uint signed_take_bit_int_eq_self_iff order_trans [OF _ uint_ge_0])
  qed
  then show "0 < sint (brefcnt (sl' ! c))"
    using u by linarith
qed

lemma room_pin:
  assumes "pin c sl sl'" and "room (Suc k) sl"
  shows "room k sl'"
proof -
  have c: "c < NBLKNUM" and e: "\<And>i. i < NBLKNUM \<Longrightarrow> brefcnt (sl' ! i) = brefcnt (sl ! i) + (if i = c then 1 else 0)"
    using assms(1) by (auto simp: pin_def)
  let ?S = "{i. i < NBLKNUM \<and> brefcnt (sl ! i) = 0}" and ?T = "{i. i < NBLKNUM \<and> brefcnt (sl' ! i) = 0}"
  have "?S - {c} \<subseteq> ?T"
    using e by auto
  moreover have "finite ?T"
    by simp
  ultimately have "card (?S - {c}) \<le> card ?T"
    by (rule card_mono [rotated])
  moreover have "card ?S - 1 \<le> card (?S - {c})"
    by (simp add: card_Diff_singleton_if)
  moreover have "Suc k \<le> card ?S"
    using assms(2) by (simp add: room_def)
  ultimately have "k \<le> card ?T"
    by linarith
  moreover have "unat (brefcnt (sl' ! i)) + k < 2147483648" if "i < NBLKNUM" for i
    using pin_count(1) [OF assms] e [OF that] assms(2) that by (cases "i = c") (auto simp: room_def)
  ultimately show ?thesis
    by (simp add: room_def)
qed

lemma calm_pin_trans: "calm sl sl1 \<Longrightarrow> pin c sl1 sl2 \<Longrightarrow> pin c sl sl2"
  unfolding calm_def pin_def by metis

lemma pin_calm_trans:
  assumes "pin c sl sl1" and "room (Suc k) sl" and "calm sl1 sl2"
  shows "pin c sl sl2"
proof -
  have "brefcnt (sl1 ! i) \<noteq> 0" if "i < NBLKNUM" "brefcnt (sl ! i) \<noteq> 0" for i
    using assms(1) that pin_count(2) [OF assms(1,2)] by (cases "i = c") (simp_all add: pin_def)
  then show ?thesis
    using assms(1,3) by (simp add: calm_def pin_def)
qed

text \<open>
  A step that changes nothing but the cache and the device, keeps the cache invariant and the
  pinned buffers, and after which the disk is seen as \<open>V\<close>.
\<close>

definition quiet :: "('d \<Rightarrow> u64 \<Rightarrow> blk) \<Rightarrow> ('d \<Rightarrow> bool) \<Rightarrow> (u64 \<Rightarrow> bool) \<Rightarrow>
    ('d, 'z) bc_state_scheme \<Rightarrow> (u64 \<Rightarrow> blk) \<Rightarrow> ('d, 'z) bc_state_scheme \<Rightarrow> bool" where
  "quiet content ok vb s V s' \<longleftrightarrow> bc_inv content ok vb s' \<and> view content s' = V \<and>
     calm (slots s) (slots s') \<and> bc_state.more s' = bc_state.more s"

lemma quietD:
  assumes "quiet content ok vb s V s'"
  shows "bc_inv content ok vb s'" "view content s' = V" "calm (slots s) (slots s')"
    "bc_state.more s' = bc_state.more s"
  using assms by (simp_all add: quiet_def)

lemma quiet_refl: "bc_inv content ok vb s \<Longrightarrow> quiet content ok vb s (view content s) s"
  by (simp add: quiet_def)

lemma quiet_trans: "quiet content ok vb s V s1 \<Longrightarrow> quiet content ok vb s1 V' s2 \<Longrightarrow> quiet content ok vb s V' s2"
  by (auto simp: quiet_def intro: calm_trans)

lemma quiet_room: "quiet content ok vb s V s' \<Longrightarrow> room k (slots s') = room k (slots s)"
  by (simp add: quiet_def room_calm)

context block_device
begin

abbreviation quietly :: "('d, 'z) bc_state_scheme \<Rightarrow> (u64 \<Rightarrow> blk) \<Rightarrow> ('d, 'z) bc_state_scheme \<Rightarrow> bool" where
  "quietly \<equiv> quiet content ok vb"

lemma bread_pin:
  assumes "inv s" and "vb no" and "room (Suc k) (slots s)"
  obtains c s' where "bread D no s = Inr (c, s')" "inv s'" "view content s' = view content s"
    "pin c (slots s) (slots s')" "bvalid (slots s' ! c)" "blk_no (slots s' ! c) = no"
    "nb (bdata (slots s' ! c)) = view content s no" "bc_state.more s' = bc_state.more s"
proof -
  from bread_ok [OF assms(1,2) disjI2 [OF room_free [OF assms(3)]]]
  obtain c s' d where b: "bread D no s = Inr (c, s')" "inv s'" "view content s' = view content s" "c < NBLKNUM"
      "bvalid (slots s' ! c)" "blk_no (slots s' ! c) = no" "nb (bdata (slots s' ! c)) = view content s no"
      "brefcnt (slots s' ! c) = (if slot_of (slots s) no = None then 0 else brefcnt (slots s ! c)) + 1"
      "slot_of (slots s) no = None \<longrightarrow> brefcnt (slots s ! c) = 0"
      "slot_of (slots s) no \<noteq> None \<longrightarrow> slots s' ! c = (slots s ! c)\<lparr>brefcnt := brefcnt (slots s ! c) + 1\<rparr>"
      "\<forall>j < NBLKNUM. j \<noteq> c \<longrightarrow> slots s' ! j = slots s ! j" "s' = s\<lparr>dst := d, slots := slots s'\<rparr>"
    by (elim exE conjE) (rule that; assumption)
  have p: "pin c (slots s) (slots s')"
    unfolding pin_def
  proof (intro conjI allI impI)
    fix i
    assume i: "i < NBLKNUM"
    show "brefcnt (slots s' ! i) = brefcnt (slots s ! i) + (if i = c then 1 else 0)"
      using b(8,9,11) i by (cases "i = c") (auto split: if_splits)
    assume h: "brefcnt (slots s ! i) \<noteq> 0" "bvalid (slots s ! i)"
    then have "slots s' ! i = slots s ! i \<or> slots s' ! i = (slots s ! i)\<lparr>brefcnt := brefcnt (slots s ! c) + 1\<rparr>"
      using b(9,10,11) i by (cases "i = c") auto
    then show "bvalid (slots s' ! i)" "blk_no (slots s' ! i) = blk_no (slots s ! i)"
      using h by auto
  qed (rule b(4))
  have "bc_state.more s' = bc_state.more (s\<lparr>dst := d, slots := slots s'\<rparr>)"
    by (rule arg_cong [OF b(12)])
  then have "bc_state.more s' = bc_state.more s"
    by (cases s) simp
  with b(1-3,5-7) p show thesis
    by (intro that)
qed

lemma brelse_pin:
  assumes "inv s1" and "pin c sl (slots s1)" and "room (Suc k) sl" and "bvalid (slots s1 ! c)"
  obtains s' where "brelse c s1 = Inr ((), s')" "inv s'" "view content s' = view content s1"
    "calm sl (slots s')" "bc_state.more s' = bc_state.more s1"
proof -
  have c: "c < NBLKNUM"
    using assms(2) by (simp add: pin_def)
  obtain s' where s': "brelse c s1 = Inr ((), s')" "inv s'" "view content s' = view content s1"
      "s' = s1\<lparr>slots := (slots s1)[c := (slots s1 ! c)\<lparr>brefcnt := brefcnt (slots s1 ! c) - 1\<rparr>]\<rparr>"
    using brelse_ok [OF assms(1) c assms(4) pin_count(3) [OF assms(2,3)]] by blast
  have len: "length (slots s1) = NBLKNUM"
    using assms(1) by (simp add: bc_inv_def slots_inv_def)
  have "slots s' ! i = (if i = c then (slots s1 ! c)\<lparr>brefcnt := brefcnt (slots s1 ! c) - 1\<rparr> else slots s1 ! i)"
    if "i < NBLKNUM" for i
    using that len by (simp add: s'(4) nth_list_update)
  then have "calm sl (slots s')"
    using assms(2) by (simp add: calm_def pin_def)
  then show thesis
    using s' by (intro that [of s']) simp_all
qed

text \<open>The three access patterns, with what follows them as the continuation \<open>k\<close>.\<close>

lemma read_run:
  assumes "inv s" and "vb no" and "room (Suc k) (slots s)"
  shows "\<exists>b s'. bindK (bread D no) (\<lambda>c. bindK (bget c) (\<lambda>b. thenK (brelse c) (f b))) s = f b s' \<and>
    nb b = view content s no \<and> quietly s (view content s) s'"
proof -
  obtain c s1 where r: "bread D no s = Inr (c, s1)" "inv s1" "view content s1 = view content s"
      "pin c (slots s) (slots s1)" "bvalid (slots s1 ! c)" "nb (bdata (slots s1 ! c)) = view content s no"
      "bc_state.more s1 = bc_state.more s"
    using bread_pin [OF assms] by metis
  obtain s2 where s2: "brelse c s1 = Inr ((), s2)" "inv s2" "view content s2 = view content s1"
      "calm (slots s) (slots s2)" "bc_state.more s2 = bc_state.more s1"
    using brelse_pin [OF r(2,4) assms(3) r(5)] by metis
  have "bindK (bread D no) (\<lambda>c. bindK (bget c) (\<lambda>b. thenK (brelse c) (f b))) s = f (bdata (slots s1 ! c)) s2"
    using r(1) s2(1) by (simp add: bindK_run thenK_run bget_def)
  moreover have "quietly s (view content s) s2"
    using r s2 by (simp add: quiet_def)
  ultimately show ?thesis
    using r(6) by blast
qed

lemma write_release:
  assumes "inv s1" and "pin c sl (slots s1)" and "room (Suc k) sl" and "bvalid (slots s1 ! c)"
  obtains s' where "thenK (bput c b) (thenK (bwrite c) (thenK (brelse c) f)) s1 = f s'" "inv s'"
    "view content s' = (view content s1)(blk_no (slots s1 ! c) := nb b)" "calm sl (slots s')"
    "bc_state.more s' = bc_state.more s1"
proof -
  have c: "c < NBLKNUM"
    using assms(2) by (simp add: pin_def)
  obtain s2 where w: "thenK (bput c b) (bwrite c) s1 = Inr ((), s2)" "inv s2"
      "s2 = s1\<lparr>slots := (slots s1)[c := (slots s1 ! c)\<lparr>bdata := b, bdirty := True\<rparr>]\<rparr>"
      "view content s2 = (view content s1)(blk_no (slots s1 ! c) := nb b)"
    using write_slot [OF assms(1) c assms(4)] by blast
  have len: "length (slots s1) = NBLKNUM"
    using assms(1) by (simp add: bc_inv_def slots_inv_def)
  have nth: "slots s2 ! i = (if i = c then (slots s1 ! c)\<lparr>bdata := b, bdirty := True\<rparr> else slots s1 ! i)"
    if "i < NBLKNUM" for i
    using that len by (simp add: w(3) nth_list_update)
  then have "pin c sl (slots s2)" "bvalid (slots s2 ! c)"
    using assms(2,4) c by (simp_all add: pin_def)
  from brelse_pin [OF w(2) this(1) assms(3) this(2)] obtain s3 where s3: "brelse c s2 = Inr ((), s3)" "inv s3" "view content s3 = view content s2" "calm sl (slots s3)"
      "bc_state.more s3 = bc_state.more s2"
    by metis
  show thesis
  proof (rule that [of s3])
    show "thenK (bput c b) (thenK (bwrite c) (thenK (brelse c) f)) s1 = f s3"
    proof -
      have "thenK (bput c b) (thenK (bwrite c) (thenK (brelse c) f)) s1 =
          bindR (thenK (bput c b) (bwrite c) s1) (\<lambda>(_, s). thenK (brelse c) f s)"
        by (simp add: thenK_run bput_def)
      also have "\<dots> = f s3"
        unfolding w(1) by (simp add: s3(1) thenK_run)
      finally show ?thesis .
    qed
    show "bc_state.more s3 = bc_state.more s1"
      unfolding s3(5) w(3) by (cases s1) simp
  qed (use w(4) s3 in simp_all)
qed

lemma update_run:
  assumes "inv s" and "vb no" and "room (Suc k) (slots s)"
  shows "\<exists>b s'. bindK (bread D no) (\<lambda>c. bindK (bget c) (\<lambda>b.
      thenK (bput c (g b)) (thenK (bwrite c) (thenK (brelse c) f)))) s = f s' \<and>
    nb b = view content s no \<and> quietly s ((view content s)(no := nb (g b))) s'"
proof -
  obtain c s1 where r: "bread D no s = Inr (c, s1)" "inv s1" "view content s1 = view content s"
      "pin c (slots s) (slots s1)" "bvalid (slots s1 ! c)" "blk_no (slots s1 ! c) = no"
      "nb (bdata (slots s1 ! c)) = view content s no" "bc_state.more s1 = bc_state.more s"
    using bread_pin [OF assms] by metis
  obtain s2 where s2: "thenK (bput c (g (bdata (slots s1 ! c)))) (thenK (bwrite c) (thenK (brelse c) f)) s1 = f s2"
      "inv s2" "view content s2 = (view content s1)(blk_no (slots s1 ! c) := nb (g (bdata (slots s1 ! c))))"
      "calm (slots s) (slots s2)" "bc_state.more s2 = bc_state.more s1"
    using write_release [OF r(2,4) assms(3) r(5)] by metis
  have "bindK (bread D no) (\<lambda>c. bindK (bget c) (\<lambda>b.
      thenK (bput c (g b)) (thenK (bwrite c) (thenK (brelse c) f)))) s = f s2"
    using r(1) s2(1) by (simp add: bindK_run bget_def)
  moreover have "quietly s ((view content s)(no := nb (g (bdata (slots s1 ! c))))) s2"
    using r s2 by (simp add: quiet_def)
  ultimately show ?thesis
    using r(7) by blast
qed

text \<open>A write through a buffer that stays pinned.\<close>

lemma pinned_write:
  assumes "inv s" and "c < NBLKNUM" and "bvalid (slots s ! c)"
  obtains s' where "thenK (bput c b) (bwrite c) s = Inr ((), s')"
    "quietly s ((view content s)(blk_no (slots s ! c) := nb b)) s'"
proof -
  obtain s' where w: "thenK (bput c b) (bwrite c) s = Inr ((), s')" "inv s'"
      "s' = s\<lparr>slots := (slots s)[c := (slots s ! c)\<lparr>bdata := b, bdirty := True\<rparr>]\<rparr>"
      "view content s' = (view content s)(blk_no (slots s ! c) := nb b)"
    using write_slot [OF assms] by blast
  have "calm (slots s) (slots s')"
    using assms(1,2) by (auto simp: calm_def w(3) nth_list_update bc_inv_def slots_inv_def)
  moreover have "bc_state.more s' = bc_state.more s"
    unfolding w(3) by (cases s) simp
  ultimately show thesis
    using w by (intro that [of s']) (simp_all add: quiet_def)
qed

lemma view_pinned:
  assumes "inv s" and "c < NBLKNUM" and "bvalid (slots s ! c)"
  shows "view content s (blk_no (slots s ! c)) = nb (bdata (slots s ! c))"
  using slot_of_eq [of "content (dst s)" vb "slots s" c] assms by (simp add: bc_inv_def view_def)

end

end
