(* ===== verification/FreeMap.thy ===== *)
theory FreeMap
  imports DiskView
begin

text \<open>
  The block allocator of \<open>fs/ext2/balloc.c\<close> against its specification: the set of free blocks
  that the superblock, the group descriptors and the bitmaps stand for. \<open>ext2_alloc_block\<close>
  takes one block out of that set and \<open>ext2_free_block\<close> puts one back.
\<close>

section \<open>Bitmaps\<close>

definition bitmap_bit :: "blk \<Rightarrow> nat \<Rightarrow> bool" where
  "bitmap_bit d n = bit (d (n div 8)) (n mod 8)"

lemma scan_bits_result:
  assumes "scan_bits b y lim ks = r" and "sorted ks" and "\<forall>k \<in> set ks. k < 8"
  shows "(r = None \<longrightarrow> (\<forall>k \<in> set ks. y * 8 + k < lim \<longrightarrow> bit b k)) \<and>
    (\<forall>k. r = Some k \<longrightarrow> k \<in> set ks \<and> y * 8 + k < lim \<and> \<not> bit b k \<and> (\<forall>j \<in> set ks. j < k \<longrightarrow> bit b j))"
  using assms
proof (induction ks)
  case (Cons k ks)
  show ?case
  proof (cases "bit b k")
    case True
    with Cons show ?thesis
      by auto
  next
    case False
    with Cons.prems show ?thesis
      by (cases "lim \<le> y * 8 + k") (auto; fastforce)+
  qed
qed auto

lemma all_bits_255: "(b :: u8) = 0xFF \<Longrightarrow> k < 8 \<Longrightarrow> bit b k"
proof -
  assume "b = 0xFF" "k < 8"
  then have "k \<in> {0, 1, 2, 3, 4, 5, 6, 7}"
    by auto
  with \<open>b = 0xFF\<close> show "bit b k"
    by (auto simp: bit_numeral_rec)
qed

lemma scan_bytes_result:
  assumes "n \<le> BLKSZ" and "j \<le> n" and "\<forall>i < 8 * j. i < lim \<longrightarrow> bitmap_bit d i"
  shows "\<exists>r. scan_bytes d lim [j..<n] = Inr r \<and>
    (r = None \<longrightarrow> (\<forall>i < 8 * n. i < lim \<longrightarrow> bitmap_bit d i)) \<and>
    (\<forall>y k. r = Some (y, k) \<longrightarrow> y < n \<and> k < 8 \<and> y * 8 + k < lim \<and> \<not> bitmap_bit d (y * 8 + k) \<and>
      (\<forall>i < y * 8 + k. bitmap_bit d i))"
  using assms(2,3)
proof (induction "n - j" arbitrary: j)
  case 0
  then show ?case
    by auto
next
  case (Suc m)
  then have j: "j < n" and m: "m = n - Suc j"
    by auto
  then have up: "[j..<n] = j # [Suc j..<n]" and jb: "\<not> BLKSZ \<le> j"
    using assms(1) by (simp_all add: upt_rec)
  have split: "i < 8 * j \<or> i div 8 = j" if "i < 8 * Suc j" for i
    using that by presburger
  have next_ok: "\<exists>r. scan_bytes d lim [Suc j..<n] = Inr r \<and>
    (r = None \<longrightarrow> (\<forall>i < 8 * n. i < lim \<longrightarrow> bitmap_bit d i)) \<and>
    (\<forall>y k. r = Some (y, k) \<longrightarrow> y < n \<and> k < 8 \<and> y * 8 + k < lim \<and> \<not> bitmap_bit d (y * 8 + k) \<and>
      (\<forall>i < y * 8 + k. bitmap_bit d i))"
    if full: "\<forall>k < 8. j * 8 + k < lim \<longrightarrow> bit (d j) k"
  proof (rule Suc.hyps(1) [OF m])
    show "\<forall>i < 8 * Suc j. i < lim \<longrightarrow> bitmap_bit d i"
    proof (intro allI impI)
      fix i
      assume i: "i < 8 * Suc j" "i < lim"
      show "bitmap_bit d i"
      proof (cases "i < 8 * j")
        case False
        then have "i div 8 = j" "j * 8 + i mod 8 < lim"
          using split [OF i(1)] i(2) by auto
        then show ?thesis
          using full by (simp add: bitmap_bit_def)
      qed (use Suc.prems(2) i in simp)
    qed
  qed (use j in simp)
  show ?case
  proof (cases "d j = 0xFF")
    case True
    then show ?thesis
      using next_ok all_bits_255 jb up by simp
  next
    case False
    have up8: "sorted [0..<8]" "\<forall>k \<in> set [0..<8]. k < (8 :: nat)"
      by auto
    note bits = scan_bits_result [OF _ up8, where b = "d j" and y = j and lim = lim]
    show ?thesis
    proof (cases "scan_bits (d j) j lim [0..<8]")
      case None
      then show ?thesis
        using next_ok bits [OF None] False jb up by simp
    next
      case (Some k)
      then have k: "k < 8" "j * 8 + k < lim" "\<not> bit (d j) k" "\<forall>i < k. bit (d j) i"
        using bits [OF Some] by auto
      have "bitmap_bit d i" if "i < j * 8 + k" for i
      proof (cases "i < 8 * j")
        case False
        then have "i div 8 = j" "i mod 8 < k"
          using that k(1) by presburger+
        then show ?thesis
          using k(4) by (simp add: bitmap_bit_def)
      qed (use Suc.prems(2) that k(2) in simp)
      moreover have "(j * 8 + k) div 8 = j" "(j * 8 + k) mod 8 = k"
        using k(1) by simp_all
      ultimately show ?thesis
        using k j jb up False Some by (simp add: bitmap_bit_def)
    qed
  qed
qed

lemma bitmap_bit_set: "k < 8 \<Longrightarrow> bitmap_bit (bit_set y k d) n \<longleftrightarrow> n = y * 8 + k \<or> bitmap_bit d n"
proof -
  assume k: "k < 8"
  have "n = y * 8 + k \<longleftrightarrow> n div 8 = y \<and> n mod 8 = k"
    using k by (metis div_mult_mod_eq mod_less div_less mod_mult_self3 div_mult_self3 add_0_left add_0_right zero_neq_numeral)
  moreover have "n mod 8 < LENGTH(8)"
    by simp
  ultimately show ?thesis
    by (auto simp: bitmap_bit_def bit_set_def bit_simps bit_exp_iff)
qed

lemma bitmap_bit_clear: "k < 8 \<Longrightarrow> bitmap_bit (bit_clear y k d) n \<longleftrightarrow> n \<noteq> y * 8 + k \<and> bitmap_bit d n"
proof -
  assume k: "k < 8"
  have "n = y * 8 + k \<longleftrightarrow> n div 8 = y \<and> n mod 8 = k"
    using k by (metis div_mult_mod_eq mod_less div_less mod_mult_self3 div_mult_self3 add_0_left add_0_right zero_neq_numeral)
  moreover have "n mod 8 < LENGTH(8)"
    by simp
  ultimately show ?thesis
    by (auto simp: bitmap_bit_def bit_clear_def bit_simps bit_exp_iff)
qed

section \<open>The mounted file system\<close>

text \<open>\<open>sbno\<close> is the block of the superblock; its buffer stays pinned from the mount on.\<close>

definition mounted :: "'d fs_state \<Rightarrow> sb_info \<Rightarrow> u64 \<Rightarrow> bool" where
  "mounted s sbi sbno \<longleftrightarrow> fs_private s = Some sbi \<and> sb_buf sbi < NBLKNUM \<and> brefcnt (slots s ! sb_buf sbi) \<noteq> 0 \<and>
     bvalid (slots s ! sb_buf sbi) \<and> blk_no (slots s ! sb_buf sbi) = sbno"

lemma fs_more:
  fixes s s' :: "'d fs_state"
  assumes "bc_state.more s' = bc_state.more s"
  shows "fs_private s' = fs_private s" "fs_block_size s' = fs_block_size s" "kmem s' = kmem s"
    "inodes s' = inodes s" "infos s' = infos s" "files s' = files s" "fs_inode_cache s' = fs_inode_cache s"
  using assms by (cases s; cases s'; simp)+

lemma mounted_quiet: "quiet content ok vb s V s' \<Longrightarrow> mounted s sbi sbno \<Longrightarrow> mounted s' sbi sbno"
  using fs_more(1) [of s' s] by (auto simp: quiet_def calm_def mounted_def)

lemma nb_wr32: "nb b = nb b' \<Longrightarrow> nb (wr32 i v b) = nb (wr32 i v b')"
  by (auto simp: nb_def wr32_def fun_eq_iff split: if_splits)

lemma nb_wr16: "nb b = nb b' \<Longrightarrow> nb (wr16 i v b) = nb (wr16 i v b')"
  by (auto simp: nb_def wr16_def fun_eq_iff split: if_splits)

lemma nb_bg_store: "nb b = nb b' \<Longrightarrow> nb (bg_store g i b) = nb (bg_store g i b')"
  unfolding bg_store_def by (cases "bg_reserved g") (auto intro!: nb_wr32 nb_wr16)

lemma rd32_eq: "nb b = nb b' \<Longrightarrow> i + 4 \<le> BLKSZ \<Longrightarrow> rd32 b i = rd32 b' i"
  by (metis rd32_nb)

lemma bg_load_nb: "i + 32 \<le> BLKSZ \<Longrightarrow> bg_load (nb b) i = bg_load b i"
  by (simp add: bg_load_def rd_wr)

lemma bitmap_bit_nb: "n < 8 * BLKSZ \<Longrightarrow> bitmap_bit (nb b) n = bitmap_bit b n"
  by (simp add: bitmap_bit_def nb_def less_mult_imp_div_less mult.commute)

context block_device
begin

lemma sb_get_run:
  assumes "inv s" and "mounted s sbi sbno" and "i + 4 \<le> BLKSZ"
  shows "sb_get i sbi s = Inr (rd32 (view content s sbno) i, s)"
  using view_pinned [OF assms(1), of "sb_buf sbi"] assms(2,3) by (simp add: sb_get_def mounted_def rd_wr)

lemma sb_put_run:
  assumes "inv s" and "mounted s sbi sbno"
  obtains s' where "sb_put i v sbi s = Inr ((), s')"
    "quietly s ((view content s)(sbno := nb (wr32 i v (view content s sbno)))) s'"
proof -
  let ?b = "bdata (slots s ! sb_buf sbi)"
  have c: "sb_buf sbi < NBLKNUM" "bvalid (slots s ! sb_buf sbi)" "blk_no (slots s ! sb_buf sbi) = sbno"
    using assms(2) by (auto simp: mounted_def)
  obtain s' where s': "thenK (bput (sb_buf sbi) (wr32 i v ?b)) (bwrite (sb_buf sbi)) s = Inr ((), s')"
      "quietly s ((view content s)(sbno := nb (wr32 i v ?b))) s'"
    using pinned_write [OF assms(1) c(1,2)] c(3) by metis
  have "nb (wr32 i v ?b) = nb (wr32 i v (view content s sbno))"
    using view_pinned [OF assms(1) c(1,2)] c(3) by (intro nb_wr32) simp
  with s' show thesis
    by (intro that [of s']) (simp_all add: sb_put_def bindK_run bget_def)
qed

end

text \<open>
  The layout of the metadata: where the bitmap of group \<open>g\<close> and its descriptor are on disk.
\<close>

definition bitmap_blk :: "sb_info \<Rightarrow> nat \<Rightarrow> u64" where
  "bitmap_blk sbi g = ucast (bg_block_bitmap (gb_table sbi ! g))"

definition gdt_blk :: "u32 \<Rightarrow> u32 \<Rightarrow> nat \<Rightarrow> u64" where
  "gdt_blk fdb bs g = ucast (fdb + 1 + of_nat g div (bs div 32))"

definition gdt_off :: "u32 \<Rightarrow> nat \<Rightarrow> nat" where
  "gdt_off bs g = unat ((of_nat g :: u32) mod (bs div 32) * 32)"

abbreviation "sbf V sbno i \<equiv> rd32 ((V :: u64 \<Rightarrow> blk) sbno) i"

definition ngroups :: "sb_info \<Rightarrow> nat" where
  "ngroups sbi = length (gb_table sbi)"

definition group_base :: "(u64 \<Rightarrow> blk) \<Rightarrow> u64 \<Rightarrow> nat \<Rightarrow> nat" where
  "group_base V sbno g = unat (sbf V sbno sb_s_first_data_block) + g * unat (sbf V sbno sb_s_blocks_per_group)"

definition group_size :: "(u64 \<Rightarrow> blk) \<Rightarrow> u64 \<Rightarrow> nat \<Rightarrow> nat" where
  "group_size V sbno g = min (unat (sbf V sbno sb_s_blocks_per_group))
     (unat (sbf V sbno sb_s_blocks_count) - group_base V sbno g)"

text \<open>
  A well-formed volume: the groups tile the blocks, a bitmap fits its block, and superblock,
  bitmaps and descriptor blocks are different blocks of the device.
\<close>

definition volume :: "(u64 \<Rightarrow> bool) \<Rightarrow> u32 \<Rightarrow> (u64 \<Rightarrow> blk) \<Rightarrow> u64 \<Rightarrow> sb_info \<Rightarrow> bool" where
  "volume vb bs V sbno sbi \<longleftrightarrow>
     32 \<le> unat bs \<and> unat bs \<le> BLKSZ \<and> ngroups sbi < 2 ^ 32 \<and> group_count sbi = of_nat (ngroups sbi) \<and>
     0 < unat (sbf V sbno sb_s_blocks_per_group) \<and> unat (sbf V sbno sb_s_blocks_per_group) \<le> 8 * BLKSZ \<and>
     group_base V sbno (ngroups sbi) < 2 ^ 32 \<and>
     (\<forall>g < ngroups sbi. group_base V sbno g < unat (sbf V sbno sb_s_blocks_count)) \<and>
     unat (sbf V sbno sb_s_blocks_count) \<le> group_base V sbno (ngroups sbi) \<and>
     (\<forall>g < ngroups sbi. vb (bitmap_blk sbi g) \<and> vb (gdt_blk (sbf V sbno sb_s_first_data_block) bs g) \<and>
        bitmap_blk sbi g \<noteq> sbno \<and> gdt_blk (sbf V sbno sb_s_first_data_block) bs g \<noteq> sbno) \<and>
     (\<forall>g < ngroups sbi. \<forall>h < ngroups sbi. bitmap_blk sbi g \<noteq> gdt_blk (sbf V sbno sb_s_first_data_block) bs h \<and>
        (bitmap_blk sbi g = bitmap_blk sbi h \<longrightarrow> g = h))"

text \<open>The free blocks, as absolute block numbers.\<close>

definition free_in :: "(u64 \<Rightarrow> blk) \<Rightarrow> u64 \<Rightarrow> sb_info \<Rightarrow> nat \<Rightarrow> nat set" where
  "free_in V sbno sbi g =
     {group_base V sbno g + i | i. i < group_size V sbno g \<and> \<not> bitmap_bit (V (bitmap_blk sbi g)) i}"

definition free_blocks :: "(u64 \<Rightarrow> blk) \<Rightarrow> u64 \<Rightarrow> sb_info \<Rightarrow> nat set" where
  "free_blocks V sbno sbi = (\<Union>g < ngroups sbi. free_in V sbno sbi g)"

text \<open>The descriptors on disk are those in memory.\<close>

definition gdt_synced :: "u32 \<Rightarrow> (u64 \<Rightarrow> blk) \<Rightarrow> u64 \<Rightarrow> sb_info \<Rightarrow> bool" where
  "gdt_synced bs V sbno sbi \<longleftrightarrow> (\<forall>g < ngroups sbi.
     bg_load (V (gdt_blk (sbf V sbno sb_s_first_data_block) bs g)) (gdt_off bs g) = gb_table sbi ! g)"

section \<open>Group descriptors\<close>

lemma ucast_u32_inj: "(ucast (x :: u32) :: u64) = ucast y \<longleftrightarrow> x = y"
  by transfer (simp add: take_bit_take_bit)

lemma unat_per: "unat ((bs :: u32) div 32) = unat bs div 32"
  by (simp add: unat_div)

lemma gdt_off_eq:
  assumes "32 \<le> unat bs" and "unat bs \<le> BLKSZ"
  shows "gdt_off bs g = 32 * unat ((of_nat g :: u32) mod (bs div 32))" "gdt_off bs g + 32 \<le> BLKSZ"
proof -
  let ?r = "unat ((of_nat g :: u32) mod (bs div 32))"
  have "0 < unat (bs div 32)"
    using assms(1) by (simp add: unat_per div_greater_zero_iff)
  then have r: "?r < unat bs div 32"
    unfolding unat_per [symmetric] by (simp add: unat_mod)
  then have b: "32 * ?r + 32 \<le> unat bs"
    by simp
  have "unat ((of_nat g :: u32) mod (bs div 32) * 32) = ?r * 32"
    using b assms(2) by (subst unat_mult_lem [THEN iffD1]) (simp_all add: BLKSZ_def)
  then show "gdt_off bs g = 32 * ?r" "gdt_off bs g + 32 \<le> BLKSZ"
    using b assms(2) by (simp_all add: gdt_off_def)
qed

lemma gdt_slot_distinct:
  assumes "32 \<le> unat bs" and "unat bs \<le> BLKSZ" and "g < 2 ^ 32" and "h < 2 ^ 32" and "g \<noteq> h"
    and "gdt_blk fdb bs g = gdt_blk fdb bs h"
  shows "gdt_off bs g + 32 \<le> gdt_off bs h \<or> gdt_off bs h + 32 \<le> gdt_off bs g"
proof -
  let ?p = "bs div 32" and ?g = "of_nat g :: u32" and ?h = "of_nat h :: u32"
  have "fdb + 1 + ?g div ?p = fdb + 1 + ?h div ?p"
    using assms(6) by (simp add: gdt_blk_def ucast_u32_inj)
  then have d: "?g div ?p = ?h div ?p"
    by simp
  have "?g \<noteq> ?h"
    using assms(3-5) by (auto dest: arg_cong [where f = unat])
  then have "?g mod ?p \<noteq> ?h mod ?p"
    using d by (metis div_mult_mod_eq)
  then have "unat (?g mod ?p) \<noteq> unat (?h mod ?p)"
    using word_eq_unatI by blast
  then show ?thesis
    unfolding gdt_off_eq(1) [OF assms(1,2)] by linarith
qed

context block_device
begin

lemma gdt_writeback_run:
  assumes "inv s" and "mounted s sbi sbno" and "room 1 (slots s)" and "g < ngroups sbi"
    and vol: "volume vb (fs_block_size s) (view content s) sbno sbi"
  defines "no \<equiv> gdt_blk (sbf (view content s) sbno sb_s_first_data_block) (fs_block_size s) g"
  obtains s' where "gdt_writeback D (of_nat g) s = Inr ((), s')"
    "quietly s ((view content s)(no := nb (bg_store (gb_table sbi ! g) (gdt_off (fs_block_size s) g) (view content s no)))) s'"
proof -
  let ?bs = "fs_block_size s" and ?o = "gdt_off (fs_block_size s) g"
  have bs: "32 \<le> unat ?bs" "unat ?bs \<le> BLKSZ" and g: "g < 2 ^ 32" and no: "vb no"
    using vol assms(4) by (auto simp: volume_def no_def)
  have "0 < unat ?bs div 32"
    using bs(1) by (simp add: div_greater_zero_iff)
  then have per: "?bs div 32 \<noteq> 0"
    unfolding unat_per [symmetric] by auto
  have ug: "unat (of_nat g :: u32) = g"
    using g by simp
  have get: "get_sbi s = Inr (sbi, s)"
    using assms(2) by (simp add: get_sbi_def needK_run mounted_def)
  note fdb = sb_get_run [OF assms(1,2), of sb_s_first_data_block]
  have "1044 + 4 \<le> BLKSZ"
    by (simp add: BLKSZ_def)
  note fdb = fdb [OF this]
  obtain b s' where r: "bindK (bread D no) (\<lambda>c. bindK (bget c) (\<lambda>b. thenK (bput c (bg_store (gb_table sbi ! g) ?o b))
        (thenK (bwrite c) (thenK (brelse c) (retK ()))))) s = retK () s'" "nb b = view content s no"
      "quietly s ((view content s)(no := nb (bg_store (gb_table sbi ! g) ?o b))) s'"
    using update_run [OF assms(1) no, where k = 0 and g = "bg_store (gb_table sbi ! g) ?o" and f = "retK ()"] assms(3)
    by auto
  have ret: "thenK m (retK ()) = m" for m :: "(('d, 'z) bc_state_scheme, unit) kop"
    by (auto simp: thenK_run fun_eq_iff bindR_def split: sum.splits)
  have "gdt_writeback D (of_nat g) s = Inr ((), s')"
    using r(1) per gdt_off_eq(2) [OF bs, of g]
    by (simp add: gdt_writeback_def bindK_run get fdb assertK_run ug ret gdt_off_def gdt_blk_def no_def Let_def)
  moreover have "nb (bg_store (gb_table sbi ! g) ?o b) = nb (bg_store (gb_table sbi ! g) ?o (view content s no))"
    using r(2) by (intro nb_bg_store) (metis nb_nb)
  ultimately show thesis
    using r(3) by (intro that [of s']) simp_all
qed

end

text \<open>
  The change of one group: its bitmap becomes \<open>bm\<close>, its descriptor \<open>G\<close>, in memory and on disk,
  and the number of free blocks in the superblock becomes \<open>v\<close>.
\<close>

definition set_group :: "nat \<Rightarrow> bg_desc \<Rightarrow> sb_info \<Rightarrow> sb_info" where
  "set_group g G sbi = sbi\<lparr>gb_table := (gb_table sbi)[g := G]\<rparr>"

definition group_write :: "u32 \<Rightarrow> u64 \<Rightarrow> sb_info \<Rightarrow> nat \<Rightarrow> bg_desc \<Rightarrow> blk \<Rightarrow> u32 \<Rightarrow> (u64 \<Rightarrow> blk) \<Rightarrow> u64 \<Rightarrow> blk" where
  "group_write bs sbno sbi g G bm v V =
     (let d = gdt_blk (sbf V sbno sb_s_first_data_block) bs g in
      V(bitmap_blk sbi g := nb bm, d := nb (bg_store G (gdt_off bs g) (V d)),
        sbno := nb (wr32 sb_s_free_blocks_count v (V sbno))))"

lemma set_group_simps [simp]:
  "ngroups (set_group g G sbi) = ngroups sbi" "sb_buf (set_group g G sbi) = sb_buf sbi"
  "group_count (set_group g G sbi) = group_count sbi"
  "g < ngroups sbi \<Longrightarrow> gb_table (set_group g G sbi) ! g = G"
  "h \<noteq> g \<Longrightarrow> gb_table (set_group g G sbi) ! h = gb_table sbi ! h"
  by (simp_all add: set_group_def ngroups_def)

text \<open>The parts of the mount information that allocation leaves alone.\<close>

definition same_layout :: "sb_info \<Rightarrow> sb_info \<Rightarrow> bool" where
  "same_layout sbi' sbi \<longleftrightarrow> sb_buf sbi' = sb_buf sbi \<and> group_count sbi' = group_count sbi \<and> ngroups sbi' = ngroups sbi \<and>
     inode_per_group sbi' = inode_per_group sbi \<and> inode_size sbi' = inode_size sbi \<and>
     (\<forall>g < ngroups sbi. bg_inode_table (gb_table sbi' ! g) = bg_inode_table (gb_table sbi ! g))"

lemma same_layout_refl [simp]: "same_layout sbi sbi"
  by (simp add: same_layout_def)

lemma same_layout_trans: "same_layout sbi2 sbi1 \<Longrightarrow> same_layout sbi1 sbi \<Longrightarrow> same_layout sbi2 sbi"
  by (simp add: same_layout_def)

lemma same_layout_set_group:
  "bg_inode_table G = bg_inode_table (gb_table sbi ! g) \<Longrightarrow> same_layout (set_group g G sbi) sbi"
  unfolding same_layout_def set_group_def ngroups_def
  by (simp, metis nth_list_update_eq nth_list_update_neq)

lemma bitmap_blk_set_group [simp]:
  "bg_block_bitmap G = bg_block_bitmap (gb_table sbi ! g) \<Longrightarrow> bitmap_blk (set_group g G sbi) h = bitmap_blk sbi h"
  by (cases "h = g"; cases "g < ngroups sbi") (simp_all add: bitmap_blk_def set_group_def ngroups_def list_update_beyond)

lemma fs_private_simps [simp]:
  "view content (s\<lparr>fs_private := x\<rparr>) = view content s"
  "bc_inv content ok vb (s\<lparr>fs_private := x\<rparr>) = bc_inv content ok vb s"
  by (auto simp: view_def bc_inv_def fun_eq_iff split: option.split)

lemma volume_cong:
  assumes "volume vb bs V sbno sbi" and "bg_block_bitmap G = bg_block_bitmap (gb_table sbi ! g)"
    and "sbf V' sbno sb_s_first_data_block = sbf V sbno sb_s_first_data_block"
    and "sbf V' sbno sb_s_blocks_per_group = sbf V sbno sb_s_blocks_per_group"
    and "sbf V' sbno sb_s_blocks_count = sbf V sbno sb_s_blocks_count"
  shows "volume vb bs V' sbno (set_group g G sbi)"
  using assms(1) unfolding volume_def group_base_def set_group_simps(1,3) bitmap_blk_set_group [OF assms(2)] assms(3-5) .

lemma sbf_nb_wr32: "i + 4 \<le> BLKSZ \<Longrightarrow> j + 4 \<le> i \<or> i + 4 \<le> j \<Longrightarrow> rd32 (nb (wr32 j v b)) i = rd32 b i"
  by (simp add: rd32_nb rd32_wr32_other disj_commute)

context block_device
begin

lemma group_tail_run:
  assumes "inv s" and m: "mounted s sbi sbno" and "room 1 (slots s)" and "g < ngroups sbi"
    and vol: "volume vb (fs_block_size s) (view content s) sbno sbi"
    and G: "bg_block_bitmap G = bg_block_bitmap (gb_table sbi ! g)"
  defines "d \<equiv> gdt_blk (sbf (view content s) sbno sb_s_first_data_block) (fs_block_size s) g"
  shows "\<exists>s'. thenK (put_gdesc g G) (thenK (gdt_writeback D (of_nat g)) (bindK (sb_get sb_s_free_blocks_count sbi) (\<lambda>free.
      thenK (sb_put sb_s_free_blocks_count (h free) sbi) k))) s = k s' \<and>
    quietly (s\<lparr>fs_private := Some (set_group g G sbi)\<rparr>)
      ((view content s)(d := nb (bg_store G (gdt_off (fs_block_size s) g) (view content s d)),
        sbno := nb (wr32 sb_s_free_blocks_count (h (sbf (view content s) sbno sb_s_free_blocks_count))
          (view content s sbno)))) s'"
proof -
  let ?V = "view content s" and ?sbi = "set_group g G sbi" and ?bs = "fs_block_size s"
  let ?s = "s\<lparr>fs_private := Some ?sbi\<rparr>"
  have put: "put_gdesc g G s = Inr ((), ?s)"
    using m by (simp add: put_gdesc_def mounted_def set_group_def)
  have s: "inv ?s" "mounted ?s ?sbi sbno" "view content ?s = ?V" "slots ?s = slots s" "fs_block_size ?s = ?bs"
    using assms(1) m by (simp_all add: mounted_def)
  have vol': "volume vb (fs_block_size ?s) (view content ?s) sbno ?sbi"
    unfolding s(3,5) by (rule volume_cong [OF vol G]) simp_all
  obtain s1 where w: "gdt_writeback D (of_nat g) ?s = Inr ((), s1)"
      "quietly ?s (?V(d := nb (bg_store G (gdt_off ?bs g) (?V d)))) s1"
    using gdt_writeback_run [OF s(1,2) _ _ vol', of g] assms(3,4) unfolding s(3,4,5) d_def by auto
  have dne: "d \<noteq> sbno"
    using vol assms(4) by (auto simp: volume_def d_def)
  have v1: "view content s1 = ?V(d := nb (bg_store G (gdt_off ?bs g) (?V d)))"
    using quietD(2) [OF w(2)] .
  have inv1: "inv s1"
    using quietD(1) [OF w(2)] .
  have m1: "mounted s1 ?sbi sbno"
    using mounted_quiet [OF w(2) s(2)] .
  have "1036 + 4 \<le> BLKSZ"
    by (simp add: BLKSZ_def)
  note get = sb_get_run [OF inv1 m1 this]
  have cong: "sb_get i sbi = sb_get i ?sbi" "sb_put i v sbi = sb_put i v ?sbi" for i v
    by (simp_all add: sb_get_def sb_put_def)
  obtain s2 where p: "sb_put sb_s_free_blocks_count (h (sbf ?V sbno sb_s_free_blocks_count)) ?sbi s1 = Inr ((), s2)"
      "quietly s1 ((view content s1)(sbno := nb (wr32 sb_s_free_blocks_count
        (h (sbf ?V sbno sb_s_free_blocks_count)) (view content s1 sbno)))) s2"
    using sb_put_run [OF inv1 m1] by metis
  have "quietly ?s (?V(d := nb (bg_store G (gdt_off ?bs g) (?V d)),
      sbno := nb (wr32 sb_s_free_blocks_count (h (sbf ?V sbno sb_s_free_blocks_count)) (?V sbno)))) s2"
    using quiet_trans [OF w(2) p(2)] dne by (simp add: v1)
  moreover have "sbf (view content s1) sbno sb_s_free_blocks_count = sbf ?V sbno sb_s_free_blocks_count"
    using dne by (simp add: v1)
  ultimately show ?thesis
    using put w(1) get p(1) by (intro exI [of _ s2]) (simp add: thenK_run bindK_run cong)
qed

end

section \<open>The specification\<close>

lemma group_write_effect:
  fixes bm :: blk and v :: u32
  assumes vol: "volume vb bs V sbno sbi" and g: "g < ngroups sbi"
    and G: "bg_block_bitmap G = bg_block_bitmap (gb_table sbi ! g)"
  defines "V' \<equiv> group_write bs sbno sbi g G bm v V"
  shows "volume vb bs V' sbno (set_group g G sbi)"
    and "V' (bitmap_blk sbi g) = nb bm"
    and "h < ngroups sbi \<Longrightarrow> h \<noteq> g \<Longrightarrow> V' (bitmap_blk sbi h) = V (bitmap_blk sbi h)"
    and "sbf V' sbno sb_s_free_blocks_count = v"
    and "group_base V' sbno = group_base V sbno" "group_size V' sbno = group_size V sbno"
    and "gdt_synced bs V sbno sbi \<Longrightarrow> gdt_synced bs V' sbno (set_group g G sbi)"
    and "x \<notin> {bitmap_blk sbi g, gdt_blk (sbf V sbno sb_s_first_data_block) bs g, sbno} \<Longrightarrow> V' x = V x"
proof -
  let ?d = "gdt_blk (sbf V sbno sb_s_first_data_block) bs"
  have bs: "32 \<le> unat bs" "unat bs \<le> BLKSZ" and n: "ngroups sbi < 2 ^ 32"
    and ne: "\<And>h. h < ngroups sbi \<Longrightarrow> bitmap_blk sbi h \<noteq> sbno \<and> ?d h \<noteq> sbno"
    and bd: "\<And>h i. h < ngroups sbi \<Longrightarrow> i < ngroups sbi \<Longrightarrow> bitmap_blk sbi h \<noteq> ?d i \<and>
      (bitmap_blk sbi h = bitmap_blk sbi i \<longrightarrow> h = i)"
    using vol by (auto simp: volume_def)
  have sb: "V' sbno = nb (wr32 sb_s_free_blocks_count v (V sbno))"
    by (simp add: V'_def group_write_def Let_def)
  have f: "sbf V' sbno sb_s_first_data_block = sbf V sbno sb_s_first_data_block"
      "sbf V' sbno sb_s_blocks_per_group = sbf V sbno sb_s_blocks_per_group"
      "sbf V' sbno sb_s_blocks_count = sbf V sbno sb_s_blocks_count"
    unfolding sb by (simp_all add: sbf_nb_wr32 BLKSZ_def)
  show "volume vb bs V' sbno (set_group g G sbi)"
    by (rule volume_cong [OF vol G]; fact f)
  show "V' (bitmap_blk sbi g) = nb bm"
    using ne [OF g] bd [OF g g] by (simp add: V'_def group_write_def Let_def)
  show "V' (bitmap_blk sbi h) = V (bitmap_blk sbi h)" if "h < ngroups sbi" "h \<noteq> g" for h
    using ne [OF that(1)] bd [OF that(1) g] that(2) by (auto simp: V'_def group_write_def Let_def)
  show "sbf V' sbno sb_s_free_blocks_count = v"
    unfolding sb by (simp add: rd32_nb BLKSZ_def)
  show "group_base V' sbno = group_base V sbno" "group_size V' sbno = group_size V sbno"
    by (simp_all add: fun_eq_iff group_base_def group_size_def f)
  show "V' x = V x" if "x \<notin> {bitmap_blk sbi g, ?d g, sbno}" for x
    using that by (simp add: V'_def group_write_def Let_def)
  have d: "V' (?d h) = (if ?d h = ?d g then nb (bg_store G (gdt_off bs g) (V (?d g))) else V (?d h))"
    if "h < ngroups sbi" for h
    using ne [OF that] ne [OF g] bd [OF g that] by (auto simp: V'_def group_write_def Let_def)
  assume sync: "gdt_synced bs V sbno sbi"
  show "gdt_synced bs V' sbno (set_group g G sbi)"
    unfolding gdt_synced_def set_group_simps(1) f
  proof (intro allI impI)
    fix h
    assume h: "h < ngroups sbi"
    have o: "gdt_off bs h + 32 \<le> BLKSZ"
      using gdt_off_eq(2) [OF bs] .
    have old: "bg_load (V (?d h)) (gdt_off bs h) = gb_table sbi ! h"
      using sync h by (simp add: gdt_synced_def)
    show "bg_load (V' (?d h)) (gdt_off bs h) = gb_table (set_group g G sbi) ! h"
    proof (cases "h = g")
      case True
      then show ?thesis
        using g o by (simp add: d bg_load_nb bg_load_store)
    next
      case False
      show ?thesis
      proof (cases "?d h = ?d g")
        case True
        then have "gdt_off bs g + 32 \<le> gdt_off bs h \<or> gdt_off bs h + 32 \<le> gdt_off bs g"
          using gdt_slot_distinct [OF bs _ _ False True] h g n by auto
        then show ?thesis
          using False True old o by (simp add: d [OF g] bg_load_nb bg_load_store_other)
      qed (use False old in \<open>simp add: d [OF h]\<close>)
    qed
  qed
qed

lemma free_in_range:
  "x \<in> free_in V sbno sbi g \<Longrightarrow> group_base V sbno g \<le> x \<and> x < group_base V sbno (Suc g)"
  by (auto simp: free_in_def group_size_def group_base_def)

lemma free_in_disjoint:
  assumes "x \<in> free_in V sbno sbi g" and "x \<in> free_in V sbno sbi h"
  shows "g = h"
proof (rule ccontr)
  assume "g \<noteq> h"
  have mono: "group_base V sbno (Suc i) \<le> group_base V sbno j" if "Suc i \<le> j" for i j
    using mult_le_mono1 [OF that] by (simp add: group_base_def)
  from \<open>g \<noteq> h\<close> consider "Suc g \<le> h" | "Suc h \<le> g"
    by linarith
  then show False
    using free_in_range [OF assms(1)] free_in_range [OF assms(2)] mono [of g h] mono [of h g]
    by cases linarith+
qed

lemma free_in_cong:
  assumes "group_base V' sbno = group_base V sbno" and "group_size V' sbno = group_size V sbno"
    and "V' (bitmap_blk sbi' g) = V (bitmap_blk sbi g)"
  shows "free_in V' sbno sbi' g = free_in V sbno sbi g"
  by (simp add: free_in_def assms)

text \<open>The end of both operations: the bitmap in the pinned slot \<open>c\<close> is replaced and released.\<close>

lemma more_fs_private:
  fixes s s' :: "'d fs_state"
  shows "bc_state.more s' = bc_state.more s \<Longrightarrow> bc_state.more (s'\<lparr>fs_private := x\<rparr>) = bc_state.more (s\<lparr>fs_private := x\<rparr>)"
  by (cases s; cases s'; simp)

lemma quiet_fs_private:
  fixes s s1 s' :: "'d fs_state"
  assumes "calm (slots s) (slots s1)" and "bc_state.more s1 = bc_state.more s"
    and "quiet content ok vb (s1\<lparr>fs_private := x\<rparr>) V s'"
  shows "quiet content ok vb (s\<lparr>fs_private := x\<rparr>) V s'"
  using assms(3) calm_trans [OF assms(1)] more_fs_private [OF assms(2)] by (auto simp: quiet_def)

context block_device
begin

lemma group_commit:
  assumes m: "mounted s sbi sbno" and room: "room 1 (slots s)" and g: "g < ngroups sbi"
    and vol: "volume vb (fs_block_size s) (view content s) sbno sbi"
    and G: "bg_block_bitmap G = bg_block_bitmap (gb_table sbi ! g)"
    and s1: "inv s1" "view content s1 = view content s" "pin c (slots s) (slots s1)" "bvalid (slots s1 ! c)"
      "blk_no (slots s1 ! c) = bitmap_blk sbi g" "bc_state.more s1 = bc_state.more s"
  shows "\<exists>s'. thenK (bput c bm) (thenK (bwrite c) (thenK (brelse c) (thenK (put_gdesc g G) (thenK (gdt_writeback D (of_nat g))
      (bindK (sb_get sb_s_free_blocks_count sbi) (\<lambda>free. thenK (sb_put sb_s_free_blocks_count (h free) sbi) k)))))) s1 = k s' \<and>
    quietly (s\<lparr>fs_private := Some (set_group g G sbi)\<rparr>)
      (group_write (fs_block_size s) sbno sbi g G bm (h (sbf (view content s) sbno sb_s_free_blocks_count)) (view content s)) s'"
proof -
  let ?V = "view content s" and ?b = "bitmap_blk sbi g" and ?bs = "fs_block_size s"
  let ?tail = "thenK (put_gdesc g G) (thenK (gdt_writeback D (of_nat g))
      (bindK (sb_get sb_s_free_blocks_count sbi) (\<lambda>free. thenK (sb_put sb_s_free_blocks_count (h free) sbi) k)))"
  obtain s2 where s2: "thenK (bput c bm) (thenK (bwrite c) (thenK (brelse c) ?tail)) s1 = ?tail s2" "inv s2"
      "view content s2 = ?V(?b := nb bm)" "calm (slots s) (slots s2)" "bc_state.more s2 = bc_state.more s1"
    using write_release [OF s1(1,3) _ s1(4), of 0 bm ?tail] room unfolding s1(2,5) by auto
  have q: "quietly s (?V(?b := nb bm)) s2"
    using s2 s1(6) by (simp add: quiet_def)
  have bs: "fs_block_size s2 = ?bs"
    using fs_more(2) [of s2 s] s2(5) s1(6) by simp
  have ne: "?b \<noteq> sbno" "?b \<noteq> gdt_blk (sbf ?V sbno sb_s_first_data_block) ?bs g"
    using vol g by (auto simp: volume_def)
  have sb: "view content s2 sbno = ?V sbno"
    using ne(1) by (simp add: s2(3))
  have "volume vb ?bs (view content s2) sbno (set_group g (gb_table sbi ! g) sbi)"
    by (rule volume_cong [OF vol refl]) (simp_all add: sb)
  then have vol2: "volume vb ?bs (view content s2) sbno sbi"
    by (simp add: set_group_def)
  obtain s3 where "?tail s2 = k s3" "quietly (s2\<lparr>fs_private := Some (set_group g G sbi)\<rparr>)
      ((view content s2)(gdt_blk (sbf ?V sbno sb_s_first_data_block) ?bs g := nb (bg_store G (gdt_off ?bs g)
          (view content s2 (gdt_blk (sbf ?V sbno sb_s_first_data_block) ?bs g))),
        sbno := nb (wr32 sb_s_free_blocks_count (h (sbf ?V sbno sb_s_free_blocks_count)) (?V sbno)))) s3"
    using group_tail_run [OF s2(2) mounted_quiet [OF q m] _ g _ G, where h = h and k = k] vol2 room quiet_room [OF q]
    unfolding bs sb by auto
  moreover have "(view content s2)(gdt_blk (sbf ?V sbno sb_s_first_data_block) ?bs g := nb (bg_store G (gdt_off ?bs g)
          (view content s2 (gdt_blk (sbf ?V sbno sb_s_first_data_block) ?bs g))),
        sbno := nb (wr32 sb_s_free_blocks_count (h (sbf ?V sbno sb_s_free_blocks_count)) (?V sbno))) =
      group_write ?bs sbno sbi g G bm (h (sbf ?V sbno sb_s_free_blocks_count)) ?V"
    using ne by (simp add: group_write_def s2(3) Let_def)
  ultimately show ?thesis
    using s2(1) quiet_fs_private [OF s2(4), where x = "Some (set_group g G sbi)"] s2(5) s1(6) by auto
qed

end

text \<open>The machine arithmetic of the allocators.\<close>

lemma group_words:
  assumes vol: "volume vb bs V sbno sbi" and g: "g < ngroups sbi"
  defines "fdb \<equiv> sbf V sbno sb_s_first_data_block" and "bpg \<equiv> sbf V sbno sb_s_blocks_per_group"
    and "cnt \<equiv> sbf V sbno sb_s_blocks_count"
  defines "blocks \<equiv> if cnt < fdb + of_nat g * bpg + bpg then cnt - (fdb + of_nat g * bpg) else bpg"
  shows "unat (fdb + of_nat g * bpg) = group_base V sbno g" "unat blocks = group_size V sbno g"
    and "unat ((blocks + 7) div 8) = (group_size V sbno g + 7) div 8" "(group_size V sbno g + 7) div 8 \<le> BLKSZ"
    and "i < group_size V sbno g \<Longrightarrow> unat (fdb + of_nat g * bpg + of_nat i) = group_base V sbno g + i"
proof -
  have b: "unat bpg \<le> 32768" "group_base V sbno (ngroups sbi) < 2 ^ 32" "group_base V sbno g < unat cnt"
    using vol g by (auto simp: volume_def bpg_def cnt_def BLKSZ_def)
  have "Suc g * unat bpg \<le> ngroups sbi * unat bpg"
    using g by (intro mult_le_mono1) simp
  then have s: "unat fdb + g * unat bpg + unat bpg < 2 ^ 32"
    using b(2) by (simp add: group_base_def fdb_def bpg_def)
  have gn: "g < 2 ^ 32"
    using vol g by (simp add: volume_def)
  have m: "unat (of_nat g * bpg) = g * unat bpg"
    using s gn by (subst unat_mult_lem [THEN iffD1]) simp_all
  show base: "unat (fdb + of_nat g * bpg) = group_base V sbno g"
    using s m by (subst unat_add_lem [THEN iffD1]) (simp_all add: group_base_def fdb_def bpg_def)
  then have "unat (fdb + of_nat g * bpg + bpg) = group_base V sbno g + unat bpg"
    using s by (subst unat_add_lem [THEN iffD1]) (simp_all add: group_base_def fdb_def bpg_def)
  then show bl: "unat blocks = group_size V sbno g"
    using b(3) base unat_sub_if' [of cnt "fdb + of_nat g * bpg"]
    by (auto simp: blocks_def group_size_def word_less_nat_alt cnt_def bpg_def min_def)
  have gs: "group_size V sbno g \<le> 32768" "group_size V sbno g \<le> unat bpg"
    using b(1) by (auto simp: group_size_def bpg_def)
  then have "unat (blocks + 7) = group_size V sbno g + 7"
    by (subst unat_add_lem [THEN iffD1]) (simp_all add: bl)
  then show "unat ((blocks + 7) div 8) = (group_size V sbno g + 7) div 8"
    by (simp add: unat_div)
  show "(group_size V sbno g + 7) div 8 \<le> BLKSZ"
    using gs(1) by (simp add: BLKSZ_def)
  show "unat (fdb + of_nat g * bpg + of_nat i) = group_base V sbno g + i" if "i < group_size V sbno g"
    using s gs that base by (subst unat_add_lem [THEN iffD1]) (simp_all add: group_base_def fdb_def bpg_def)
qed

lemma free_in_bitmap:
  assumes "free_in V sbno sbi g \<noteq> {}"
  shows "\<exists>i < group_size V sbno g. \<not> bitmap_bit (V (bitmap_blk sbi g)) i"
  using assms by (auto simp: free_in_def)

lemma mounted_pin:
  fixes s s1 :: "'d fs_state"
  assumes "mounted s sbi sbno" and "pin c (slots s) (slots s1)" and "room (Suc k) (slots s)"
    and "bc_state.more s1 = bc_state.more s"
  shows "mounted s1 sbi sbno"
proof -
  have i: "sb_buf sbi < NBLKNUM" "brefcnt (slots s ! sb_buf sbi) \<noteq> 0" "bvalid (slots s ! sb_buf sbi)"
      "blk_no (slots s ! sb_buf sbi) = sbno"
    using assms(1) by (auto simp: mounted_def)
  have "brefcnt (slots s1 ! sb_buf sbi) \<noteq> 0"
    using pin_count(2) [OF assms(2,3)] assms(2) i by (cases "sb_buf sbi = c") (simp_all add: pin_def)
  then show ?thesis
    using assms(1,2) i fs_more(1) [OF assms(4)] by (simp add: mounted_def pin_def)
qed

text \<open>What one successful allocation in group \<open>g\<close> does, and what a failed one does.\<close>

definition took_block :: "('d \<Rightarrow> u64 \<Rightarrow> blk) \<Rightarrow> ('d \<Rightarrow> bool) \<Rightarrow> (u64 \<Rightarrow> bool) \<Rightarrow> u64 \<Rightarrow> sb_info \<Rightarrow>
    'd fs_state \<Rightarrow> nat \<Rightarrow> u32 \<Rightarrow> 'd fs_state \<Rightarrow> bool" where
  "took_block content ok vb sbno sbi s g no s' \<longleftrightarrow>
     (let V = view content s; G = gb_table sbi ! g; H = G\<lparr>bg_free_blocks_count := bg_free_blocks_count G - 1\<rparr> in
      g < ngroups sbi \<and> bg_free_blocks_count G \<noteq> 0 \<and>
      (\<exists>i bm. i < group_size V sbno g \<and> unat no = group_base V sbno g + i \<and> \<not> bitmap_bit (V (bitmap_blk sbi g)) i \<and>
         (\<forall>j < group_size V sbno g. bitmap_bit bm j \<longleftrightarrow> j = i \<or> bitmap_bit (V (bitmap_blk sbi g)) j) \<and>
         quiet content ok vb (s\<lparr>fs_private := Some (set_group g H sbi)\<rparr>)
           (group_write (fs_block_size s) sbno sbi g H bm (sbf V sbno sb_s_free_blocks_count - 1) V) s'))"

lemma took_block_quiet:
  assumes "quiet content ok vb s (view content s) s1" and "took_block content ok vb sbno sbi s1 g no s'"
  shows "took_block content ok vb sbno sbi s g no s'"
proof -
  have e: "view content s1 = view content s" "fs_block_size s1 = fs_block_size s" "calm (slots s) (slots s1)"
      "bc_state.more s1 = bc_state.more s"
    using quietD [OF assms(1)] fs_more(2) [of s1 s] by simp_all
  show ?thesis
    using assms(2) quiet_fs_private [OF e(3,4)] unfolding took_block_def Let_def e(1,2) by blast
qed

context block_device
begin

lemma alloc_block_loop_run:
  assumes "inv s" and "mounted s sbi sbno" and "room 1 (slots s)"
    and "volume vb (fs_block_size s) (view content s) sbno sbi" and "g + n = ngroups sbi"
  shows "\<exists>no s'. ext2_alloc_block_loop D n (of_nat g) s = Inr (no, s') \<and>
    ((\<exists>h. took_block content ok vb sbno sbi s h no s') \<or>
     no = 0 \<and> quietly s (view content s) s' \<and> (\<forall>h. g \<le> h \<and> h < ngroups sbi \<longrightarrow>
       bg_free_blocks_count (gb_table sbi ! h) = 0 \<or> free_in (view content s) sbno sbi h = {}))"
  using assms
proof (induction n arbitrary: g s)
  case 0
  then show ?case
    by (auto intro: quiet_refl)
next
  case (Suc n)
  let ?V = "view content s" and ?G = "gb_table sbi ! g"
  let ?H = "?G\<lparr>bg_free_blocks_count := bg_free_blocks_count ?G - 1\<rparr>"
  have g: "g < ngroups sbi" "Suc g + n = ngroups sbi" and g32: "g < 4294967296"
    using Suc.prems(4,5) by (auto simp: volume_def)
  have sbi: "get_sbi s = Inr (sbi, s)"
    using Suc.prems(2) by (simp add: get_sbi_def needK_run mounted_def)
  have rest: "\<exists>no s'. ext2_alloc_block_loop D n (of_nat g + 1) s1 = Inr (no, s') \<and>
      ((\<exists>h. took_block content ok vb sbno sbi s h no s') \<or>
       no = 0 \<and> quietly s ?V s' \<and> (\<forall>h. g \<le> h \<and> h < ngroups sbi \<longrightarrow>
         bg_free_blocks_count (gb_table sbi ! h) = 0 \<or> free_in ?V sbno sbi h = {}))"
    if q: "quietly s ?V s1" and none: "bg_free_blocks_count ?G = 0 \<or> free_in ?V sbno sbi g = {}" for s1
  proof -
    have e: "fs_block_size s1 = fs_block_size s" "view content s1 = ?V" "inv s1"
      using quietD [OF q] fs_more(2) [of s1 s] by simp_all
    have "volume vb (fs_block_size s1) (view content s1) sbno sbi" "room 1 (slots s1)"
      using Suc.prems(3,4) quiet_room [OF q] by (simp_all add: e)
    from Suc.IH [OF e(3) mounted_quiet [OF q Suc.prems(2)] this(2,1) g(2)]
    obtain no s' where r: "ext2_alloc_block_loop D n (of_nat g + 1) s1 = Inr (no, s')"
        "(\<exists>h. took_block content ok vb sbno sbi s1 h no s') \<or>
         no = 0 \<and> quietly s1 ?V s' \<and> (\<forall>h. Suc g \<le> h \<and> h < ngroups sbi \<longrightarrow>
           bg_free_blocks_count (gb_table sbi ! h) = 0 \<or> free_in ?V sbno sbi h = {})"
      by (auto simp: e add.commute)
    have all: "g \<le> h \<longleftrightarrow> h = g \<or> Suc g \<le> h" for h
      by auto
    show ?thesis
    proof (intro exI conjI, rule r(1))
      show "(\<exists>h. took_block content ok vb sbno sbi s h no s') \<or>
         no = 0 \<and> quietly s ?V s' \<and> (\<forall>h. g \<le> h \<and> h < ngroups sbi \<longrightarrow>
           bg_free_blocks_count (gb_table sbi ! h) = 0 \<or> free_in ?V sbno sbi h = {})"
        using r(2) none took_block_quiet [OF q] quiet_trans [OF q] unfolding all by blast
    qed
  qed
  show ?case
  proof (cases "bg_free_blocks_count ?G = 0")
    case True
    then show ?thesis
      using rest [OF quiet_refl [OF Suc.prems(1)]] sbi g g32 by (simp add: bindK_run assertK_run ngroups_def)
  next
    case False
    let ?b = "bitmap_blk sbi g" and ?n = "group_size ?V sbno g"
    have "vb ?b"
      using Suc.prems(4) g(1) by (simp add: volume_def)
    from bread_pin [OF Suc.prems(1) this, of 0] Suc.prems(3)
    obtain c s1 where s1: "bread D ?b s = Inr (c, s1)" "inv s1" "view content s1 = ?V" "pin c (slots s) (slots s1)"
        "bvalid (slots s1 ! c)" "blk_no (slots s1 ! c) = ?b" "nb (bdata (slots s1 ! c)) = ?V ?b"
        "bc_state.more s1 = bc_state.more s"
      by auto
    let ?d = "bdata (slots s1 ! c)"
    have room: "room (Suc 0) (slots s)"
      using Suc.prems(3) by simp
    have m1: "mounted s1 sbi sbno"
      by (rule mounted_pin [OF Suc.prems(2) s1(4) room s1(8)])
    have off: "1044 + 4 \<le> BLKSZ" "1056 + 4 \<le> BLKSZ" "1028 + 4 \<le> BLKSZ"
      by (simp_all add: BLKSZ_def)
    note gets = off [THEN sb_get_run [OF s1(2) m1], unfolded s1(3)]
    note w = group_words [OF Suc.prems(4) g(1)]
    have bits: "bitmap_bit ?d i = bitmap_bit (?V ?b) i" if "i < ?n" for i
      using that w(4) unfolding s1(7) [symmetric] by (intro bitmap_bit_nb [symmetric]) linarith
    obtain r where r: "scan_bytes ?d ?n [0..<(?n + 7) div 8] = Inr r"
        "r = None \<longrightarrow> (\<forall>i < 8 * ((?n + 7) div 8). i < ?n \<longrightarrow> bitmap_bit ?d i)"
        "\<forall>y k. r = Some (y, k) \<longrightarrow> y < (?n + 7) div 8 \<and> k < 8 \<and> y * 8 + k < ?n \<and> \<not> bitmap_bit ?d (y * 8 + k) \<and>
          (\<forall>i < y * 8 + k. bitmap_bit ?d i)"
      using scan_bytes_result [OF w(4), of 0 ?n ?d] by auto
    note run = Suc.prems(1) sbi False g(1) g32 s1(1) gets w(1-3) r(1)
    show ?thesis
    proof (cases r)
      case None
      have "free_in ?V sbno sbi g = {}"
      proof (rule ccontr)
        assume "free_in ?V sbno sbi g \<noteq> {}"
        then obtain i where "i < ?n" "\<not> bitmap_bit ?d i"
          using free_in_bitmap bits by blast
        then show False
          using r(2) None by auto
      qed
      moreover obtain s2 where s2: "brelse c s1 = Inr ((), s2)" "inv s2" "view content s2 = ?V"
          "calm (slots s) (slots s2)" "bc_state.more s2 = bc_state.more s"
        using brelse_pin [OF s1(2,4) room s1(5)] s1(3,8) by metis
      moreover from this have "quietly s ?V s2"
        by (simp add: quiet_def)
      moreover have "ext2_alloc_block_loop D (Suc n) (of_nat g) s = ext2_alloc_block_loop D n (of_nat g + 1) s2"
        using run None s2(1)
        by (simp add: bindK_run thenK_run assertK_run ngroups_def bitmap_blk_def [symmetric] bget_def liftK_run Let_def)
      ultimately show ?thesis
        using rest [of s2] by simp
    next
      case (Some yk)
      obtain y k where yk: "yk = (y, k)"
        by (cases yk)
      then have i: "y * 8 + k < ?n" "k < 8" "\<not> bitmap_bit ?d (y * 8 + k)"
        using r(3) Some by auto
      have H: "bg_block_bitmap ?H = bg_block_bitmap ?G"
        by simp
      obtain s' where s': "thenK (bput c (bit_set y k ?d)) (thenK (bwrite c) (thenK (brelse c) (thenK (put_gdesc g ?H)
            (thenK (gdt_writeback D (of_nat g)) (bindK (sb_get sb_s_free_blocks_count sbi) (\<lambda>free.
              thenK (sb_put sb_s_free_blocks_count (free - 1) sbi)
                (retK (sbf ?V sbno sb_s_first_data_block + of_nat g * sbf ?V sbno sb_s_blocks_per_group + of_nat (y * 8 + k)))))))))
            s1 = retK (sbf ?V sbno sb_s_first_data_block + of_nat g * sbf ?V sbno sb_s_blocks_per_group + of_nat (y * 8 + k)) s'"
          "quietly (s\<lparr>fs_private := Some (set_group g ?H sbi)\<rparr>)
            (group_write (fs_block_size s) sbno sbi g ?H (bit_set y k ?d) (sbf ?V sbno sb_s_free_blocks_count - 1) ?V) s'"
        using group_commit [OF Suc.prems(2,3) g(1) Suc.prems(4) H s1(2-6,8), where h = "\<lambda>x. x - 1"] by metis
      have "took_block content ok vb sbno sbi s g
          (sbf ?V sbno sb_s_first_data_block + of_nat g * sbf ?V sbno sb_s_blocks_per_group + of_nat (y * 8 + k)) s'"
        unfolding took_block_def Let_def
      proof (intro conjI exI)
        show "unat (sbf ?V sbno sb_s_first_data_block + of_nat g * sbf ?V sbno sb_s_blocks_per_group + of_nat (y * 8 + k)) =
            group_base ?V sbno g + (y * 8 + k)"
          by (rule w(5) [OF i(1)])
        show "\<forall>j < ?n. bitmap_bit (bit_set y k ?d) j = (j = y * 8 + k \<or> bitmap_bit (?V ?b) j)"
          using i(2) bits by (simp add: bitmap_bit_set)
      qed (use g(1) False i bits s'(2) in simp_all)
      moreover have "ext2_alloc_block_loop D (Suc n) (of_nat g) s =
          Inr (sbf ?V sbno sb_s_first_data_block + of_nat g * sbf ?V sbno sb_s_blocks_per_group + of_nat (y * 8 + k), s')"
        using run Some yk s'(1)
        by (simp add: bindK_run assertK_run ngroups_def bitmap_blk_def [symmetric] bget_def liftK_run Let_def)
      ultimately show ?thesis
        by blast
    qed
  qed
qed

end

text \<open>
  The invariant of the allocator: the volume is well-formed, the descriptors on disk are those
  in memory, every free count, of a group and of the whole volume, is the number of clear bits,
  and block 0 is in use, so that 0 can stand for failure.
\<close>

definition alloc_inv :: "('d \<Rightarrow> u64 \<Rightarrow> blk) \<Rightarrow> ('d \<Rightarrow> bool) \<Rightarrow> (u64 \<Rightarrow> bool) \<Rightarrow> u64 \<Rightarrow> sb_info \<Rightarrow>
    'd fs_state \<Rightarrow> bool" where
  "alloc_inv content ok vb sbno sbi s \<longleftrightarrow>
     (let V = view content s in
      bc_inv content ok vb s \<and> mounted s sbi sbno \<and> room 1 (slots s) \<and> volume vb (fs_block_size s) V sbno sbi \<and>
      gdt_synced (fs_block_size s) V sbno sbi \<and> 0 \<notin> free_blocks V sbno sbi \<and>
      unat (sbf V sbno sb_s_free_blocks_count) = card (free_blocks V sbno sbi) \<and>
      (\<forall>g < ngroups sbi. unat (bg_free_blocks_count (gb_table sbi ! g)) = card (free_in V sbno sbi g)))"

text \<open>The blocks the allocator itself writes.\<close>

definition meta_blocks :: "u32 \<Rightarrow> (u64 \<Rightarrow> blk) \<Rightarrow> u64 \<Rightarrow> sb_info \<Rightarrow> u64 set" where
  "meta_blocks bs V sbno sbi = insert sbno (\<Union>g < ngroups sbi.
     {bitmap_blk sbi g, gdt_blk (sbf V sbno sb_s_first_data_block) bs g})"

lemma finite_free_in [simp]: "finite (free_in V sbno sbi g)"
  by (simp add: free_in_def)

lemma card_free_blocks:
  "card (free_blocks V sbno sbi) = (\<Sum>g < ngroups sbi. card (free_in V sbno sbi g))"
  unfolding free_blocks_def by (rule card_UN_disjoint) (auto dest: free_in_disjoint)

lemma group_write_inv:
  assumes inv: "alloc_inv content ok vb sbno sbi s" and g: "g < ngroups sbi"
    and H: "bg_block_bitmap H = bg_block_bitmap (gb_table sbi ! g)"
    and F: "F = {group_base (view content s) sbno g + j | j. j < group_size (view content s) sbno g \<and> \<not> bitmap_bit bm j}"
    and "0 \<notin> F" and cH: "unat (bg_free_blocks_count H) = card F"
    and v: "unat v + card (free_in (view content s) sbno sbi g) = card (free_blocks (view content s) sbno sbi) + card F"
    and q: "quiet content ok vb (s\<lparr>fs_private := Some (set_group g H sbi)\<rparr>)
      (group_write (fs_block_size s) sbno sbi g H bm v (view content s)) s'"
  shows "alloc_inv content ok vb sbno (set_group g H sbi) s'" (is ?A)
    and "free_blocks (view content s') sbno (set_group g H sbi) =
      (free_blocks (view content s) sbno sbi - free_in (view content s) sbno sbi g) \<union> F" (is ?B)
    and "x \<notin> meta_blocks (fs_block_size s) (view content s) sbno sbi \<Longrightarrow> view content s' x = view content s x"
proof -
  let ?V = "view content s" and ?V' = "view content s'" and ?sbi = "set_group g H sbi" and ?bs = "fs_block_size s"
  have vol: "volume vb ?bs ?V sbno sbi" and sync: "gdt_synced ?bs ?V sbno sbi" and m: "mounted s sbi sbno"
    and room: "room 1 (slots s)" and z: "0 \<notin> free_blocks ?V sbno sbi"
    and cnt: "\<And>h. h < ngroups sbi \<Longrightarrow> unat (bg_free_blocks_count (gb_table sbi ! h)) = card (free_in ?V sbno sbi h)"
    using inv by (auto simp: alloc_inv_def Let_def)
  have V': "?V' = group_write ?bs sbno sbi g H bm v ?V"
    using quietD(2) [OF q] .
  note eff = group_write_effect [OF vol g H, where bm = bm and v = v, folded V']
  have size: "group_size ?V sbno g \<le> 8 * BLKSZ"
    using vol by (auto simp: volume_def group_size_def)
  have same: "free_in ?V' sbno ?sbi h = free_in ?V sbno sbi h" if "h < ngroups sbi" "h \<noteq> g" for h
    using eff(3) [OF that] H by (intro free_in_cong eff(5,6)) simp
  have here: "free_in ?V' sbno ?sbi g = F"
  proof -
    have "bitmap_bit (nb bm) j = bitmap_bit bm j" if "j < group_size ?V sbno g" for j
      using that size by (intro bitmap_bit_nb) linarith
    then show ?thesis
      unfolding free_in_def F eff(5,6) using H eff(2) by auto
  qed
  have free': "free_blocks ?V' sbno ?sbi = (\<Union>h < ngroups sbi. if h = g then F else free_in ?V sbno sbi h)"
    using same here by (auto simp: free_blocks_def split: if_splits)
  have "free_blocks ?V sbno sbi - free_in ?V sbno sbi g = (\<Union>h \<in> {..<ngroups sbi} - {g}. free_in ?V sbno sbi h)"
    using g by (auto simp: free_blocks_def dest: free_in_disjoint)
  then show B: ?B
    using g unfolding free' by (auto split: if_splits)
  have "(\<Sum>h < ngroups sbi. card (free_in ?V' sbno ?sbi h)) + card (free_in ?V sbno sbi g) =
      (\<Sum>h < ngroups sbi. card (free_in ?V sbno sbi h)) + card F"
    using g same here by (simp add: sum.remove [of "{..<ngroups sbi}" g])
  then have cs: "unat v = card (free_blocks ?V' sbno ?sbi)"
    using v unfolding card_free_blocks set_group_simps(1) by linarith
  have c': "unat (bg_free_blocks_count (gb_table ?sbi ! h)) = card (free_in ?V' sbno ?sbi h)" if "h < ngroups sbi" for h
    using that cnt [OF that] cH same [OF that] here g by (cases "h = g") simp_all
  have bs': "fs_block_size s' = ?bs"
    using fs_more(2) [OF quietD(4) [OF q]] by simp
  have m': "mounted s' ?sbi sbno"
    by (rule mounted_quiet [OF q]) (use m in \<open>simp add: mounted_def\<close>)
  show ?A
    unfolding alloc_inv_def Let_def bs'
  proof (intro conjI allI impI)
    show "room 1 (slots s')"
      using room quiet_room [OF q] by simp
    show "0 \<notin> free_blocks ?V' sbno ?sbi"
      using z \<open>0 \<notin> F\<close> B by auto
  qed (use quietD(1) [OF q] m' eff(1) eff(7) [OF sync] cs c' in \<open>simp_all add: eff(4)\<close>)
  show "?V' x = ?V x" if "x \<notin> meta_blocks ?bs ?V sbno sbi"
    using eff(8) [of x] that g by (auto simp: meta_blocks_def)
qed

lemma took_block_result:
  assumes inv: "alloc_inv content ok vb sbno sbi s" and took: "took_block content ok vb sbno sbi s g no s'"
  shows "unat no \<in> free_blocks (view content s) sbno sbi \<and>
    (\<exists>sbi'. alloc_inv content ok vb sbno sbi' s' \<and>
      free_blocks (view content s') sbno sbi' = free_blocks (view content s) sbno sbi - {unat no} \<and>
      meta_blocks (fs_block_size s) (view content s') sbno sbi' = meta_blocks (fs_block_size s) (view content s) sbno sbi \<and>
      same_layout sbi' sbi) \<and>
    (\<forall>x. x \<notin> meta_blocks (fs_block_size s) (view content s) sbno sbi \<longrightarrow> view content s' x = view content s x) \<and>
    calm (slots s) (slots s') \<and> (\<exists>x. bc_state.more s' = bc_state.more (s\<lparr>fs_private := x\<rparr>))"
proof -
  let ?V = "view content s" and ?G = "gb_table sbi ! g"
  let ?H = "?G\<lparr>bg_free_blocks_count := bg_free_blocks_count ?G - 1\<rparr>" and ?F = "free_in ?V sbno sbi g"
  obtain i bm where g: "g < ngroups sbi" and nz: "bg_free_blocks_count ?G \<noteq> 0" and i: "i < group_size ?V sbno g"
      "unat no = group_base ?V sbno g + i" "\<not> bitmap_bit (?V (bitmap_blk sbi g)) i"
      "\<forall>j < group_size ?V sbno g. bitmap_bit bm j \<longleftrightarrow> j = i \<or> bitmap_bit (?V (bitmap_blk sbi g)) j"
      and q: "quiet content ok vb (s\<lparr>fs_private := Some (set_group g ?H sbi)\<rparr>)
        (group_write (fs_block_size s) sbno sbi g ?H bm (sbf ?V sbno sb_s_free_blocks_count - 1) ?V) s'"
    using took by (auto simp: took_block_def Let_def)
  have x: "unat no \<in> ?F"
    using i by (auto simp: free_in_def)
  have F: "?F - {unat no} = {group_base ?V sbno g + j | j. j < group_size ?V sbno g \<and> \<not> bitmap_bit bm j}"
    using i(2,4) by (auto simp: free_in_def)
  have sub: "?F \<subseteq> free_blocks ?V sbno sbi"
    using g by (auto simp: free_blocks_def)
  have c: "unat (bg_free_blocks_count ?G) = card ?F" "unat (sbf ?V sbno sb_s_free_blocks_count) = card (free_blocks ?V sbno sbi)"
    and z: "0 \<notin> free_blocks ?V sbno sbi"
    using inv g by (auto simp: alloc_inv_def Let_def)
  have fin: "finite (free_blocks ?V sbno sbi)"
    by (simp add: free_blocks_def)
  have pos: "0 < card ?F" "card ?F \<le> card (free_blocks ?V sbno sbi)"
    using x sub fin by (auto simp: card_gt_0_iff intro: card_mono)
  have cd: "card (?F - {unat no}) = card ?F - 1"
    using x by simp
  have dec16: "unat (w - 1 :: u16) = unat w - 1" if "0 < unat w" for w
    using that by (simp add: unat_minus_one word_neq_0_conv [symmetric] unat_gt_0)
  have dec32: "unat (w - 1 :: u32) = unat w - 1" if "0 < unat w" for w
    using that by (simp add: unat_minus_one word_neq_0_conv [symmetric] unat_gt_0)
  have H: "bg_block_bitmap ?H = bg_block_bitmap ?G" "unat (bg_free_blocks_count ?H) = card (?F - {unat no})"
    using dec16 [of "bg_free_blocks_count ?G"] pos cd c(1) by simp_all
  have v: "unat (sbf ?V sbno sb_s_free_blocks_count - 1) + card ?F = card (free_blocks ?V sbno sbi) + card (?F - {unat no})"
    using dec32 [of "sbf ?V sbno sb_s_free_blocks_count"] pos cd c(2) by simp
  have "0 \<notin> ?F - {unat no}"
    using z sub by blast
  note r = group_write_inv [OF inv g H(1) F this H(2) v q]
  have "free_blocks ?V sbno sbi - ?F \<union> (?F - {unat no}) = free_blocks ?V sbno sbi - {unat no}"
    using sub x by blast
  moreover have "meta_blocks (fs_block_size s) (view content s') sbno (set_group g ?H sbi) =
      meta_blocks (fs_block_size s) ?V sbno sbi"
  proof -
    have vol: "volume vb (fs_block_size s) ?V sbno sbi"
      using inv by (simp add: alloc_inv_def Let_def)
    have "group_base (view content s') sbno 0 = group_base ?V sbno 0"
      unfolding quietD(2) [OF q] group_write_effect(5) [OF vol g H(1)] ..
    then have "sbf (view content s') sbno sb_s_first_data_block = sbf ?V sbno sb_s_first_data_block"
      by (intro word_eq_unatI) (simp add: group_base_def)
    then show ?thesis
      using H(1) by (simp add: meta_blocks_def)
  qed
  moreover have "calm (slots s) (slots s')" "bc_state.more s' = bc_state.more (s\<lparr>fs_private := Some (set_group g ?H sbi)\<rparr>)"
    using quietD(3,4) [OF q] by simp_all
  moreover have "same_layout (set_group g ?H sbi) sbi"
    by (rule same_layout_set_group) simp
  ultimately show ?thesis
    using x sub r by auto
qed

text \<open>The group and the bit of a block number.\<close>

lemma block_group:
  assumes vol: "volume vb bs V sbno sbi"
    and "sbf V sbno sb_s_first_data_block \<le> no" and "unat no < unat (sbf V sbno sb_s_blocks_count)"
  defines "rel \<equiv> no - sbf V sbno sb_s_first_data_block" and "bpg \<equiv> sbf V sbno sb_s_blocks_per_group"
  shows "rel div bpg < group_count sbi" "unat (rel div bpg) < ngroups sbi"
    "unat (rel mod bpg) < group_size V sbno (unat (rel div bpg))"
    "unat no = group_base V sbno (unat (rel div bpg)) + unat (rel mod bpg)"
    "unat (rel mod bpg) < 8 * BLKSZ"
proof -
  let ?f = "unat (sbf V sbno sb_s_first_data_block)"
  have p: "0 < unat bpg" "unat bpg \<le> 8 * BLKSZ" "ngroups sbi < 4294967296" "group_count sbi = of_nat (ngroups sbi)"
    and b: "unat (sbf V sbno sb_s_blocks_count) \<le> ?f + ngroups sbi * unat bpg"
    using vol by (auto simp: volume_def bpg_def group_base_def)
  have rel: "unat rel = unat no - ?f" "?f \<le> unat no"
    using assms(2) by (simp_all add: rel_def unat_sub_if' word_le_nat_alt)
  have dm: "unat no = ?f + (unat rel div unat bpg * unat bpg + unat rel mod unat bpg)"
    using rel by simp
  have "unat rel < ngroups sbi * unat bpg"
    using assms(3) b rel by linarith
  then show g: "unat (rel div bpg) < ngroups sbi"
    by (simp add: unat_div less_mult_imp_div_less)
  then show "rel div bpg < group_count sbi"
    using p(3,4) by (simp add: word_less_nat_alt)
  show no: "unat no = group_base V sbno (unat (rel div bpg)) + unat (rel mod bpg)"
    using dm by (simp add: group_base_def unat_div unat_mod bpg_def [symmetric])
  have m: "unat (rel mod bpg) < unat bpg"
    using p(1) by (simp add: unat_mod)
  then show "unat (rel mod bpg) < group_size V sbno (unat (rel div bpg))"
    using no assms(3) by (simp add: group_size_def bpg_def [symmetric])
  show "unat (rel mod bpg) < 8 * BLKSZ"
    using m p(2) by simp
qed

lemma free_blocks_below:
  assumes "volume vb bs V sbno sbi"
  shows "free_blocks V sbno sbi \<subseteq> {..<unat (sbf V sbno sb_s_blocks_count)}"
  by (auto simp: free_blocks_def free_in_def group_size_def)

lemma alloc_block_run:
  assumes "block_device D content ok vb" and "alloc_inv content ok vb sbno sbi s"
  shows "\<exists>no s' sbi'. ext2_alloc_block D s = Inr (no, s') \<and> alloc_inv content ok vb sbno sbi' s' \<and>
    (no = 0 \<longleftrightarrow> free_blocks (view content s) sbno sbi = {}) \<and>
    (no \<noteq> 0 \<longrightarrow> unat no \<in> free_blocks (view content s) sbno sbi) \<and>
    free_blocks (view content s') sbno sbi' = free_blocks (view content s) sbno sbi - {unat no} \<and>
    (\<forall>x. x \<notin> meta_blocks (fs_block_size s) (view content s) sbno sbi \<longrightarrow> view content s' x = view content s x) \<and>
    meta_blocks (fs_block_size s) (view content s') sbno sbi' = meta_blocks (fs_block_size s) (view content s) sbno sbi \<and>
    same_layout sbi' sbi \<and> calm (slots s) (slots s') \<and> (\<exists>x. bc_state.more s' = bc_state.more (s\<lparr>fs_private := x\<rparr>))"
proof -
  let ?V = "view content s"
  have s: "bc_inv content ok vb s" "mounted s sbi sbno" "room 1 (slots s)" "volume vb (fs_block_size s) ?V sbno sbi"
    and z: "0 \<notin> free_blocks ?V sbno sbi"
    and c: "\<And>g. g < ngroups sbi \<Longrightarrow> unat (bg_free_blocks_count (gb_table sbi ! g)) = card (free_in ?V sbno sbi g)"
    using assms(2) by (auto simp: alloc_inv_def Let_def)
  have "ngroups sbi < 4294967296" "group_count sbi = of_nat (ngroups sbi)"
    using s(4) by (auto simp: volume_def)
  then have run: "ext2_alloc_block D s = ext2_alloc_block_loop D (ngroups sbi) (of_nat 0) s"
    using s(2) by (simp add: ext2_alloc_block_def bindK_run get_sbi_def needK_run mounted_def)
  obtain no s' where r: "ext2_alloc_block_loop D (ngroups sbi) (of_nat 0) s = Inr (no, s')"
      "(\<exists>h. took_block content ok vb sbno sbi s h no s') \<or>
       no = 0 \<and> quiet content ok vb s ?V s' \<and> (\<forall>h. 0 \<le> h \<and> h < ngroups sbi \<longrightarrow>
         bg_free_blocks_count (gb_table sbi ! h) = 0 \<or> free_in ?V sbno sbi h = {})"
    using block_device.alloc_block_loop_run [OF assms(1) s, of 0 "ngroups sbi"] by auto
  from r(2) show ?thesis
  proof
    assume "\<exists>h. took_block content ok vb sbno sbi s h no s'"
    then show ?thesis
      using took_block_result [OF assms(2)] z r(1) run by fastforce
  next
    assume h: "no = 0 \<and> quiet content ok vb s ?V s' \<and> (\<forall>h. 0 \<le> h \<and> h < ngroups sbi \<longrightarrow>
      bg_free_blocks_count (gb_table sbi ! h) = 0 \<or> free_in ?V sbno sbi h = {})"
    have "free_in ?V sbno sbi g = {}" if "g < ngroups sbi" for g
    proof (cases "bg_free_blocks_count (gb_table sbi ! g) = 0")
      case True
      then have "card (free_in ?V sbno sbi g) = 0"
        using c [OF that] by simp
      then show ?thesis
        by simp
    qed (use h that in auto)
    then have e: "free_blocks ?V sbno sbi = {}"
      by (simp add: free_blocks_def)
    have q: "quiet content ok vb s ?V s'"
      using h by blast
    have "alloc_inv content ok vb sbno sbi s'"
      using assms(2) quietD [OF q] quiet_room [OF q] mounted_quiet [OF q] fs_more(2) [of s' s]
      by (simp add: alloc_inv_def Let_def)
    moreover have "bc_state.more s' = bc_state.more (s\<lparr>fs_private := fs_private s\<rparr>)"
      using quietD(4) [OF q] by (cases s) simp
    ultimately show ?thesis
      using e h r(1) run quietD(2,3) [OF q] 
      by (intro exI [of _ no] exI [of _ s'] exI [of _ sbi] exI [of _ "fs_private s"] conjI) simp_all
  qed
qed

text \<open>The invariant does not depend on the other blocks.\<close>

lemma alloc_inv_same:
  assumes inv: "alloc_inv content ok vb sbno sbi s" and "bc_inv content ok vb s'" and "mounted s' sbi sbno"
    and "room 1 (slots s')" and bs: "fs_block_size s' = fs_block_size s"
    and same: "\<And>x. x \<in> meta_blocks (fs_block_size s) (view content s) sbno sbi \<Longrightarrow> view content s' x = view content s x"
  shows "alloc_inv content ok vb sbno sbi s'"
    "free_blocks (view content s') sbno sbi = free_blocks (view content s) sbno sbi"
    "meta_blocks (fs_block_size s') (view content s') sbno sbi = meta_blocks (fs_block_size s) (view content s) sbno sbi"
proof -
  let ?V = "view content s" and ?W = "view content s'"
  have sb: "?W sbno = ?V sbno"
    by (rule same) (simp add: meta_blocks_def)
  have base: "group_base ?W sbno = group_base ?V sbno" and size: "group_size ?W sbno = group_size ?V sbno"
    by (simp_all add: fun_eq_iff group_base_def group_size_def sb)
  have bm: "?W (bitmap_blk sbi g) = ?V (bitmap_blk sbi g)"
    and gd: "?W (gdt_blk (sbf ?V sbno sb_s_first_data_block) (fs_block_size s) g) =
      ?V (gdt_blk (sbf ?V sbno sb_s_first_data_block) (fs_block_size s) g)" if "g < ngroups sbi" for g
    using that by (intro same; auto simp: meta_blocks_def)+
  have fi: "free_in ?W sbno sbi g = free_in ?V sbno sbi g" if "g < ngroups sbi" for g
    by (rule free_in_cong [OF base size bm [OF that]])
  then show fb: "free_blocks ?W sbno sbi = free_blocks ?V sbno sbi"
    by (simp add: free_blocks_def)
  show "meta_blocks (fs_block_size s') ?W sbno sbi = meta_blocks (fs_block_size s) ?V sbno sbi"
    by (simp add: meta_blocks_def sb bs)
  have "volume vb (fs_block_size s) ?W sbno sbi = volume vb (fs_block_size s) ?V sbno sbi"
    by (simp add: volume_def base sb)
  moreover have "gdt_synced (fs_block_size s) ?W sbno sbi = gdt_synced (fs_block_size s) ?V sbno sbi"
    by (simp add: gdt_synced_def sb gd)
  ultimately show "alloc_inv content ok vb sbno sbi s'"
    using inv assms(2-4) by (simp add: alloc_inv_def Let_def bs fb fi sb)
qed

section \<open>Properties\<close>

text \<open>
  C7: block allocation refines removal from a finite set. On a well-formed volume
  \<open>ext2_alloc_block\<close> always returns; it returns 0 exactly when no block is free, and otherwise
  a block that was free and is no longer, while every other block stays as free as it was. The
  bitmaps, the descriptors in memory and on disk and both free counts still agree, and no block
  but the superblock, the bitmaps and the descriptor table has changed.
\<close>

theorem ext2_alloc_block_correct:
  assumes "block_device D content ok vb" and "alloc_inv content ok vb sbno sbi s"
  shows "\<exists>no s' sbi'. ext2_alloc_block D s = Inr (no, s') \<and> alloc_inv content ok vb sbno sbi' s' \<and>
    (no = 0 \<longleftrightarrow> free_blocks (view content s) sbno sbi = {}) \<and>
    (no \<noteq> 0 \<longrightarrow> unat no \<in> free_blocks (view content s) sbno sbi) \<and>
    free_blocks (view content s') sbno sbi' = free_blocks (view content s) sbno sbi - {unat no} \<and>
    (\<forall>x. x \<notin> meta_blocks (fs_block_size s) (view content s) sbno sbi \<longrightarrow> view content s' x = view content s x)"
  using alloc_block_run [OF assms] by (elim exE conjE) (intro exI conjI; assumption)

text \<open>
  C8: releasing a block refines insertion into the set of free blocks: for a block of the volume
  that is in use, \<open>ext2_free_block\<close> makes exactly that block free and keeps the invariant, so
  that it undoes the allocation of the block.
\<close>

theorem ext2_free_block_correct:
  assumes D: "block_device D content ok vb" and inv: "alloc_inv content ok vb sbno sbi s"
    and no: "no \<noteq> 0" "sbf (view content s) sbno sb_s_first_data_block \<le> no"
      "no < sbf (view content s) sbno sb_s_blocks_count"
    and used: "unat no \<notin> free_blocks (view content s) sbno sbi"
  shows "\<exists>s' sbi'. ext2_free_block D no s = Inr ((), s') \<and> alloc_inv content ok vb sbno sbi' s' \<and>
    free_blocks (view content s') sbno sbi' = insert (unat no) (free_blocks (view content s) sbno sbi) \<and>
    (\<forall>x. x \<notin> meta_blocks (fs_block_size s) (view content s) sbno sbi \<longrightarrow> view content s' x = view content s x)"
proof -
  let ?V = "view content s"
  let ?rel = "no - sbf ?V sbno sb_s_first_data_block" and ?bpg = "sbf ?V sbno sb_s_blocks_per_group"
  let ?g = "unat (?rel div ?bpg)" and ?i = "unat (?rel mod ?bpg)"
  let ?G = "gb_table sbi ! ?g" and ?F = "free_in ?V sbno sbi ?g" and ?b = "bitmap_blk sbi ?g"
  let ?H = "?G\<lparr>bg_free_blocks_count := bg_free_blocks_count ?G + 1\<rparr>"
  have s: "bc_inv content ok vb s" "mounted s sbi sbno" "room (Suc 0) (slots s)" "volume vb (fs_block_size s) ?V sbno sbi"
    and z: "0 \<notin> free_blocks ?V sbno sbi"
    and c: "unat (sbf ?V sbno sb_s_free_blocks_count) = card (free_blocks ?V sbno sbi)"
      "\<And>g. g < ngroups sbi \<Longrightarrow> unat (bg_free_blocks_count (gb_table sbi ! g)) = card (free_in ?V sbno sbi g)"
    using inv by (auto simp: alloc_inv_def Let_def)
  note bg = block_group [OF s(4) no(2) no(3) [unfolded word_less_nat_alt]]
  have bpg: "?bpg \<noteq> 0" and vb: "vb ?b" and n32: "ngroups sbi < 4294967296"
    using s(4) bg(2) by (auto simp: volume_def)
  obtain c1 s1 where s1: "bread D ?b s = Inr (c1, s1)" "bc_inv content ok vb s1" "view content s1 = ?V"
      "pin c1 (slots s) (slots s1)" "bvalid (slots s1 ! c1)" "blk_no (slots s1 ! c1) = ?b"
      "nb (bdata (slots s1 ! c1)) = ?V ?b" "bc_state.more s1 = bc_state.more s"
    using block_device.bread_pin [OF D s(1) vb s(3)] by metis
  let ?d = "bdata (slots s1 ! c1)" and ?y = "?i div 8" and ?k = "?i mod 8"
  let ?bm = "bit_clear ?y ?k ?d"
  have off: "1044 + 4 \<le> BLKSZ" "1056 + 4 \<le> BLKSZ"
    by (simp_all add: BLKSZ_def)
  note gets = off [THEN block_device.sb_get_run [OF D s(1,2)]]
  have sbi: "get_sbi s = Inr (sbi, s)"
    using s(2) by (simp add: get_sbi_def needK_run mounted_def)
  have ret: "sb_put i v sbi = thenK (sb_put i v sbi) (retK ())" for i v
    by (auto simp: thenK_run fun_eq_iff bindR_def split: sum.splits)
  have H: "bg_block_bitmap ?H = bg_block_bitmap ?G"
    by simp
  obtain s' where s': "thenK (bput c1 ?bm) (thenK (bwrite c1) (thenK (brelse c1) (thenK (put_gdesc ?g ?H)
      (thenK (gdt_writeback D (of_nat ?g)) (bindK (sb_get sb_s_free_blocks_count sbi) (\<lambda>free.
        thenK (sb_put sb_s_free_blocks_count (free + 1) sbi) (retK ()))))))) s1 = retK () s'"
    and q: "quiet content ok vb (s\<lparr>fs_private := Some (set_group ?g ?H sbi)\<rparr>)
      (group_write (fs_block_size s) sbno sbi ?g ?H ?bm (sbf ?V sbno sb_s_free_blocks_count + 1) ?V) s'"
    using block_device.group_commit [OF D s(2) _ bg(2) s(4) H s1(2-6,8), where h = "\<lambda>x. x + 1"] s(3)
    by (metis One_nat_def)
  have words: "unat (?rel mod ?bpg div 8) = ?y" "unat (?rel mod ?bpg mod 8) = ?k" "?y < BLKSZ"
    using bg(5) by (simp_all add: unat_div unat_mod less_mult_imp_div_less mult.commute)
  have run: "ext2_free_block D no s = Inr ((), s')"
    using sbi no(1,2) bpg bg(1,2) gets s1(1) words s'
    by (simp add: ext2_free_block_def bindK_run assertK_run ngroups_def bitmap_blk_def [symmetric] bget_def Let_def
        not_less not_le ret [symmetric])
  have size: "group_size ?V sbno ?g \<le> 8 * BLKSZ" "8 * BLKSZ < 65536"
    using s(4) by (auto simp: volume_def group_size_def BLKSZ_def)
  have bits: "bitmap_bit ?bm j \<longleftrightarrow> j \<noteq> ?i \<and> bitmap_bit (?V ?b) j" if "j < group_size ?V sbno ?g" for j
    using that size(1) unfolding s1(7) [symmetric] by (simp add: bitmap_bit_clear bitmap_bit_nb)
  have F: "insert (unat no) ?F =
      {group_base ?V sbno ?g + j | j. j < group_size ?V sbno ?g \<and> \<not> bitmap_bit ?bm j}"
    using bits bg(3,4) by (auto simp: free_in_def)
  have sub: "?F \<subseteq> free_blocks ?V sbno sbi"
    using bg(2) by (auto simp: free_blocks_def)
  have cF: "card (insert (unat no) ?F) = Suc (card ?F)"
    using sub used by (intro card_insert_disjoint) auto
  have "insert (unat no) ?F \<subseteq> (+) (group_base ?V sbno ?g) ` {..<group_size ?V sbno ?g}"
    using bg(3,4) by (auto simp: free_in_def)
  then have "card (insert (unat no) ?F) \<le> card ((+) (group_base ?V sbno ?g) ` {..<group_size ?V sbno ?g})"
    by (rule card_mono [rotated]) simp
  then have "card (insert (unat no) ?F) \<le> group_size ?V sbno ?g"
    by (simp add: card_image)
  then have u16: "unat (bg_free_blocks_count ?H) = card (insert (unat no) ?F)"
    using c(2) [OF bg(2)] cF size by (simp add: unat_word_ariths)
  have "insert (unat no) (free_blocks ?V sbno sbi) \<subseteq> {..<unat (sbf ?V sbno sb_s_blocks_count)}"
    using free_blocks_below [OF s(4)] no(3) by (simp add: word_less_nat_alt)
  then have "card (insert (unat no) (free_blocks ?V sbno sbi)) \<le> unat (sbf ?V sbno sb_s_blocks_count)"
    using card_mono [OF finite_lessThan] by fastforce
  moreover have "card (insert (unat no) (free_blocks ?V sbno sbi)) = Suc (card (free_blocks ?V sbno sbi))"
    using used by (intro card_insert_disjoint) (simp_all add: free_blocks_def)
  ultimately have "Suc (card (free_blocks ?V sbno sbi)) < 4294967296"
    using unat_lt_pow32 [of "sbf ?V sbno sb_s_blocks_count"] by linarith
  then have u32: "unat (sbf ?V sbno sb_s_free_blocks_count + 1) = Suc (card (free_blocks ?V sbno sbi))"
    using c(1) by (simp add: unat_word_ariths)
  have z': "0 \<notin> insert (unat no) ?F"
    using z sub no(1) by (auto simp: unat_eq_0)
  note r = group_write_inv [OF inv bg(2) H F z' u16 _ q]
  have v: "unat (sbf ?V sbno sb_s_free_blocks_count + 1) + card ?F = card (free_blocks ?V sbno sbi) + card (insert (unat no) ?F)"
    using u32 cF by simp
  have "free_blocks ?V sbno sbi - ?F \<union> insert (unat no) ?F = insert (unat no) (free_blocks ?V sbno sbi)"
    using sub by blast
  then show ?thesis
    using run r [OF v] by auto
qed

section \<open>A small volume\<close>

text \<open>A disk in memory, and on it a volume of 16 blocks in one group, of which 5 and 6 are free.\<close>

definition ram_disk :: "(u64 \<Rightarrow> blk) blkdev" where
  "ram_disk = \<lparr>dev_read = (\<lambda>no d. Inr (nb (d no), d)), dev_write = (\<lambda>no b d. Inr (d(no := nb b)))\<rparr>"

abbreviation ram_content :: "(u64 \<Rightarrow> blk) \<Rightarrow> u64 \<Rightarrow> blk" where
  "ram_content \<equiv> \<lambda>d no. nb (d no)"

lemma ram_disk: "block_device ram_disk ram_content (\<lambda>_. True) (\<lambda>_. True)"
  by unfold_locales (auto simp: ram_disk_def)

definition small_desc :: bg_desc where
  "small_desc = \<lparr>bg_block_bitmap = 2, bg_inode_bitmap = 3, bg_inode_table = 4, bg_free_blocks_count = 2,
     bg_free_inodes_count = 0, bg_used_dirs_count = 1, bg_pad = 0, bg_reserved = (0, 0, 0)\<rparr>"

definition small_sb :: blk where
  "small_sb = wr32 sb_s_blocks_count 16 (wr32 sb_s_free_blocks_count 2 (wr32 sb_s_blocks_per_group 32768 (\<lambda>_. 0)))"

definition small_disk :: "u64 \<Rightarrow> blk" where
  "small_disk = (\<lambda>_ _. 0)(0 := small_sb, 1 := bg_store small_desc 0 (\<lambda>_. 0), 2 := (\<lambda>_. 0)(0 := 0x9F, 1 := 0xFF))"

definition small_sbi :: sb_info where
  "small_sbi = \<lparr>gb_table = [small_desc], group_count = 1, inode_size = 128, inode_per_group = 32, sb_buf = 0\<rparr>"

definition small_fs :: "(u64 \<Rightarrow> blk) fs_state" where
  "small_fs = \<lparr>dst = small_disk,
     slots = \<lparr>blk_no = 0, bvalid = True, bdirty = False, brefcnt = 1, bdata = nb small_sb\<rparr> #
       replicate 63 \<lparr>blk_no = 0, bvalid = False, bdirty = False, brefcnt = 0, bdata = (\<lambda>_. 0)\<rparr>,
     kmem = \<lparr>ram = \<lambda>_. 0, memlist = 0, ekernel = 0, kcaches = []\<rparr>, fs_block_size = 4096, fs_blocks_count = 16,
     fs_root = 0, fs_private = Some small_sbi, fs_inode_cache = [], fs_icache_size = 0, inodes = Map.empty,
     infos = Map.empty, files = Map.empty, ftable_head = [], ftable_count = 0, file_cache = 0\<rparr>"

lemma small_slots: "i < 64 \<Longrightarrow> slots small_fs ! i = (if i = 0
    then \<lparr>blk_no = 0, bvalid = True, bdirty = False, brefcnt = 1, bdata = nb small_sb\<rparr>
    else \<lparr>blk_no = 0, bvalid = False, bdirty = False, brefcnt = 0, bdata = (\<lambda>_. 0)\<rparr>)"
  by (cases i) (simp_all add: small_fs_def)

lemma small_view: "view ram_content small_fs = (\<lambda>no. nb (small_disk no))"
proof
  fix no
  have "slot_of (slots small_fs) no = (if no = 0 then Some 0 else None)"
    by (simp add: slot_of_def find_upt_Some find_upt_None small_slots NBLKNUM_def)
  then show "view ram_content small_fs no = nb (small_disk no)"
    by (simp add: view_def small_slots) (simp add: small_disk_def small_fs_def)
qed

lemma small_inv: "bc_inv ram_content (\<lambda>_. True) (\<lambda>_. True) small_fs"
  by (auto simp: bc_inv_def slots_inv_def small_slots NBLKNUM_def split: if_splits)
    (simp_all add: small_fs_def small_disk_def)

lemma small_fields:
  "sbf (view ram_content small_fs) 0 sb_s_first_data_block = 0"
  "sbf (view ram_content small_fs) 0 sb_s_blocks_count = 16"
  "sbf (view ram_content small_fs) 0 sb_s_blocks_per_group = 32768"
  "sbf (view ram_content small_fs) 0 sb_s_free_blocks_count = 2"
  by (simp_all add: small_view small_disk_def small_sb_def BLKSZ_def rd_wr) (simp add: rd32_def)

lemma small_group [simp]:
  "ngroups small_sbi = 1" "group_base (view ram_content small_fs) 0 0 = 0"
  "group_size (view ram_content small_fs) 0 0 = 16" "bitmap_blk small_sbi 0 = 2"
  "gdt_blk 0 4096 0 = 1" "gdt_off 4096 0 = 0"
  by (simp_all add: ngroups_def small_sbi_def group_base_def group_size_def small_fields bitmap_blk_def small_desc_def
      gdt_blk_def gdt_off_def)

lemma small_free: "free_in (view ram_content small_fs) 0 small_sbi 0 = {5, 6}"
  "free_blocks (view ram_content small_fs) 0 small_sbi = {5, 6}"
proof -
  have "bitmap_bit (small_disk 2) i \<longleftrightarrow> i \<noteq> 5 \<and> i \<noteq> 6" if "i < 16" for i
  proof -
    have "\<forall>i \<in> set [0..<16]. bitmap_bit (small_disk 2) i \<longleftrightarrow> i \<noteq> 5 \<and> i \<noteq> 6"
      by (simp add: upt_rec bitmap_bit_def small_disk_def bit_numeral_rec)
    then show ?thesis
      using that by simp
  qed
  then have "bitmap_bit (view ram_content small_fs 2) i \<longleftrightarrow> i \<noteq> 5 \<and> i \<noteq> 6" if "i < 16" for i
    using that by (simp add: small_view bitmap_bit_nb BLKSZ_def)
  then show free: "free_in (view ram_content small_fs) 0 small_sbi 0 = {5, 6}"
    unfolding free_in_def small_group by auto
  show "free_blocks (view ram_content small_fs) 0 small_sbi = {5, 6}"
    using free by (simp add: free_blocks_def lessThan_Suc)
qed

lemma small_alloc_inv: "alloc_inv ram_content (\<lambda>_. True) (\<lambda>_. True) 0 small_sbi small_fs"
proof -
  have bs: "fs_block_size small_fs = 4096" and p: "fs_private small_fs = Some small_sbi"
    by (simp_all add: small_fs_def)
  have "mounted small_fs small_sbi 0"
    using p small_slots [of 0] by (simp add: mounted_def small_sbi_def NBLKNUM_def)
  moreover have "room 1 (slots small_fs)"
  proof -
    have "1 \<in> {i. i < NBLKNUM \<and> brefcnt (slots small_fs ! i) = 0}"
      using small_slots [of 1] by (simp add: NBLKNUM_def)
    then have "0 < card {i. i < NBLKNUM \<and> brefcnt (slots small_fs ! i) = 0}"
      by (auto simp: card_gt_0_iff)
    moreover have "unat (brefcnt (slots small_fs ! i)) + 1 < 2147483648" if "i < NBLKNUM" for i
      using small_slots [of i] that by (simp add: NBLKNUM_def)
    ultimately show ?thesis
      by (simp add: room_def)
  qed
  moreover have "volume (\<lambda>_. True) 4096 (view ram_content small_fs) 0 small_sbi"
    by (simp add: volume_def small_fields group_base_def BLKSZ_def) (simp add: small_sbi_def)
  moreover have "gdt_synced 4096 (view ram_content small_fs) 0 small_sbi"
    unfolding gdt_synced_def small_fields small_group by (simp add: small_view bg_load_nb BLKSZ_def)
      (simp add: small_disk_def bg_load_store small_sbi_def)
  ultimately show ?thesis
    using small_inv by (simp add: alloc_inv_def Let_def small_free small_fields bs) (simp add: small_sbi_def small_desc_def)
qed

lemma ext2_alloc_block_correct_witness:
  "\<exists>no s' sbi'. ext2_alloc_block ram_disk small_fs = Inr (no, s') \<and> unat no \<in> {5, 6} \<and>
    free_blocks (view ram_content s') 0 sbi' = {5, 6} - {unat no}"
  using ext2_alloc_block_correct [OF ram_disk small_alloc_inv] unfolding small_free by auto

lemma ext2_free_block_correct_witness:
  "\<exists>s' sbi'. ext2_free_block ram_disk 9 small_fs = Inr ((), s') \<and> free_blocks (view ram_content s') 0 sbi' = {5, 6, 9}"
proof -
  have "\<exists>s' sbi'. ext2_free_block ram_disk 9 small_fs = Inr ((), s') \<and>
      alloc_inv ram_content (\<lambda>_. True) (\<lambda>_. True) 0 sbi' s' \<and>
      free_blocks (view ram_content s') 0 sbi' = insert (unat (9 :: u32)) (free_blocks (view ram_content small_fs) 0 small_sbi) \<and>
      (\<forall>x. x \<notin> meta_blocks (fs_block_size small_fs) (view ram_content small_fs) 0 small_sbi \<longrightarrow>
        view ram_content s' x = view ram_content small_fs x)"
    by (rule ext2_free_block_correct [OF ram_disk small_alloc_inv]) (simp_all add: small_fields small_free)
  then show ?thesis
    by (auto simp: small_free insert_commute)
qed

end
