(* ===== verification/FileMap.thy ===== *)
theory FileMap
  imports FreeMap Dir
begin

text \<open>
  The blocks of an ext2 file (\<open>fs/ext2/dir.c\<close>): the tree of direct, indirect and double
  indirect pointers as a finite map from positions in the tree to blocks. Reading a block of a
  file looks the map up, writing one extends it where there was a hole.
\<close>

section \<open>Positions in the pointer tree\<close>

text \<open>\<open>Top i\<close> is \<open>i_block[i]\<close>, \<open>Child K j\<close> is entry \<open>j\<close> of the index block at \<open>K\<close>.\<close>

datatype bkey = Top nat | Child bkey nat

fun blkref :: "(u64 \<Rightarrow> blk) \<Rightarrow> u32 list \<Rightarrow> bkey \<Rightarrow> u32" where
  "blkref V ib (Top i) = ib ! i"
| "blkref V ib (Child K j) =
     (if blkref V ib K = 0 then 0 else rd32 (V (ucast (blkref V ib K))) (4 * j))"

text \<open>With \<open>n\<close> pointers in a block: the index blocks of a file, and all its blocks.\<close>

definition index_key :: "nat \<Rightarrow> bkey \<Rightarrow> bool" where
  "index_key n K \<longleftrightarrow> K = Top 12 \<or> K = Top 13 \<or> (\<exists>j < n. K = Child (Top 13) j)"

definition valid_key :: "nat \<Rightarrow> bkey \<Rightarrow> bool" where
  "valid_key n K \<longleftrightarrow> (\<exists>i < 14. K = Top i) \<or> (\<exists>P j. K = Child P j \<and> index_key n P \<and> j < n)"

definition data_key :: "nat \<Rightarrow> nat \<Rightarrow> bkey" where
  "data_key n b =
     (if b < 12 then Top b
      else if b - 12 < n then Child (Top 12) (b - 12)
      else Child (Child (Top 13) ((b - 12 - n) div n)) ((b - 12 - n) mod n))"

definition max_blocks :: "nat \<Rightarrow> nat" where
  "max_blocks n = 12 + n + n * n"

lemma index_valid: "index_key n K \<Longrightarrow> valid_key n K"
  by (auto simp: index_key_def valid_key_def)

lemma valid_Child [simp]: "valid_key n (Child K j) \<longleftrightarrow> index_key n K \<and> j < n"
  by (auto simp: valid_key_def)

lemma valid_Top [simp]: "valid_key n (Top i) \<longleftrightarrow> i < 14"
  by (auto simp: valid_key_def)

lemma index_simps [simp]:
  "index_key n (Top i) \<longleftrightarrow> i = 12 \<or> i = 13" "index_key n (Child (Top i) j) \<longleftrightarrow> i = 13 \<and> j < n"
  "\<not> index_key n (Child (Child K i) j)"
  by (auto simp: index_key_def)

lemma data_key_valid: "b < max_blocks n \<Longrightarrow> valid_key n (data_key n b) \<and> \<not> index_key n (data_key n b)"
proof -
  assume b: "b < max_blocks n"
  have "(b - 12 - n) div n < n" "(b - 12 - n) mod n < n" if "\<not> b < 12" "\<not> b - 12 < n"
  proof -
    have "b - 12 - n < n * n"
      using b that by (simp add: max_blocks_def)
    then show "(b - 12 - n) div n < n"
      by (simp add: less_mult_imp_div_less)
    from \<open>b - 12 - n < n * n\<close> have "0 < n"
      by (cases n) simp_all
    then show "(b - 12 - n) mod n < n"
      by simp
  qed
  then show ?thesis
    by (auto simp: data_key_def)
qed

lemma data_key_inj:
  assumes "a < max_blocks n" and "b < max_blocks n" and "data_key n a = data_key n b"
  shows "a = b"
proof -
  have "a - 12 - n = b - 12 - n" if "\<not> a < 12" "\<not> a - 12 < n" "\<not> b < 12" "\<not> b - 12 < n"
    using assms(3) that by (simp add: data_key_def) (metis div_mult_mod_eq)
  then show ?thesis
    using assms(3) by (auto simp: data_key_def split: if_splits)
qed

text \<open>
  A well-formed file: its blocks are blocks of the device, neither free (\<open>F\<close>) nor metadata
  (\<open>M\<close>), and no block is at two positions.
\<close>

definition file_wf :: "(u64 \<Rightarrow> bool) \<Rightarrow> u64 set \<Rightarrow> nat set \<Rightarrow> nat \<Rightarrow> (u64 \<Rightarrow> blk) \<Rightarrow> u32 list \<Rightarrow> bool" where
  "file_wf vb M F n V ib \<longleftrightarrow> length ib = EXT2_N_BLOCKS \<and>
     (\<forall>K. valid_key n K \<longrightarrow> blkref V ib K \<noteq> 0 \<longrightarrow> vb (ucast (blkref V ib K)) \<and> ucast (blkref V ib K) \<notin> M \<and>
        unat (blkref V ib K) \<notin> F) \<and>
     (\<forall>K L. valid_key n K \<longrightarrow> valid_key n L \<longrightarrow> blkref V ib K \<noteq> 0 \<longrightarrow> blkref V ib K = blkref V ib L \<longrightarrow> K = L)"

lemma file_wfD:
  assumes "file_wf vb M F n V ib" and "valid_key n K" and "blkref V ib K \<noteq> 0"
  shows "vb (ucast (blkref V ib K))" "ucast (blkref V ib K) \<notin> M" "unat (blkref V ib K) \<notin> F"
    and "valid_key n L \<Longrightarrow> blkref V ib L = blkref V ib K \<Longrightarrow> L = K"
  using assms unfolding file_wf_def by metis+

text \<open>A change that keeps the pointers in the index blocks keeps the map.\<close>

lemma blkref_cong:
  assumes "\<And>Q j. index_key n Q \<Longrightarrow> blkref V ib Q \<noteq> 0 \<Longrightarrow> j < n \<Longrightarrow>
      rd32 (V' (ucast (blkref V ib Q))) (4 * j) = rd32 (V (ucast (blkref V ib Q))) (4 * j)"
    and "valid_key n K"
  shows "blkref V' ib K = blkref V ib K"
  using assms(2)
proof (induction K)
  case (Child K j)
  then show ?case
    using assms(1) index_valid [of n K] by simp
qed simp

lemma file_wf_cong:
  assumes "file_wf vb M F n V ib" and "\<And>K. valid_key n K \<Longrightarrow> blkref V' ib K = blkref V ib K" and "F' \<subseteq> F"
  shows "file_wf vb M F' n V' ib"
  using assms unfolding file_wf_def by (metis subsetD)

text \<open>
  The step that fills a hole: position \<open>K\<close> was empty, \<open>no\<close> was free; the pointer to it is put
  into the inode or into the index block above, and if \<open>K\<close> is itself an index block it is
  cleared.
\<close>

lemma blkref_grow:
  assumes wf: "file_wf vb M F n V ib" and K: "valid_key n K" "blkref V ib K = 0"
    and no: "no \<noteq> 0" "unat no \<in> F" "vb (ucast no)" "ucast no \<notin> M"
    and link: "case K of Top i \<Rightarrow> ib' = ib[i := no]
      | Child P j \<Rightarrow> ib' = ib \<and> blkref V ib P \<noteq> 0 \<and>
          (\<forall>i < n. rd32 (V' (ucast (blkref V ib P))) (4 * i) =
            (if i = j then no else rd32 (V (ucast (blkref V ib P))) (4 * i)))"
    and other: "\<And>x. x \<notin> M \<Longrightarrow> x \<noteq> ucast no \<Longrightarrow>
      (\<And>P j. K = Child P j \<Longrightarrow> x \<noteq> ucast (blkref V ib P)) \<Longrightarrow> V' x = V x"
    and zero: "\<And>i. index_key n K \<Longrightarrow> i < n \<Longrightarrow> rd32 (V' (ucast no)) (4 * i) = 0"
  shows "valid_key n L \<Longrightarrow> blkref V' ib' L = (if L = K then no else blkref V ib L)"
    and "file_wf vb M (F - {unat no}) n V' ib'"
    and "valid_key n L \<Longrightarrow> \<not> index_key n L \<Longrightarrow> blkref V ib L \<noteq> 0 \<Longrightarrow>
      V' (ucast (blkref V ib L)) = V (ucast (blkref V ib L))"
proof -
  note wfD = file_wfD [OF wf]
  have ne: "blkref V ib L \<noteq> no" if "valid_key n L" for L
    using wfD(3) [OF that] no(1,2) by metis
  have keep: "V' (ucast (blkref V ib Q)) = V (ucast (blkref V ib Q))"
    if Q: "valid_key n Q" "blkref V ib Q \<noteq> 0" "\<And>j. K \<noteq> Child Q j" for Q
  proof (rule other)
    show "ucast (blkref V ib Q) \<noteq> (ucast no :: u64)"
      using ne [OF Q(1)] by (simp add: ucast_u32_inj)
    show "ucast (blkref V ib Q) \<noteq> (ucast (blkref V ib P) :: u64)" if "K = Child P j" for P j
      using that Q(3) [of j] wfD(4) [OF Q(1,2), of P] K(1) index_valid [of n P] by (auto simp: ucast_u32_inj)
  qed (use wfD(2) [OF Q(1,2)] in simp)
  have len: "length ib = 15"
    using wf by (simp add: file_wf_def EXT2_N_BLOCKS_def)
  have upd: "valid_key n L \<Longrightarrow> blkref V' ib' L = (if L = K then no else blkref V ib L)" for L
  proof (induction L)
    case (Top i)
    then show ?case
      using link len by (cases K) auto
  next
    case (Child Q j)
    then have Q: "index_key n Q" "valid_key n Q" "j < n"
      using index_valid [of n Q] by auto
    show ?case
    proof (cases "Q = K")
      case True
      then show ?thesis
        using Child.IH [OF Q(2)] K(2) no(1) zero Q by simp
    next
      case QK: False
      then have r: "blkref V' ib' Q = blkref V ib Q"
        using Child.IH [OF Q(2)] by simp
      show ?thesis
      proof (cases "\<exists>i. K = Child Q i")
        case True
        then obtain i where "K = Child Q i"
          by blast
        then show ?thesis
          using link r Q(3) by auto
      next
        case False
        then show ?thesis
          using r keep [OF Q(2)] by (cases "blkref V ib Q = 0") auto
      qed
    qed
  qed
  then show "valid_key n L \<Longrightarrow> blkref V' ib' L = (if L = K then no else blkref V ib L)" .
  show "V' (ucast (blkref V ib L)) = V (ucast (blkref V ib L))"
    if "valid_key n L" "\<not> index_key n L" "blkref V ib L \<noteq> 0"
    using that K(1) by (intro keep) auto
  have "length ib' = length ib"
    using link by (cases K) auto
  moreover have "vb (ucast (blkref V' ib' L)) \<and> ucast (blkref V' ib' L) \<notin> M \<and> unat (blkref V' ib' L) \<notin> F - {unat no}"
    if "valid_key n L" "blkref V' ib' L \<noteq> 0" for L
    using upd [OF that(1)] that(2) wfD(1-3) [OF that(1)] no by (cases "L = K") auto
  moreover have "L = L'" if v: "valid_key n L" "valid_key n L'" and "blkref V' ib' L \<noteq> 0" "blkref V' ib' L = blkref V' ib' L'" for L L'
  proof (cases "L = K \<or> L' = K")
    case True
    then show ?thesis
      using that(4) upd [OF v(1)] upd [OF v(2)] ne [OF v(1)] ne [OF v(2)] by metis
  next
    case False
    then show ?thesis
      using that(3,4) upd [OF v(1)] upd [OF v(2)] wfD(4) [OF v(2) _ v(1)] by simp
  qed
  ultimately show "file_wf vb M (F - {unat no}) n V' ib'"
    using wf unfolding file_wf_def by (metis (no_types, lifting))
qed

section \<open>Contents\<close>

text \<open>Block \<open>b\<close> of the file; a hole reads as zeros.\<close>

definition file_block :: "nat \<Rightarrow> (u64 \<Rightarrow> blk) \<Rightarrow> u32 list \<Rightarrow> nat \<Rightarrow> blk" where
  "file_block bs V ib b =
     (let r = blkref V ib (data_key (bs div 4) b) in (\<lambda>i. if i < bs \<and> r \<noteq> 0 then V (ucast r) i else 0))"

text \<open>The buffer \<open>buf\<close> with its first \<open>bs\<close> bytes replaced by the contents of block \<open>b\<close>.\<close>

definition with_block :: "nat \<Rightarrow> (u64 \<Rightarrow> blk) \<Rightarrow> u32 list \<Rightarrow> nat \<Rightarrow> blk \<Rightarrow> blk" where
  "with_block bs V ib b buf = (\<lambda>i. if i < bs then file_block bs V ib b i else buf i)"

text \<open>The machine arithmetic on block indices.\<close>

lemma lbk_words:
  fixes lbk bs :: u32
  assumes "unat bs \<le> BLKSZ"
  defines "n \<equiv> unat bs div 4"
  shows "lbk < 12 \<longleftrightarrow> unat lbk < 12"
    and "\<not> unat lbk < 12 \<Longrightarrow> lbk - 12 < bs div 4 \<longleftrightarrow> unat lbk - 12 < n"
    and "\<not> unat lbk < 12 \<Longrightarrow> unat (lbk - 12) = unat lbk - 12"
    and "\<not> unat lbk < 12 \<Longrightarrow> \<not> unat lbk - 12 < n \<Longrightarrow>
      lbk - 12 - bs div 4 < bs div 4 * (bs div 4) \<longleftrightarrow> unat lbk - 12 - n < n * n"
    and "\<not> unat lbk < 12 \<Longrightarrow> \<not> unat lbk - 12 < n \<Longrightarrow>
      unat ((lbk - 12 - bs div 4) div (bs div 4)) = (unat lbk - 12 - n) div n"
    and "\<not> unat lbk < 12 \<Longrightarrow> \<not> unat lbk - 12 < n \<Longrightarrow>
      unat ((lbk - 12 - bs div 4) mod (bs div 4)) = (unat lbk - 12 - n) mod n"
proof -
  have n: "unat (bs div 4) = n" "n \<le> 1024"
    using assms by (simp_all add: unat_div BLKSZ_def)
  have "n * n \<le> 1024 * 1024"
    using n(2) by (rule mult_le_mono) (rule n(2))
  then have sq: "unat (bs div 4 * (bs div 4)) = n * n"
    using n(1) by (subst unat_mult_lem [THEN iffD1]) simp_all
  show "lbk < 12 \<longleftrightarrow> unat lbk < 12"
    by (simp add: word_less_nat_alt)
  assume l: "\<not> unat lbk < 12"
  show m: "unat (lbk - 12) = unat lbk - 12"
    using l by (simp add: unat_sub_if')
  then show "lbk - 12 < bs div 4 \<longleftrightarrow> unat lbk - 12 < n"
    by (simp add: word_less_nat_alt n(1))
  assume "\<not> unat lbk - 12 < n"
  then have d: "unat (lbk - 12 - bs div 4) = unat lbk - 12 - n"
    using m n(1) by (simp add: unat_sub_if')
  then show "lbk - 12 - bs div 4 < bs div 4 * (bs div 4) \<longleftrightarrow> unat lbk - 12 - n < n * n"
    by (simp add: word_less_nat_alt sq)
  show "unat ((lbk - 12 - bs div 4) div (bs div 4)) = (unat lbk - 12 - n) div n"
    by (simp add: unat_div d n_def)
  show "unat ((lbk - 12 - bs div 4) mod (bs div 4)) = (unat lbk - 12 - n) mod n"
    by (simp add: unat_mod d n(1))
qed

lemma assertK_True: "b \<Longrightarrow> assertK b e k = k"
  by (simp add: assertK_def)

lemma if_run: "(if b then m else k) s = (if b then m s else k s)"
  by simp

section \<open>Reading\<close>

context block_device
begin

lemma read_data_run:
  assumes "inv s" and "room (Suc 0) (slots s)" and "unat bs \<le> BLKSZ" and "no \<noteq> 0 \<Longrightarrow> vb (ucast no)"
  shows "\<exists>s'. read_data D bs no buf s = Inr ((0, \<lambda>i. if i < unat bs then (if no = 0 then 0 else view content s (ucast no) i) else buf i), s') \<and>
    quietly s (view content s) s'"
proof (cases "no = 0")
  case True
  then show ?thesis
    using assms(1,3) by (intro exI [of _ s]) (auto simp: read_data_def assertK_run bzero_def quiet_refl fun_eq_iff)
next
  case False
  obtain b s' where r: "bindK (bread D (ucast no)) (\<lambda>c. bindK (bget c) (\<lambda>b. thenK (brelse c)
        (retK (0 :: i32, bcopy 0 b 0 (unat bs) buf)))) s = retK (0, bcopy 0 b 0 (unat bs) buf) s'"
      "nb b = view content s (ucast no)" "quietly s (view content s) s'"
    using read_run [OF assms(1) assms(4) [OF False] assms(2), where f = "\<lambda>b. retK (0, bcopy 0 b 0 (unat bs) buf)"] by blast
  have "b i = view content s (ucast no) i" if "i < unat bs" for i
    using that assms(3) unfolding r(2) [symmetric] by (simp add: nb_at)
  then have "bcopy 0 b 0 (unat bs) buf =
      (\<lambda>i. if i < unat bs then (if no = 0 then 0 else view content s (ucast no) i) else buf i)"
    using False by (auto simp: bcopy_def fun_eq_iff)
  with r(1,3) False assms(3) show ?thesis
    by (auto simp: read_data_def assertK_True)
qed

lemma read_ptr_run:
  assumes "inv s" and "room (Suc 0) (slots s)" and "vb (ucast no)" and "4 * i + 4 \<le> BLKSZ"
  shows "\<exists>s'. read_ptr D no i s = Inr (rd32 (view content s (ucast no)) (4 * i), s') \<and> quietly s (view content s) s'"
proof -
  obtain b s' where r: "bindK (bread D (ucast no)) (\<lambda>c. bindK (bget c) (\<lambda>b. thenK (brelse c)
        (retK (rd32 b (4 * i))))) s = retK (rd32 b (4 * i)) s'"
      "nb b = view content s (ucast no)" "quietly s (view content s) s'"
    using read_run [OF assms(1,3,2), where f = "\<lambda>b. retK (rd32 b (4 * i))"] by blast
  have "rd32 b (4 * i) = rd32 (view content s (ucast no)) (4 * i)"
    using assms(4) unfolding r(2) [symmetric] by (simp add: rd32_nb)
  then show ?thesis
    using r(1,3) assms(4) by (auto simp: read_ptr_def assertK_True)
qed

lemma read_block_run:
  assumes s: "inv s" and room: "room (Suc 0) (slots s)" and bs: "unat (fs_block_size s) \<le> BLKSZ"
    and info: "inodes s p = Some x" "infos s (i_fs_private x) = Some info"
    and wf: "file_wf vb M F (unat (fs_block_size s) div 4) (view content s) (i_block info)"
  shows "\<exists>s'. ext2_read_block D p lbk buf s =
      Inr (if unat lbk < max_blocks (unat (fs_block_size s) div 4)
        then (0, with_block (unat (fs_block_size s)) (view content s) (i_block info) (unat lbk) buf) else (- 1, buf), s') \<and>
    quietly s (view content s) s'"
proof -
  let ?V = "view content s" and ?bs = "fs_block_size s" and ?ib = "i_block info"
  let ?n = "unat ?bs div 4"
  note w = lbk_words [OF bs, of lbk]
  have four: "4 * i + 4 \<le> BLKSZ" if "i < ?n" for i
    using that bs by linarith
  have data: "\<exists>s'. read_data D ?bs (blkref ?V ?ib (data_key ?n (unat lbk))) buf s1 =
        Inr ((0, with_block (unat ?bs) ?V ?ib (unat lbk) buf), s') \<and> quietly s ?V s'"
    if "quietly s ?V s1" "unat lbk < max_blocks ?n" for s1
  proof -
    have "blkref ?V ?ib (data_key ?n (unat lbk)) \<noteq> 0 \<Longrightarrow> vb (ucast (blkref ?V ?ib (data_key ?n (unat lbk))))"
      using file_wfD(1) [OF wf] data_key_valid [OF that(2)] by blast
    from read_data_run [OF quietD(1) [OF that(1)] _ bs this, of buf] quiet_room [OF that(1)] room quiet_trans [OF that(1)]
    show ?thesis
      unfolding quietD(2) [OF that(1)] with_block_def file_block_def Let_def by fastforce
  qed
  have refl: "quietly s ?V s"
    using s by (rule quiet_refl)
  have ptr: "\<exists>s'. read_ptr D (blkref ?V ?ib K) i s1 = Inr (blkref ?V ?ib (Child K i), s') \<and> quietly s ?V s'"
    if "quietly s ?V s1" "index_key ?n K" "blkref ?V ?ib K \<noteq> 0" "i < ?n" for s1 K i
    using read_ptr_run [OF quietD(1) [OF that(1)] _ file_wfD(1) [OF wf index_valid [OF that(2)] that(3)] four [OF that(4)]]
      quiet_room [OF that(1)] room quiet_trans [OF that(1)] that(3)
    unfolding quietD(2) [OF that(1)] by auto
  have run: "ext2_read_block D p lbk buf s = (if unat lbk < 12 then read_data D ?bs (?ib ! unat lbk) buf s
      else if unat lbk - 12 < ?n then
        (if ?ib ! 12 = 0 then read_data D ?bs 0 buf s
         else bindK (read_ptr D (?ib ! 12) (unat lbk - 12)) (\<lambda>no. read_data D ?bs no buf) s)
      else if unat lbk - 12 - ?n < ?n * ?n then
        (if ?ib ! 13 = 0 then read_data D ?bs 0 buf s
         else bindK (read_ptr D (?ib ! 13) ((unat lbk - 12 - ?n) div ?n)) (\<lambda>ind_blk.
           if ind_blk = 0 then read_data D ?bs 0 buf
           else bindK (read_ptr D ind_blk ((unat lbk - 12 - ?n) mod ?n)) (\<lambda>no. read_data D ?bs no buf)) s)
      else Inr ((- 1, buf), s))"
    using info by (simp add: ext2_read_block_def bindK_run get_inode_def get_info_def needK_run ext2_consts Let_def w
        if_run split del: if_split cong: if_cong)
  consider (direct) "unat lbk < 12" | (ind) "\<not> unat lbk < 12" "unat lbk - 12 < ?n"
    | (dind) "\<not> unat lbk < 12" "\<not> unat lbk - 12 < ?n" "unat lbk - 12 - ?n < ?n * ?n"
    | (out) "\<not> unat lbk < 12" "\<not> unat lbk - 12 < ?n" "\<not> unat lbk - 12 - ?n < ?n * ?n"
    by blast
  then show ?thesis
  proof cases
    case direct
    then show ?thesis
      using data [OF refl] run by (simp add: data_key_def max_blocks_def)
  next
    case ind
    then have K: "data_key ?n (unat lbk) = Child (Top 12) (unat lbk - 12)" and m: "unat lbk < max_blocks ?n"
      by (auto simp: data_key_def max_blocks_def)
    show ?thesis
    proof (cases "?ib ! 12 = 0")
      case True
      then show ?thesis
        using data [OF refl m] run ind m K by simp
    next
      case False
      then obtain s1 where "read_ptr D (?ib ! 12) (unat lbk - 12) s = Inr (blkref ?V ?ib (data_key ?n (unat lbk)), s1)" "quietly s ?V s1"
        using ptr [OF refl, of "Top 12" "unat lbk - 12"] ind K by auto
      then show ?thesis
        using data [of s1] run ind m False by (simp add: bindK_run)
    qed
  next
    case dind
    let ?i = "(unat lbk - 12 - ?n) div ?n" and ?j = "(unat lbk - 12 - ?n) mod ?n"
    have K: "data_key ?n (unat lbk) = Child (Child (Top 13) ?i) ?j" and m: "unat lbk < max_blocks ?n"
      using dind by (auto simp: data_key_def max_blocks_def)
    have ij: "?i < ?n" "?j < ?n"
      using data_key_valid [OF m] K by auto
    show ?thesis
    proof (cases "?ib ! 13 = 0")
      case True
      then show ?thesis
        using data [OF refl m] run dind m K by simp
    next
      case False
      then obtain s1 where s1: "read_ptr D (?ib ! 13) ?i s = Inr (blkref ?V ?ib (Child (Top 13) ?i), s1)" "quietly s ?V s1"
        using ptr [OF refl, of "Top 13" ?i] ij by auto
      show ?thesis
      proof (cases "blkref ?V ?ib (Child (Top 13) ?i) = 0")
        case True
        then show ?thesis
          using data [OF s1(2) m] run dind m K s1(1) False by (simp add: bindK_run)
      next
        case nz: False
        obtain s2 where "read_ptr D (blkref ?V ?ib (Child (Top 13) ?i)) ?j s1 = Inr (blkref ?V ?ib (data_key ?n (unat lbk)), s2)"
            "quietly s ?V s2"
          using ptr [OF s1(2) _ nz ij(2)] ij K by auto
        then show ?thesis
          using data [of s2] run dind m s1(1) False nz by (simp add: bindK_run del: blkref.simps)
      qed
    qed
  next
    case out
    then show ?thesis
      using run refl by (auto simp: max_blocks_def)
  qed
qed

end

end
