(* ===== verification/FileWrite.thy ===== *)
theory FileWrite
  imports FileMap
begin

text \<open>
  Writing the blocks of a file: \<open>ext2_write_block\<close> with the allocation of data blocks and of
  index blocks, against the map of \<open>FileMap\<close>.
\<close>

section \<open>The invariant of an open file\<close>

definition file_inv :: "('d \<Rightarrow> u64 \<Rightarrow> blk) \<Rightarrow> ('d \<Rightarrow> bool) \<Rightarrow> (u64 \<Rightarrow> bool) \<Rightarrow> u64 \<Rightarrow> u64 \<Rightarrow> sb_info \<Rightarrow>
    inode_info \<Rightarrow> 'd fs_state \<Rightarrow> bool" where
  "file_inv content ok vb sbno p sbi info s \<longleftrightarrow>
     (let V = view content s; F = free_blocks V sbno sbi; M = meta_blocks (fs_block_size s) V sbno sbi in
      alloc_inv content ok vb sbno sbi s \<and> (\<forall>no. unat (no :: u32) \<in> F \<longrightarrow> vb (ucast no) \<and> ucast no \<notin> M) \<and>
      (\<exists>x. inodes s p = Some x \<and> infos s (i_fs_private x) = Some info) \<and>
      file_wf vb M F (unat (fs_block_size s) div 4) V (i_block info))"

text \<open>
  The data blocks at all positions outside \<open>S\<close> are where they were and hold what they held.
\<close>

definition same_data :: "nat \<Rightarrow> bkey set \<Rightarrow> (u64 \<Rightarrow> blk) \<Rightarrow> u32 list \<Rightarrow> (u64 \<Rightarrow> blk) \<Rightarrow> u32 list \<Rightarrow> bool" where
  "same_data n S V ib V' ib' \<longleftrightarrow> (\<forall>L. valid_key n L \<longrightarrow> \<not> index_key n L \<longrightarrow> L \<notin> S \<longrightarrow>
     blkref V' ib' L = blkref V ib L \<and>
     (blkref V ib L \<noteq> 0 \<longrightarrow> V' (ucast (blkref V ib L)) = V (ucast (blkref V ib L))))"

lemma same_data_refl: "same_data n S V ib V ib"
  by (simp add: same_data_def)

lemma same_data_trans: "same_data n S V ib V1 ib1 \<Longrightarrow> same_data n T V1 ib1 V2 ib2 \<Longrightarrow> same_data n (S \<union> T) V ib V2 ib2"
  unfolding same_data_def by (metis UnCI)

lemma same_data_mono: "same_data n S V ib V' ib' \<Longrightarrow> S \<subseteq> T \<Longrightarrow> same_data n T V ib V' ib'"
  by (auto simp: same_data_def)

lemma same_data_index: "same_data n (insert K S) V ib V' ib' \<Longrightarrow> index_key n K \<Longrightarrow> same_data n S V ib V' ib'"
  by (auto simp: same_data_def)

lemma same_data_block:
  assumes "same_data (bs div 4) S V ib V' ib'" and "b < max_blocks (bs div 4)" and "data_key (bs div 4) b \<notin> S"
  shows "file_block bs V' ib' b = file_block bs V ib b"
proof -
  have "valid_key (bs div 4) (data_key (bs div 4) b)" "\<not> index_key (bs div 4) (data_key (bs div 4) b)"
    using data_key_valid [OF assms(2)] by auto
  then show ?thesis
    using assms(1,3) by (auto simp: same_data_def file_block_def Let_def fun_eq_iff)
qed

lemma file_invD:
  fixes no :: u32
  assumes "file_inv content ok vb sbno p sbi info s"
  shows "alloc_inv content ok vb sbno sbi s"
    and "unat no \<in> free_blocks (view content s) sbno sbi \<Longrightarrow> vb (ucast no)"
    and "unat no \<in> free_blocks (view content s) sbno sbi \<Longrightarrow>
      ucast no \<notin> meta_blocks (fs_block_size s) (view content s) sbno sbi"
    and "\<exists>x. inodes s p = Some x \<and> infos s (i_fs_private x) = Some info"
    and "file_wf vb (meta_blocks (fs_block_size s) (view content s) sbno sbi) (free_blocks (view content s) sbno sbi)
      (unat (fs_block_size s) div 4) (view content s) (i_block info)"
    and "bc_inv content ok vb s" and "mounted s sbi sbno" and "room 1 (slots s)"
    and "32 \<le> unat (fs_block_size s)" and "unat (fs_block_size s) \<le> BLKSZ"
proof -
  show a: "alloc_inv content ok vb sbno sbi s"
    using assms by (simp add: file_inv_def Let_def)
  show "unat no \<in> free_blocks (view content s) sbno sbi \<Longrightarrow> vb (ucast no)"
    "unat no \<in> free_blocks (view content s) sbno sbi \<Longrightarrow>
      ucast no \<notin> meta_blocks (fs_block_size s) (view content s) sbno sbi"
    "\<exists>x. inodes s p = Some x \<and> infos s (i_fs_private x) = Some info"
    "file_wf vb (meta_blocks (fs_block_size s) (view content s) sbno sbi) (free_blocks (view content s) sbno sbi)
      (unat (fs_block_size s) div 4) (view content s) (i_block info)"
    using assms by (simp_all add: file_inv_def Let_def)
  show "bc_inv content ok vb s" "mounted s sbi sbno" "room 1 (slots s)"
    "32 \<le> unat (fs_block_size s)" "unat (fs_block_size s) \<le> BLKSZ"
    using a by (simp_all add: alloc_inv_def volume_def Let_def)
qed

text \<open>A step that keeps the metadata and the pointers of the file.\<close>

lemma file_inv_same:
  assumes inv: "file_inv content ok vb sbno p sbi info s" and "bc_inv content ok vb s'" and "mounted s' sbi sbno"
    and "room 1 (slots s')" and bs: "fs_block_size s' = fs_block_size s"
    and info: "inodes s' = inodes s" "infos s' = infos s"
    and meta: "\<And>x. x \<in> meta_blocks (fs_block_size s) (view content s) sbno sbi \<Longrightarrow> view content s' x = view content s x"
    and ref: "\<And>K. valid_key (unat (fs_block_size s) div 4) K \<Longrightarrow>
      blkref (view content s') (i_block info) K = blkref (view content s) (i_block info) K"
  shows "file_inv content ok vb sbno p sbi info s'"
proof -
  note f = file_invD [OF inv]
  have a: "alloc_inv content ok vb sbno sbi s'" "free_blocks (view content s') sbno sbi = free_blocks (view content s) sbno sbi"
      "meta_blocks (fs_block_size s') (view content s') sbno sbi = meta_blocks (fs_block_size s) (view content s) sbno sbi"
    by (rule alloc_inv_same [OF f(1) assms(2-5) meta]; assumption)+
  have "file_wf vb (meta_blocks (fs_block_size s) (view content s) sbno sbi) (free_blocks (view content s) sbno sbi)
      (unat (fs_block_size s) div 4) (view content s') (i_block info)"
    by (rule file_wf_cong [OF f(5) ref subset_refl])
  then show ?thesis
    using a(1) f(2-4) unfolding file_inv_def Let_def a(2,3) unfolding bs info by blast
qed

section \<open>Data\<close>

lemma mod4_words: "i < bs div 4 \<Longrightarrow> bs \<le> BLKSZ \<Longrightarrow> 4 * i + 4 \<le> (bs :: nat) \<and> 4 * i + 4 \<le> BLKSZ"
  by linarith

context block_device
begin

lemma write_data_run:
  assumes "inv s" and "room (Suc 0) (slots s)" and "unat bs \<le> BLKSZ" and "vb (ucast no)"
  shows "\<exists>s'. write_data D bs no buf s = Inr (0, s') \<and>
    quietly s ((view content s)(ucast no := (\<lambda>i. if i < unat bs then buf i else view content s (ucast no) i))) s'"
proof -
  obtain b s' where r: "bindK (bread D (ucast no)) (\<lambda>c. bindK (bget c) (\<lambda>b.
        thenK (bput c (bcopy 0 buf 0 (unat bs) b)) (thenK (bwrite c) (thenK (brelse c) (retK (0 :: i32)))))) s = retK 0 s'"
      "nb b = view content s (ucast no)"
      "quietly s ((view content s)(ucast no := nb (bcopy 0 buf 0 (unat bs) b))) s'"
    using update_run [OF assms(1,4,2), where g = "bcopy 0 buf 0 (unat bs)" and f = "retK 0"] by blast
  have "nb (bcopy 0 buf 0 (unat bs) b) = (\<lambda>i. if i < unat bs then buf i else view content s (ucast no) i)"
    using assms(3) unfolding r(2) [symmetric] by (auto simp: nb_def bcopy_def fun_eq_iff)
  with r(1,3) assms(3) show ?thesis
    by (auto simp: write_data_def assertK_True)
qed

lemma zero_data_run:
  assumes "inv s" and "room (Suc 0) (slots s)" and "unat bs \<le> BLKSZ" and "vb (ucast no)"
  shows "\<exists>s' b. zero_data D bs no s = Inr ((), s') \<and> quietly s ((view content s)(ucast no := b)) s' \<and>
    (\<forall>i < unat bs div 4. rd32 b (4 * i) = 0)"
proof -
  have ret: "brelse c = thenK (brelse c) (retK ())" for c
    by (auto simp: thenK_run fun_eq_iff bindR_def split: sum.splits)
  obtain b s' where r: "bindK (bread D (ucast no)) (\<lambda>c. bindK (bget c) (\<lambda>b.
        thenK (bput c (bzero 0 (unat bs) b)) (thenK (bwrite c) (thenK (brelse c) (retK ()))))) s = retK () s'"
      "quietly s ((view content s)(ucast no := nb (bzero 0 (unat bs) b))) s'"
    using update_run [OF assms(1,4,2), where g = "bzero 0 (unat bs)" and f = "retK ()"] by blast
  have "rd32 (nb (bzero 0 (unat bs) b)) (4 * i) = 0" if "i < unat bs div 4" for i
    using mod4_words [OF that assms(3)] by (simp add: rd32_nb) (simp add: rd32_def bzero_def)
  with r assms(3) show ?thesis
    by (auto simp: zero_data_def assertK_True ret [symmetric])
qed

end

section \<open>Filling a hole\<close>

lemma fs_heap_simps [simp]:
  fixes s :: "'d fs_state"
  shows "view content (s\<lparr>infos := x\<rparr>) = view content s" "bc_inv content ok vb (s\<lparr>infos := x\<rparr>) = bc_inv content ok vb s"
    "view content (s\<lparr>inodes := y\<rparr>) = view content s" "bc_inv content ok vb (s\<lparr>inodes := y\<rparr>) = bc_inv content ok vb s"
    "mounted (s\<lparr>infos := x\<rparr>) sbi sbno = mounted s sbi sbno" "mounted (s\<lparr>inodes := y\<rparr>) sbi sbno = mounted s sbi sbno"
  by (auto simp: view_def bc_inv_def mounted_def fun_eq_iff split: option.split)

lemma alloc_inv_heap [simp]:
  "alloc_inv content ok vb sbno sbi (s\<lparr>infos := x\<rparr>) = alloc_inv content ok vb sbno sbi s"
  "alloc_inv content ok vb sbno sbi (s\<lparr>inodes := y\<rparr>) = alloc_inv content ok vb sbno sbi s"
  by (simp_all add: alloc_inv_def)

lemma alloc_inv_quiet:
  assumes inv: "alloc_inv content ok vb sbno sbi s" and q: "quiet content ok vb s W s'"
    and "\<And>x. x \<in> meta_blocks (fs_block_size s) (view content s) sbno sbi \<Longrightarrow> W x = view content s x"
  shows "alloc_inv content ok vb sbno sbi s'" "free_blocks W sbno sbi = free_blocks (view content s) sbno sbi"
    "meta_blocks (fs_block_size s) W sbno sbi = meta_blocks (fs_block_size s) (view content s) sbno sbi"
proof -
  have m: "mounted s sbi sbno" "room 1 (slots s)"
    using inv by (simp_all add: alloc_inv_def Let_def)
  have e: "bc_inv content ok vb s'" "mounted s' sbi sbno" "room 1 (slots s')" "fs_block_size s' = fs_block_size s"
    using quietD(1) [OF q] mounted_quiet [OF q m(1)] quiet_room [OF q] m(2) fs_more(2) [OF quietD(4) [OF q]] by simp_all
  note a = alloc_inv_same [OF inv e]
  show "alloc_inv content ok vb sbno sbi s'" "free_blocks W sbno sbi = free_blocks (view content s) sbno sbi"
    "meta_blocks (fs_block_size s) W sbno sbi = meta_blocks (fs_block_size s) (view content s) sbno sbi"
    using a assms(3) unfolding quietD(2) [OF q] e(4) by simp_all
qed

text \<open>
  The blocks that are free or belong to the file. A step is confined if it changes nothing but
  these and the allocator's own blocks, and takes no others for the file.
\<close>

definition own :: "('d \<Rightarrow> u64 \<Rightarrow> blk) \<Rightarrow> u64 \<Rightarrow> sb_info \<Rightarrow> inode_info \<Rightarrow> 'd fs_state \<Rightarrow> u64 set" where
  "own content sbno sbi info s =
     {ucast no | no :: u32. unat no \<in> free_blocks (view content s) sbno sbi} \<union>
     {ucast (blkref (view content s) (i_block info) K) | K.
        valid_key (unat (fs_block_size s) div 4) K \<and> blkref (view content s) (i_block info) K \<noteq> 0}"

definition confined :: "('d \<Rightarrow> u64 \<Rightarrow> blk) \<Rightarrow> u64 \<Rightarrow> sb_info \<Rightarrow> inode_info \<Rightarrow> 'd fs_state \<Rightarrow>
    sb_info \<Rightarrow> inode_info \<Rightarrow> 'd fs_state \<Rightarrow> bool" where
  "confined content sbno sbi info s sbi' info' s' \<longleftrightarrow>
     own content sbno sbi' info' s' \<subseteq> own content sbno sbi info s \<and>
     meta_blocks (fs_block_size s') (view content s') sbno sbi' = meta_blocks (fs_block_size s) (view content s) sbno sbi \<and>
     (\<forall>x. x \<notin> meta_blocks (fs_block_size s) (view content s) sbno sbi \<longrightarrow> x \<notin> own content sbno sbi info s \<longrightarrow>
        view content s' x = view content s x)"

lemma confined_refl: "confined content sbno sbi info s sbi info s"
  by (simp add: confined_def)

lemma confined_trans: "confined content sbno sbi info s sbi1 info1 s1 \<Longrightarrow> confined content sbno sbi1 info1 s1 sbi2 info2 s2 \<Longrightarrow>
    confined content sbno sbi info s sbi2 info2 s2"
  unfolding confined_def by (metis subset_iff)

lemma own_ref: "valid_key (unat (fs_block_size s) div 4) K \<Longrightarrow> blkref (view content s) (i_block info) K \<noteq> 0 \<Longrightarrow>
    ucast (blkref (view content s) (i_block info) K) \<in> own content sbno sbi info s"
  by (auto simp: own_def)

lemma own_free: "unat (no :: u32) \<in> free_blocks (view content s) sbno sbi \<Longrightarrow> ucast no \<in> own content sbno sbi info s"
  by (auto simp: own_def)

lemma own_mono:
  assumes "fs_block_size s' = fs_block_size s"
    and "free_blocks (view content s') sbno sbi' \<subseteq> free_blocks (view content s) sbno sbi"
    and "\<And>K. valid_key (unat (fs_block_size s) div 4) K \<Longrightarrow>
      blkref (view content s') (i_block info') K = blkref (view content s) (i_block info) K \<or>
      unat (blkref (view content s') (i_block info') K) \<in> free_blocks (view content s) sbno sbi"
  shows "own content sbno sbi' info' s' \<subseteq> own content sbno sbi info s"
proof
  fix x
  assume "x \<in> own content sbno sbi' info' s'"
  then consider (free) no :: u32 where "x = ucast no" "unat no \<in> free_blocks (view content s') sbno sbi'"
    | (ref) K where "x = ucast (blkref (view content s') (i_block info') K)" "valid_key (unat (fs_block_size s) div 4) K"
      "blkref (view content s') (i_block info') K \<noteq> 0"
    unfolding own_def assms(1) by blast
  then show "x \<in> own content sbno sbi info s"
  proof cases
    case free
    then show ?thesis
      using assms(2) own_free by blast
  next
    case ref
    then show ?thesis
      using assms(3) [OF ref(2)] own_free own_ref by metis
  qed
qed

text \<open>
  From state \<open>s\<close> to state \<open>s'\<close> the block \<open>no\<close> was allocated and put at position \<open>K\<close>.
\<close>

lemma grow_inv:
  assumes inv: "file_inv content ok vb sbno p sbi info s" and K: "valid_key (unat (fs_block_size s) div 4) K"
      "blkref (view content s) (i_block info) K = 0"
    and alloc: "alloc_inv content ok vb sbno sbi' s'" "fs_block_size s' = fs_block_size s"
      "unat no \<in> free_blocks (view content s) sbno sbi"
      "free_blocks (view content s') sbno sbi' = free_blocks (view content s) sbno sbi - {unat no}"
      "meta_blocks (fs_block_size s) (view content s') sbno sbi' = meta_blocks (fs_block_size s) (view content s) sbno sbi"
    and heap: "\<exists>x. inodes s' p = Some x \<and> infos s' (i_fs_private x) = Some info'"
    and link: "case K of Top i \<Rightarrow> i_block info' = (i_block info)[i := no]
      | Child P j \<Rightarrow> i_block info' = i_block info \<and> blkref (view content s) (i_block info) P \<noteq> 0 \<and>
          (\<forall>i < unat (fs_block_size s) div 4. rd32 (view content s' (ucast (blkref (view content s) (i_block info) P))) (4 * i) =
            (if i = j then no else rd32 (view content s (ucast (blkref (view content s) (i_block info) P))) (4 * i)))"
    and other: "\<And>x. x \<notin> meta_blocks (fs_block_size s) (view content s) sbno sbi \<Longrightarrow> x \<noteq> ucast no \<Longrightarrow>
      (\<And>P j. K = Child P j \<Longrightarrow> x \<noteq> ucast (blkref (view content s) (i_block info) P)) \<Longrightarrow>
      view content s' x = view content s x"
    and zero: "\<And>i. index_key (unat (fs_block_size s) div 4) K \<Longrightarrow> i < unat (fs_block_size s) div 4 \<Longrightarrow>
      rd32 (view content s' (ucast no)) (4 * i) = 0"
  shows "file_inv content ok vb sbno p sbi' info' s'"
    and "same_data (unat (fs_block_size s) div 4) {K} (view content s) (i_block info) (view content s') (i_block info')"
    and "blkref (view content s') (i_block info') K = no" "no \<noteq> 0"
    and "valid_key (unat (fs_block_size s) div 4) L \<Longrightarrow> L \<noteq> K \<Longrightarrow>
      blkref (view content s') (i_block info') L = blkref (view content s) (i_block info) L"
    and "confined content sbno sbi info s sbi' info' s'"
proof -
  note f = file_invD [OF inv]
  have "0 \<notin> free_blocks (view content s) sbno sbi"
    using f(1) by (simp add: alloc_inv_def Let_def)
  with alloc(3) show no: "no \<noteq> 0"
    by auto
  note g = blkref_grow [OF f(5) K no alloc(3) f(2) [OF alloc(3)] f(3) [OF alloc(3)] link other zero]
  have upd: "valid_key (unat (fs_block_size s) div 4) L \<Longrightarrow> blkref (view content s') (i_block info') L =
      (if L = K then no else blkref (view content s) (i_block info) L)" for L
    by (rule g(1)) assumption+
  then show "valid_key (unat (fs_block_size s) div 4) L \<Longrightarrow> L \<noteq> K \<Longrightarrow>
      blkref (view content s') (i_block info') L = blkref (view content s) (i_block info) L"
    by simp
  show "blkref (view content s') (i_block info') K = no"
    using upd [OF K(1)] by simp
  have keep: "valid_key (unat (fs_block_size s) div 4) L \<Longrightarrow> \<not> index_key (unat (fs_block_size s) div 4) L \<Longrightarrow>
      blkref (view content s) (i_block info) L \<noteq> 0 \<Longrightarrow>
      view content s' (ucast (blkref (view content s) (i_block info) L)) = view content s (ucast (blkref (view content s) (i_block info) L))" for L
    by (rule g(3)) assumption+
  then show "same_data (unat (fs_block_size s) div 4) {K} (view content s) (i_block info) (view content s') (i_block info')"
    using upd by (simp add: same_data_def)
  have "file_wf vb (meta_blocks (fs_block_size s) (view content s) sbno sbi)
      (free_blocks (view content s) sbno sbi - {unat no}) (unat (fs_block_size s) div 4) (view content s') (i_block info')"
    by (rule g(2)) assumption+
  then show "file_inv content ok vb sbno p sbi' info' s'"
    using alloc(1) f(2,3) heap unfolding file_inv_def Let_def alloc(2,4,5) by blast
  show "confined content sbno sbi info s sbi' info' s'"
    unfolding confined_def
  proof (intro conjI allI impI)
    show "own content sbno sbi' info' s' \<subseteq> own content sbno sbi info s"
      using upd alloc(3) by (intro own_mono [OF alloc(2)]) (simp_all add: alloc(4))
    fix x
    assume x: "x \<notin> meta_blocks (fs_block_size s) (view content s) sbno sbi" "x \<notin> own content sbno sbi info s"
    show "view content s' x = view content s x"
    proof (rule other [OF x(1)])
      show "x \<noteq> ucast no"
        using x(2) own_free [OF alloc(3)] by blast
      show "x \<noteq> ucast (blkref (view content s) (i_block info) P)" if "K = Child P j" for P j
        using x(2) link K(1) own_ref [of s P content info sbno sbi] that index_valid by (auto simp: valid_key_def)
    qed
  qed (simp add: alloc(2,5))
qed

text \<open>
  The heap: only the block map and the dirty flag of the inode at \<open>p\<close> may have changed, and the
  flag is set if the map has changed.
\<close>

definition kept :: "u64 \<Rightarrow> inode_info \<Rightarrow> 'd fs_state \<Rightarrow> inode_info \<Rightarrow> 'd fs_state \<Rightarrow> bool" where
  "kept p info s info' s' \<longleftrightarrow> files s' = files s \<and> (\<forall>x. inodes s p = Some x \<longrightarrow>
     (\<exists>d. (i_dirty x \<or> info' \<noteq> info \<longrightarrow> d) \<and> inodes s' = (inodes s)(p \<mapsto> x\<lparr>i_dirty := d\<rparr>)) \<and>
     (\<forall>q. q \<noteq> i_fs_private x \<longrightarrow> infos s' q = infos s q))"

lemma kept_same: "inodes s' = inodes s \<Longrightarrow> infos s' = infos s \<Longrightarrow> files s' = files s \<Longrightarrow> kept p info s info s'"
  by (auto simp: kept_def fun_eq_iff)

lemma keptD:
  assumes "kept p info s info' s'" and "inodes s p = Some x"
  shows "\<exists>d. (i_dirty x \<or> info' \<noteq> info \<longrightarrow> d) \<and> inodes s' = (inodes s)(p \<mapsto> x\<lparr>i_dirty := d\<rparr>)"
    and "q \<noteq> i_fs_private x \<Longrightarrow> infos s' q = infos s q"
  using conjunct2 [OF assms(1) [unfolded kept_def], rule_format, OF assms(2)] by (rule conjunct1, simp)

lemma kept_files: "kept p info s info' s' \<Longrightarrow> files s' = files s"
  by (simp add: kept_def)

lemma kept_trans:
  assumes "kept p info s info1 s1" and "kept p info1 s1 info2 s2"
  shows "kept p info s info2 s2"
  unfolding kept_def
proof (intro conjI allI impI)
  show "files s2 = files s"
    using kept_files [OF assms(1)] kept_files [OF assms(2)] by simp
  fix x
  assume x: "inodes s p = Some x"
  obtain d where d: "i_dirty x \<or> info1 \<noteq> info \<longrightarrow> d" "inodes s1 = (inodes s)(p \<mapsto> x\<lparr>i_dirty := d\<rparr>)"
    using keptD(1) [OF assms(1) x] by (elim exE conjE)
  have x1: "inodes s1 p = Some (x\<lparr>i_dirty := d\<rparr>)"
    by (simp add: d(2))
  obtain e where e: "d \<or> info2 \<noteq> info1 \<longrightarrow> e" "inodes s2 = (inodes s)(p \<mapsto> x\<lparr>i_dirty := e\<rparr>)"
    using keptD(1) [OF assms(2) x1] d(2) by auto
  have "i_dirty x \<or> info2 \<noteq> info \<longrightarrow> e"
    using d(1) e(1) by blast
  moreover have "infos s2 q = infos s q" if "q \<noteq> i_fs_private x" for q
    using keptD(2) [OF assms(1) x that] keptD(2) [OF assms(2) x1, of q] that by simp
  ultimately show "\<exists>d. (i_dirty x \<or> info2 \<noteq> info \<longrightarrow> d) \<and> inodes s2 = (inodes s)(p \<mapsto> x\<lparr>i_dirty := d\<rparr>)"
      "q \<noteq> i_fs_private x \<Longrightarrow> infos s2 q = infos s q" for q
    using e(2) by blast+
qed

text \<open>The result of a step that may have filled the positions \<open>S\<close>.\<close>

definition grown :: "('d \<Rightarrow> u64 \<Rightarrow> blk) \<Rightarrow> ('d \<Rightarrow> bool) \<Rightarrow> (u64 \<Rightarrow> bool) \<Rightarrow> u64 \<Rightarrow> u64 \<Rightarrow> bkey set \<Rightarrow>
    sb_info \<Rightarrow> inode_info \<Rightarrow> 'd fs_state \<Rightarrow> sb_info \<Rightarrow> inode_info \<Rightarrow> 'd fs_state \<Rightarrow> bool" where
  "grown content ok vb sbno p S sbi info s sbi' info' s' \<longleftrightarrow>
     (let n = unat (fs_block_size s) div 4; V = view content s; V' = view content s' in
      file_inv content ok vb sbno p sbi' info' s' \<and> same_data n S V (i_block info) V' (i_block info') \<and>
      fs_block_size s' = fs_block_size s \<and> same_layout sbi' sbi \<and> calm (slots s) (slots s') \<and>
      (\<forall>L. valid_key n L \<longrightarrow> L \<notin> S \<longrightarrow> blkref V' (i_block info') L = blkref V (i_block info) L) \<and>
      confined content sbno sbi info s sbi' info' s' \<and> kept p info s info' s')"

lemma grownD:
  assumes "grown content ok vb sbno p S sbi info s sbi' info' s'"
  shows "file_inv content ok vb sbno p sbi' info' s'"
    "same_data (unat (fs_block_size s) div 4) S (view content s) (i_block info) (view content s') (i_block info')"
    "fs_block_size s' = fs_block_size s" "same_layout sbi' sbi" "calm (slots s) (slots s')"
    "valid_key (unat (fs_block_size s) div 4) L \<Longrightarrow> L \<notin> S \<Longrightarrow>
      blkref (view content s') (i_block info') L = blkref (view content s) (i_block info) L"
    "confined content sbno sbi info s sbi' info' s'" "kept p info s info' s'"
  using assms by (simp_all add: grown_def Let_def)

lemma grown_refl: "file_inv content ok vb sbno p sbi info s \<Longrightarrow> grown content ok vb sbno p S sbi info s sbi info s"
  by (simp add: grown_def Let_def same_data_refl confined_refl kept_same)

lemma grown_trans:
  assumes "grown content ok vb sbno p S sbi info s sbi1 info1 s1" and "grown content ok vb sbno p T sbi1 info1 s1 sbi2 info2 s2"
  shows "grown content ok vb sbno p (S \<union> T) sbi info s sbi2 info2 s2"
proof -
  note g = grownD [OF assms(1)] and h = grownD [OF assms(2)]
  show ?thesis
    using h(1) same_data_trans [OF g(2) h(2) [unfolded g(3)]] calm_trans [OF g(5) h(5)] g(6) h(6)
      confined_trans [OF g(7) h(7)] kept_trans [OF g(8) h(8)] same_layout_trans [OF h(4) g(4)]
    unfolding grown_def Let_def h(3) g(3) by auto
qed

text \<open>An allocation that failed, or a step on other blocks, fills nothing.\<close>

lemma stay_grown:
  assumes inv: "file_inv content ok vb sbno p sbi info s"
    and alloc: "alloc_inv content ok vb sbno sbi' s'" "fs_block_size s' = fs_block_size s" "same_layout sbi' sbi"
      "free_blocks (view content s') sbno sbi' = free_blocks (view content s) sbno sbi"
      "meta_blocks (fs_block_size s) (view content s') sbno sbi' = meta_blocks (fs_block_size s) (view content s) sbno sbi"
      "calm (slots s) (slots s')"
    and heap: "inodes s' = inodes s" "infos s' = infos s" "files s' = files s"
    and same: "\<And>x. x \<notin> meta_blocks (fs_block_size s) (view content s) sbno sbi \<Longrightarrow> view content s' x = view content s x"
  shows "grown content ok vb sbno p {} sbi info s sbi' info s'"
proof -
  note f = file_invD [OF inv]
  have k: "view content s' (ucast (blkref (view content s) (i_block info) K)) =
      view content s (ucast (blkref (view content s) (i_block info) K))"
    if "valid_key (unat (fs_block_size s) div 4) K" "blkref (view content s) (i_block info) K \<noteq> 0" for K
    by (rule same [OF file_wfD(2) [OF f(5) that]])
  have r: "blkref (view content s') (i_block info) K = blkref (view content s) (i_block info) K"
    if "valid_key (unat (fs_block_size s) div 4) K" for K
    by (rule blkref_cong [OF _ that]) (simp add: k index_valid)
  have "file_inv content ok vb sbno p sbi' info s'"
    using alloc(1) f(2-4) file_wf_cong [OF f(5) r subset_refl]
    unfolding file_inv_def Let_def alloc(2,4,5) heap(1,2) by blast
  moreover have "confined content sbno sbi info s sbi' info s'"
    unfolding confined_def by (intro conjI own_mono [OF alloc(2)] allI impI same) (simp_all add: alloc(2,4,5) r)
  ultimately show ?thesis
    using alloc(2,3,6) r k kept_same [OF heap] by (simp add: grown_def same_data_def Let_def)
qed

context block_device
begin

lemma alloc_iblock_run:
  assumes inv: "file_inv content ok vb sbno p sbi info s" and i: "i < 14" and z: "zero \<longleftrightarrow> i = 12 \<or> i = 13"
  obtains got s' sbi' info' where "alloc_iblock D p i zero s = Inr (got, s')"
    "got \<Longrightarrow> grown content ok vb sbno p {Top i} sbi info s sbi' info' s' \<and> i_block info' ! i \<noteq> 0"
    "\<not> got \<Longrightarrow> grown content ok vb sbno p {} sbi info s sbi' info' s' \<and> free_blocks (view content s') sbno sbi' = {}"
proof -
  note f = file_invD [OF inv]
  let ?V = "view content s" and ?bs = "fs_block_size s" and ?ib = "i_block info"
  obtain x where x: "inodes s p = Some x" "infos s (i_fs_private x) = Some info"
    using f(4) by blast
  have run: "alloc_iblock D p i zero s = (if ?ib ! i \<noteq> 0 then Inr (True, s)
      else bindK (ext2_alloc_block D) (\<lambda>no. if no = 0 then retK False
        else thenK (put_info (i_fs_private x) (info\<lparr>i_block := ?ib[i := no]\<rparr>))
          (thenK (put_inode p (x\<lparr>i_dirty := True\<rparr>))
          (bindK (getK fs_block_size) (\<lambda>bs. thenK (if zero then zero_data D bs no else retK ()) (retK True))))) s)"
    using x by (simp add: alloc_iblock_def bindK_run get_inode_def get_info_def needK_run)
  show thesis
  proof (cases "?ib ! i = 0")
    case False
    then show thesis
      using run grown_refl [OF inv] by (intro that [of True s sbi info]) simp_all
  next
    case hole: True
    obtain no s1 sbi1 y where a: "ext2_alloc_block D s = Inr (no, s1)" "alloc_inv content ok vb sbno sbi1 s1"
        "no = 0 \<longleftrightarrow> free_blocks ?V sbno sbi = {}" "no \<noteq> 0 \<longrightarrow> unat no \<in> free_blocks ?V sbno sbi"
        "free_blocks (view content s1) sbno sbi1 = free_blocks ?V sbno sbi - {unat no}"
        "\<forall>x. x \<notin> meta_blocks ?bs ?V sbno sbi \<longrightarrow> view content s1 x = ?V x"
        "meta_blocks ?bs (view content s1) sbno sbi1 = meta_blocks ?bs ?V sbno sbi" "same_layout sbi1 sbi"
        "calm (slots s) (slots s1)" "bc_state.more s1 = bc_state.more (s\<lparr>fs_private := y\<rparr>)"
      using alloc_block_run [OF block_device_axioms f(1)] by blast
    have e: "fs_block_size s1 = ?bs" "inodes s1 = inodes s" "infos s1 = infos s" "files s1 = files s"
      using fs_more [OF a(10)] by simp_all
    show thesis
    proof (cases "no = 0")
      case True
      have "grown content ok vb sbno p {} sbi info s sbi1 info s1"
        using a(3,5,6) True by (intro stay_grown [OF inv a(2) e(1) a(8) _ a(7,9) e(2-4)]) auto
      then show thesis
        using run hole True a(1,3,5) by (intro that [of False s1 sbi1 info]) (simp_all add: bindK_run)
    next
      case False
      then have no: "unat no \<in> free_blocks ?V sbno sbi"
        using a(4) by blast
      let ?info = "info\<lparr>i_block := ?ib[i := no]\<rparr>"
      let ?s3 = "s1\<lparr>infos := (infos s1)(i_fs_private x \<mapsto> ?info), inodes := (inodes s1)(p \<mapsto> x\<lparr>i_dirty := True\<rparr>)\<rparr>"
      have a3: "alloc_inv content ok vb sbno sbi1 ?s3" "view content ?s3 = view content s1" "fs_block_size ?s3 = ?bs"
          "inv ?s3" "slots ?s3 = slots s1"
        using a(2) e(1) by (simp_all add: alloc_inv_def Let_def)
      have h3: "\<exists>x. inodes ?s3 p = Some x \<and> infos ?s3 (i_fs_private x) = Some ?info"
        by simp
      have vbno: "vb (ucast no)" and nm: "ucast no \<notin> meta_blocks ?bs ?V sbno sbi"
        using f(2,3) [OF no] by simp_all
      obtain s4 where s4: "(if zero then zero_data D ?bs no else retK ()) ?s3 = Inr ((), s4)" "inv s4"
          "alloc_inv content ok vb sbno sbi1 s4" "free_blocks (view content s4) sbno sbi1 = free_blocks ?V sbno sbi - {unat no}"
          "meta_blocks ?bs (view content s4) sbno sbi1 = meta_blocks ?bs ?V sbno sbi" "fs_block_size s4 = ?bs"
          "calm (slots s) (slots s4)" "inodes s4 = inodes ?s3" "infos s4 = infos ?s3" "files s4 = files ?s3"
          "\<And>x. x \<noteq> ucast no \<Longrightarrow> view content s4 x = view content s1 x"
          "zero \<Longrightarrow> \<forall>i < unat ?bs div 4. rd32 (view content s4 (ucast no)) (4 * i) = 0"
      proof (cases zero)
        case False
        then show thesis
          using a e(1) a3 by (intro that [of ?s3]) (simp_all add: alloc_inv_def Let_def)
      next
        case True
        have "room (Suc 0) (slots ?s3)"
          using a3(1) by (simp add: alloc_inv_def Let_def)
        from zero_data_run [OF a3(4) this f(10) vbno] a3(2) obtain s4 b where
          zd: "zero_data D ?bs no ?s3 = Inr ((), s4)" "quietly ?s3 ((view content s1)(ucast no := b)) s4"
            "\<forall>i < unat ?bs div 4. rd32 b (4 * i) = 0"
          by auto
        have keep: "((view content s1)(ucast no := b)) y = view content ?s3 y" if "y \<in> meta_blocks (fs_block_size ?s3) (view content ?s3) sbno sbi1" for y
          using that nm a(7) unfolding a3(2,3) by auto
        have q: "alloc_inv content ok vb sbno sbi1 s4"
            "free_blocks ((view content s1)(ucast no := b)) sbno sbi1 = free_blocks (view content ?s3) sbno sbi1"
            "meta_blocks (fs_block_size ?s3) ((view content s1)(ucast no := b)) sbno sbi1 =
              meta_blocks (fs_block_size ?s3) (view content ?s3) sbno sbi1"
          by (rule alloc_inv_quiet [OF a3(1) zd(2) keep]; assumption)+
        have v4: "view content s4 = (view content s1)(ucast no := b)"
          by (rule quietD(2) [OF zd(2)])
        show thesis
        proof (rule that [of s4])
          show "(if zero then zero_data D ?bs no else retK ()) ?s3 = Inr ((), s4)"
            using zd(1) True by simp
          show "free_blocks (view content s4) sbno sbi1 = free_blocks ?V sbno sbi - {unat no}"
            unfolding v4 q(2) a3(2) by (rule a(5))
          show "meta_blocks ?bs (view content s4) sbno sbi1 = meta_blocks ?bs ?V sbno sbi"
            using q(3) a(7) unfolding v4 a3(2,3) by simp
          show "calm (slots s) (slots s4)"
            using calm_trans [OF a(9)] quietD(3) [OF zd(2)] unfolding a3(5) .
          show "fs_block_size s4 = ?bs" "inodes s4 = inodes ?s3" "infos s4 = infos ?s3" "files s4 = files ?s3"
            using fs_more [OF quietD(4) [OF zd(2)]] a3(3) by simp_all
        qed (use quietD(1) [OF zd(2)] q(1) zd(3) in \<open>simp_all add: v4\<close>)
      qed
      have K: "valid_key (unat ?bs div 4) (Top i)" "blkref ?V ?ib (Top i) = 0"
        using i hole by simp_all
      have other: "view content s4 y = ?V y" if "y \<notin> meta_blocks ?bs ?V sbno sbi" "y \<noteq> ucast no" for y
        using a(6) that s4(11) by simp
      have zz: "rd32 (view content s4 (ucast no)) (4 * j) = 0" if "index_key (unat ?bs div 4) (Top i)" "j < unat ?bs div 4" for j
        using s4(12) that z by simp
      have heap: "\<exists>x. inodes s4 p = Some x \<and> infos s4 (i_fs_private x) = Some ?info"
        using h3 unfolding s4(8,9) .
      note gi = grow_inv [OF inv K s4(3,6) no s4(4,5) heap _ other zz]
      have "file_inv content ok vb sbno p sbi1 ?info s4"
        "same_data (unat ?bs div 4) {Top i} ?V ?ib (view content s4) (i_block ?info)"
        "valid_key (unat ?bs div 4) L \<Longrightarrow> L \<noteq> Top i \<Longrightarrow> blkref (view content s4) (i_block ?info) L = blkref ?V ?ib L"
        "confined content sbno sbi info s sbi1 ?info s4" for L
        using gi by simp_all
      moreover have kept: "kept p info s ?info s4"
        using x s4(8-10) e(2-4) by (auto simp: kept_def intro: exI [of _ True])
      ultimately have "grown content ok vb sbno p {Top i} sbi info s sbi1 ?info s4"
        using s4(6,7) a(8) kept by (simp add: grown_def Let_def)
      moreover have "i_block ?info ! i \<noteq> 0"
        using f(5) i False by (simp add: file_wf_def EXT2_N_BLOCKS_def)
      moreover have "alloc_iblock D p i zero s = Inr (True, s4)"
        using run hole False a(1) e(1) s4(1)
        by (cases zero) (simp_all add: bindK_run thenK_run put_info_def put_inode_def)
      ultimately show thesis
        by (intro that [of True s4 sbi1 ?info]) simp_all
    qed
  qed
qed

end

text \<open>After the release of a buffer that was pinned since \<open>s0\<close>.\<close>

lemma mounted_back:
  fixes s0 s1 s2 :: "'d fs_state"
  assumes "mounted s0 sbi sbno" and "calm (slots s0) (slots s2)" and "mounted s1 sbi1 sbno" and "same_layout sbi1 sbi"
    and "bc_state.more s2 = bc_state.more s1"
  shows "mounted s2 sbi1 sbno"
  using assms(1-4) fs_more(1) [OF assms(5)] by (simp add: mounted_def calm_def same_layout_def)

lemma grown_mono: "grown content ok vb sbno p S sbi info s sbi' info' s' \<Longrightarrow> S \<subseteq> T \<Longrightarrow>
    grown content ok vb sbno p T sbi info s sbi' info' s'"
  by (auto simp: grown_def Let_def intro: same_data_mono)

lemma quiet_grown:
  assumes inv: "file_inv content ok vb sbno p sbi info s" and q: "quiet content ok vb s (view content s) s'"
  shows "grown content ok vb sbno p {} sbi info s sbi info s'"
proof -
  have a: "alloc_inv content ok vb sbno sbi s'"
    by (rule alloc_inv_quiet [OF file_invD(1) [OF inv] q]) simp
  show ?thesis
    using quietD [OF q] fs_more [OF quietD(4) [OF q]] by (intro stay_grown [OF inv a]) simp_all
qed

lemma pin_calm_slot:
  assumes "pin c sl0 sl" and "room (Suc k) sl0" and "bvalid (sl ! c)" and "calm sl sl'"
  shows "pin c sl0 sl'" "bvalid (sl' ! c)" "blk_no (sl' ! c) = blk_no (sl ! c)"
proof -
  have "c < NBLKNUM"
    using assms(1) by (simp add: pin_def)
  then show "bvalid (sl' ! c)" "blk_no (sl' ! c) = blk_no (sl ! c)"
    using assms(3,4) pin_count(2) [OF assms(1,2)] by (simp_all add: calm_def)
  show "pin c sl0 sl'"
    by (rule pin_calm_trans [OF assms(1,2,4)])
qed

context block_device
begin

text \<open>The writes of \<open>alloc_ptr\<close> once the new block \<open>no\<close> is known.\<close>

lemma link_ptr_run:
  assumes s1: "inv s1" "room (Suc 0) (slots s1)" "unat bs \<le> BLKSZ" "fs_block_size s1 = bs" "j < unat bs div 4"
    and c: "c < NBLKNUM" "bvalid (slots s1 ! c)" "brefcnt (slots s1 ! c) \<noteq> 0" "blk_no (slots s1 ! c) = r"
    and no: "vb (ucast no)" "r \<noteq> ucast no"
  obtains s3 V3 where "bindK (bget c) (\<lambda>b. thenK (bput c (wr32 (4 * j) no b)) (thenK (bwrite c)
      (bindK (getK fs_block_size) (\<lambda>bs. thenK (if zero then zero_data D bs no else retK ())
        (bindK (bget c) (\<lambda>b. thenK (brelse c) (retK (Some (rd32 b (4 * j)))))))))) s1 =
      thenK (brelse c) (retK (Some no)) s3"
    "quietly s1 V3 s3" "\<And>x. x \<noteq> r \<Longrightarrow> x \<noteq> ucast no \<Longrightarrow> V3 x = view content s1 x"
    "\<And>i. i < unat bs div 4 \<Longrightarrow> rd32 (V3 r) (4 * i) = (if i = j then no else rd32 (view content s1 r) (4 * i))"
    "\<And>i. zero \<Longrightarrow> i < unat bs div 4 \<Longrightarrow> rd32 (V3 (ucast no)) (4 * i) = 0"
proof -
  let ?b1 = "bdata (slots s1 ! c)"
  let ?B = "nb (wr32 (4 * j) no ?b1)"
  have v1: "view content s1 r = nb ?b1"
    using view_pinned [OF s1(1) c(1,2)] c(4) by simp
  obtain s2 where s2: "thenK (bput c (wr32 (4 * j) no ?b1)) (bwrite c) s1 = Inr ((), s2)"
      "quietly s1 ((view content s1)(r := ?B)) s2"
    using pinned_write [OF s1(1) c(1,2)] unfolding c(4) by metis
  have bs2: "fs_block_size s2 = bs"
    using fs_more(2) [OF quietD(4) [OF s2(2)]] s1(4) by simp
  have room2: "room (Suc 0) (slots s2)"
    using quiet_room [OF s2(2)] s1(2) by simp
  note v2 = quietD(2) [OF s2(2)]
  have "\<exists>s3 V3. (if zero then zero_data D bs no else retK ()) s2 = Inr ((), s3) \<and> quietly s1 V3 s3 \<and>
      (\<forall>x. x \<noteq> ucast no \<longrightarrow> V3 x = ((view content s1)(r := ?B)) x) \<and>
      (zero \<longrightarrow> (\<forall>i < unat bs div 4. rd32 (V3 (ucast no)) (4 * i) = 0))"
  proof (cases zero)
    case True
    from zero_data_run [OF quietD(1) [OF s2(2)] room2 s1(3) no(1)] obtain s3 b where
      zd: "zero_data D bs no s2 = Inr ((), s3)" "quietly s2 ((view content s2)(ucast no := b)) s3"
        "\<forall>i < unat bs div 4. rd32 b (4 * i) = 0"
      by blast
    show ?thesis
      using zd(1,3) True quiet_trans [OF s2(2) zd(2)] unfolding v2
      by (intro exI [of _ s3] exI [of _ "(view content s1)(r := ?B, ucast no := b)"] conjI) simp_all
  qed (use s2(2) in auto)
  then obtain s3 V3 where s3: "(if zero then zero_data D bs no else retK ()) s2 = Inr ((), s3)" "quietly s1 V3 s3"
      "\<And>x. x \<noteq> ucast no \<Longrightarrow> V3 x = ((view content s1)(r := ?B)) x"
      "\<And>i. zero \<Longrightarrow> i < unat bs div 4 \<Longrightarrow> rd32 (V3 (ucast no)) (4 * i) = 0"
    by blast
  have c3: "bvalid (slots s3 ! c)" "blk_no (slots s3 ! c) = r"
    using quietD(3) [OF s3(2)] c by (simp_all add: calm_def)
  have V3r: "V3 r = ?B"
    using s3(3) no(2) by simp
  then have "nb (bdata (slots s3 ! c)) = ?B"
    using view_pinned [OF quietD(1) [OF s3(2)] c(1) c3(1)] c3(2) quietD(2) [OF s3(2)] by simp
  moreover have four: "4 * i + 4 \<le> BLKSZ" if "i < unat bs div 4" for i
    using mod4_words [OF that s1(3)] by blast
  ultimately have rd: "rd32 (bdata (slots s3 ! c)) (4 * j) = no"
    using rd32_eq [of "bdata (slots s3 ! c)" "wr32 (4 * j) no ?b1" "4 * j"] s1(5) by simp
  have "rd32 (V3 r) (4 * i) = (if i = j then no else rd32 (view content s1 r) (4 * i))" if "i < unat bs div 4" for i
  proof -
    have "i = j \<or> 4 * j + 4 \<le> 4 * i \<or> 4 * i + 4 \<le> 4 * j"
      by linarith
    then show ?thesis
      using four [OF that] unfolding V3r v1 by (auto simp: rd32_nb rd32_wr32_other)
  qed
  moreover have "bindK (bget c) (\<lambda>b. thenK (bput c (wr32 (4 * j) no b)) (thenK (bwrite c)
      (bindK (getK fs_block_size) (\<lambda>bs. thenK (if zero then zero_data D bs no else retK ())
        (bindK (bget c) (\<lambda>b. thenK (brelse c) (retK (Some (rd32 b (4 * j)))))))))) s1 =
      thenK (brelse c) (retK (Some no)) s3"
  proof -
    have "thenK (bput c (wr32 (4 * j) no ?b1)) (thenK (bwrite c) k) s1 = k s2" for k :: "('d fs_state, u32 option) kop"
    proof -
      have "thenK (bput c (wr32 (4 * j) no ?b1)) (thenK (bwrite c) k) s1 =
          bindR (thenK (bput c (wr32 (4 * j) no ?b1)) (bwrite c) s1) (\<lambda>(_, s). k s)"
        by (simp add: thenK_run bput_def)
      then show ?thesis
        unfolding s2(1) by simp
    qed
    then show ?thesis
      using s3(1) rd bs2 by (cases zero) (simp_all add: bindK_run thenK_run bget_def)
  qed
  ultimately show thesis
    using s3 by (intro that [of s3 V3]) simp_all
qed

lemma alloc_ptr_run:
  assumes inv: "file_inv content ok vb sbno p sbi info s0" and room: "room 2 (slots s0)"
    and P: "index_key (unat (fs_block_size s0) div 4) P" "blkref (view content s0) (i_block info) P \<noteq> 0"
    and j: "j < unat (fs_block_size s0) div 4"
    and z: "zero \<longleftrightarrow> index_key (unat (fs_block_size s0) div 4) (Child P j)"
  obtains c s res s' sbi' where "bread D (ucast (blkref (view content s0) (i_block info) P)) s0 = Inr (c, s)"
    "alloc_ptr D c j zero s = Inr (res, s')"
    "res = None \<Longrightarrow> grown content ok vb sbno p {} sbi info s0 sbi' info s' \<and> free_blocks (view content s') sbno sbi' = {}"
    "\<And>no. res = Some no \<Longrightarrow> grown content ok vb sbno p {Child P j} sbi info s0 sbi' info s' \<and> no \<noteq> 0 \<and>
      no = blkref (view content s') (i_block info) (Child P j)"
proof -
  note f = file_invD [OF inv]
  let ?V = "view content s0" and ?bs = "fs_block_size s0" and ?ib = "i_block info"
  let ?n = "unat ?bs div 4" and ?F = "free_blocks (view content s0) sbno sbi"
  let ?M = "meta_blocks ?bs ?V sbno sbi" and ?K = "Child P j" and ?r = "ucast (blkref (view content s0) (i_block info) P) :: u64"
  have room2: "room (Suc (Suc 0)) (slots s0)"
    using room by (simp add: numeral_2_eq_2)
  note w = file_wfD [OF f(5) index_valid [OF P(1)] P(2)]
  have four: "4 * j + 4 \<le> BLKSZ"
    using mod4_words [OF j f(10)] by blast
  obtain c s where s: "bread D ?r s0 = Inr (c, s)" "inv s" "view content s = ?V" "pin c (slots s0) (slots s)"
      "bvalid (slots s ! c)" "blk_no (slots s ! c) = ?r" "nb (bdata (slots s ! c)) = ?V ?r" "bc_state.more s = bc_state.more s0"
    using bread_pin [OF f(6) w(1) room2] by metis
  have c: "c < NBLKNUM" "brefcnt (slots s ! c) \<noteq> 0"
    using s(4) pin_count(2) [OF s(4) room2] by (simp_all add: pin_def)
  have e: "fs_block_size s = ?bs" "inodes s = inodes s0" "infos s = infos s0" "files s = files s0"
    using fs_more [OF s(8)] by simp_all
  let ?e = "rd32 (bdata (slots s ! c)) (4 * j)"
  have entry: "?e = blkref ?V ?ib ?K"
    using P(2) four rd32_nb [of "4 * j" "bdata (slots s ! c)"] unfolding s(7) by simp
  have run: "alloc_ptr D c j zero s = (if ?e \<noteq> 0 then thenK (brelse c) (retK (Some ?e)) s
      else bindK (ext2_alloc_block D) (\<lambda>no. if no = 0 then thenK (brelse c) (retK None)
        else bindK (bget c) (\<lambda>b. thenK (bput c (wr32 (4 * j) no b)) (thenK (bwrite c)
          (bindK (getK fs_block_size) (\<lambda>bs. thenK (if zero then zero_data D bs no else retK ())
            (bindK (bget c) (\<lambda>b. thenK (brelse c) (retK (Some (rd32 b (4 * j))))))))))) s)"
    using four by (simp add: alloc_ptr_def assertK_True bindK_run bget_def)
  show thesis
  proof (cases "?e = 0")
    case False
    obtain s' where s': "brelse c s = Inr ((), s')" "inv s'" "view content s' = ?V" "calm (slots s0) (slots s')"
        "bc_state.more s' = bc_state.more s0"
      using brelse_pin [OF s(2,4) room2 s(5)] s(3,8) by metis
    then have "quietly s0 ?V s'"
      by (simp add: quiet_def)
    then have "grown content ok vb sbno p {?K} sbi info s0 sbi info s'"
      using grown_mono [OF quiet_grown [OF inv]] by blast
    then show thesis
      using run False s'(1,3) entry by (intro that [OF s(1), of "Some ?e" s' sbi]) (simp_all add: thenK_run)
  next
    case hole: True
    have m: "mounted s sbi sbno"
      by (rule mounted_pin [OF f(7) s(4) room2 s(8)])
    have as: "alloc_inv content ok vb sbno sbi s"
      by (rule alloc_inv_same(1) [OF f(1) s(2) m _ e(1)]) (use room_pin [OF s(4) room2] s(3) in simp_all)
    obtain no s1 sbi1 y where "ext2_alloc_block D s = Inr (no, s1)" "alloc_inv content ok vb sbno sbi1 s1"
        "no = 0 \<longleftrightarrow> free_blocks (view content s) sbno sbi = {}" "no \<noteq> 0 \<longrightarrow> unat no \<in> free_blocks (view content s) sbno sbi"
        "free_blocks (view content s1) sbno sbi1 = free_blocks (view content s) sbno sbi - {unat no}"
        "\<forall>x. x \<notin> meta_blocks (fs_block_size s) (view content s) sbno sbi \<longrightarrow> view content s1 x = view content s x"
        "meta_blocks (fs_block_size s) (view content s1) sbno sbi1 = meta_blocks (fs_block_size s) (view content s) sbno sbi"
        "same_layout sbi1 sbi" "calm (slots s) (slots s1)" "bc_state.more s1 = bc_state.more (s\<lparr>fs_private := y\<rparr>)"
      using alloc_block_run [OF block_device_axioms as] by blast
    note a = this [unfolded s(3) e(1)]
    have e1: "fs_block_size s1 = ?bs" "inodes s1 = inodes s0" "infos s1 = infos s0" "files s1 = files s0"
      using fs_more [OF a(10)] e by simp_all
    have i1: "inv s1" "mounted s1 sbi1 sbno" "room (Suc 0) (slots s1)"
      using a(2) by (simp_all add: alloc_inv_def Let_def)
    note p1 = pin_calm_slot [OF s(4) room2 s(5) a(9)]
    show thesis
    proof (cases "no = 0")
      case True
      obtain s2 where s2: "brelse c s1 = Inr ((), s2)" "inv s2" "view content s2 = view content s1"
          "calm (slots s0) (slots s2)" "bc_state.more s2 = bc_state.more s1"
        using brelse_pin [OF i1(1) p1(1) room2 p1(2)] by metis
      have e2: "fs_block_size s2 = ?bs" "inodes s2 = inodes s0" "infos s2 = infos s0" "files s2 = files s0"
        using fs_more [OF s2(5)] e1 by simp_all
      have a2: "alloc_inv content ok vb sbno sbi1 s2"
      proof (rule alloc_inv_same(1) [OF a(2) s2(2) mounted_back [OF f(7) s2(4) i1(2) a(8) s2(5)]])
        show "room 1 (slots s2)"
          using f(8) room_calm [OF s2(4)] by simp
      qed (use e1 e2 s2(3) in simp_all)
      have "grown content ok vb sbno p {} sbi info s0 sbi1 info s2"
        using a(3,5,6,7) True by (intro stay_grown [OF inv a2 e2(1) a(8) _ _ s2(4) e2(2-4)]) (simp_all add: s2(3))
      then show thesis
        using run hole True a(1,3,5) s2(1,3) by (intro that [OF s(1), of None s2 sbi1]) (simp_all add: bindK_run thenK_run)
    next
      case False
      then have no: "unat no \<in> ?F"
        using a(4) by blast
      have nr: "?r \<noteq> ucast no"
        using w(3) no by (auto simp: ucast_u32_inj)
      have c1: "brefcnt (slots s1 ! c) \<noteq> 0" "blk_no (slots s1 ! c) = ?r"
        using a(9) c p1(3) s(6) by (simp_all add: calm_def)
      obtain s3 V3 where l: "bindK (bget c) (\<lambda>b. thenK (bput c (wr32 (4 * j) no b)) (thenK (bwrite c)
          (bindK (getK fs_block_size) (\<lambda>bs. thenK (if zero then zero_data D bs no else retK ())
            (bindK (bget c) (\<lambda>b. thenK (brelse c) (retK (Some (rd32 b (4 * j)))))))))) s1 =
          thenK (brelse c) (retK (Some no)) s3"
        "quietly s1 V3 s3" "\<And>x. x \<noteq> ?r \<Longrightarrow> x \<noteq> ucast no \<Longrightarrow> V3 x = view content s1 x"
        "\<And>i. i < ?n \<Longrightarrow> rd32 (V3 ?r) (4 * i) = (if i = j then no else rd32 (view content s1 ?r) (4 * i))"
        "\<And>i. zero \<Longrightarrow> i < ?n \<Longrightarrow> rd32 (V3 (ucast no)) (4 * i) = 0"
        using link_ptr_run [OF i1(1,3) f(10) e1(1) j c(1) p1(2) c1 f(2) [OF no] nr] by blast
      have calm3: "calm (slots s) (slots s3)"
        by (rule calm_trans [OF a(9) quietD(3) [OF l(2)]])
      note p3 = pin_calm_slot [OF s(4) room2 s(5) calm3]
      obtain s4 where s4: "brelse c s3 = Inr ((), s4)" "inv s4" "view content s4 = V3" "calm (slots s0) (slots s4)"
          "bc_state.more s4 = bc_state.more s1"
        using brelse_pin [OF quietD(1) [OF l(2)] p3(1) room2 p3(2)] quietD(2,4) [OF l(2)] by metis
      have e4: "fs_block_size s4 = ?bs" "inodes s4 = inodes s0" "infos s4 = infos s0" "files s4 = files s0"
        using fs_more [OF s4(5)] e1 by simp_all
      have keep: "V3 x = view content s1 x" if "x \<in> ?M" for x
        using that w(2) f(3) [OF no] by (intro l(3)) auto
      have r4: "room 1 (slots s4)"
        using f(8) room_calm [OF s4(4)] by simp
      have bs4: "fs_block_size s4 = fs_block_size s1"
        using e1 e4 by simp
      have keep4: "view content s4 x = view content s1 x" if "x \<in> meta_blocks (fs_block_size s1) (view content s1) sbno sbi1" for x
        using that keep unfolding e1(1) a(7) s4(3) by simp
      have a4: "alloc_inv content ok vb sbno sbi1 s4" "free_blocks (view content s4) sbno sbi1 = free_blocks (view content s1) sbno sbi1"
          "meta_blocks (fs_block_size s4) (view content s4) sbno sbi1 = meta_blocks (fs_block_size s1) (view content s1) sbno sbi1"
        by (rule alloc_inv_same [OF a(2) s4(2) mounted_back [OF f(7) s4(4) i1(2) a(8) s4(5)] r4 bs4 keep4]; assumption)+
      have K: "valid_key ?n ?K" "blkref ?V ?ib ?K = 0"
        using P(1) j hole entry by simp_all
      have V1r: "view content s1 ?r = ?V ?r"
        using a(6) w(2) by blast
      have other: "view content s4 x = ?V x"
        if "x \<notin> ?M" "x \<noteq> ucast no" "\<And>Q i. ?K = Child Q i \<Longrightarrow> x \<noteq> ucast (blkref ?V ?ib Q)" for x
        using that(1,2) that(3) [of P j] a(6) l(3) unfolding s4(3) by simp
      have zz: "rd32 (view content s4 (ucast no)) (4 * i) = 0" if "index_key ?n ?K" "i < ?n" for i
        using l(5) that z unfolding s4(3) by simp
      have heap: "\<exists>x. inodes s4 p = Some x \<and> infos s4 (i_fs_private x) = Some info"
        using f(4) unfolding e4(2,3) .
      have free4: "free_blocks (view content s4) sbno sbi1 = ?F - {unat no}"
        unfolding a4(2) by (rule a(5))
      have meta4: "meta_blocks ?bs (view content s4) sbno sbi1 = ?M"
        using a4(3) a(7) unfolding e4(1) e1(1) by simp
      have link: "case ?K of Top i \<Rightarrow> ?ib = ?ib[i := no] | Child P j \<Rightarrow> ?ib = ?ib \<and> blkref ?V ?ib P \<noteq> 0 \<and>
          (\<forall>i < ?n. rd32 (view content s4 (ucast (blkref ?V ?ib P))) (4 * i) =
            (if i = j then no else rd32 (?V (ucast (blkref ?V ?ib P))) (4 * i)))"
        using P(2) l(4) unfolding s4(3) V1r by simp
      have gi: "file_inv content ok vb sbno p sbi1 info s4" "same_data ?n {?K} ?V ?ib (view content s4) ?ib"
          "blkref (view content s4) ?ib ?K = no"
          "valid_key ?n L \<Longrightarrow> L \<noteq> ?K \<Longrightarrow> blkref (view content s4) ?ib L = blkref ?V ?ib L"
          "confined content sbno sbi info s0 sbi1 info s4" for L
        by (rule grow_inv [OF inv K a4(1) e4(1) no free4 meta4 heap link other zz]; assumption)+
      have "grown content ok vb sbno p {?K} sbi info s0 sbi1 info s4"
        using gi(1,2,4,5) e4(1) a(8) s4(4) kept_same [OF e4(2-4)] by (simp add: grown_def Let_def)
      moreover have "alloc_ptr D c j zero s = Inr (Some no, s4)"
        using run hole False a(1) l(1) s4(1) by (simp add: bindK_run thenK_run)
      ultimately show thesis
        using gi(3) False by (intro that [OF s(1), of "Some no" s4 sbi1]) simp_all
    qed
  qed
qed

section \<open>Writing a block\<close>

lemma write_key_run:
  assumes inv: "file_inv content ok vb sbno p sbi info s" and b: "b < max_blocks (unat (fs_block_size s) div 4)"
    and ref: "blkref (view content s) (i_block info) (data_key (unat (fs_block_size s) div 4) b) = no" and "no \<noteq> 0"
  obtains s' where "write_data D (fs_block_size s) no buf s = Inr (0, s')"
    "grown content ok vb sbno p {data_key (unat (fs_block_size s) div 4) b} sbi info s sbi info s'"
    "file_block (unat (fs_block_size s)) (view content s') (i_block info) b = (\<lambda>i. if i < unat (fs_block_size s) then buf i else 0)"
proof -
  note f = file_invD [OF inv]
  let ?V = "view content s" and ?bs = "fs_block_size s" and ?ib = "i_block info"
  let ?n = "unat ?bs div 4"
  let ?K = "data_key ?n b" and ?W = "?V(ucast no := (\<lambda>i. if i < unat (fs_block_size s) then buf i else ?V (ucast no) i))"
  have K: "valid_key ?n ?K" "\<not> index_key ?n ?K" "blkref ?V ?ib ?K \<noteq> 0"
    using data_key_valid [OF b] ref \<open>no \<noteq> 0\<close> by simp_all
  note w = file_wfD [OF f(5) K(1,3)]
  obtain s' where s': "write_data D ?bs no buf s = Inr (0, s')" "quietly s ?W s'"
    using write_data_run [OF f(6) _ f(10), of no buf] f(8) w(1) ref by auto
  have other: "?W (ucast (blkref ?V ?ib L)) = ?V (ucast (blkref ?V ?ib L))"
    if "valid_key ?n L" "L \<noteq> ?K" for L
    using w(4) [OF that(1)] that(2) ref by (auto simp: ucast_u32_inj)
  have r: "blkref ?W ?ib L = blkref ?V ?ib L" if "valid_key ?n L" for L
  proof (rule blkref_cong [OF _ that])
    fix Q j
    assume Q: "index_key ?n Q"
    then have ne: "Q \<noteq> ?K"
      using K(2) by blast
    show "rd32 (?W (ucast (blkref ?V ?ib Q))) (4 * j) = rd32 (?V (ucast (blkref ?V ?ib Q))) (4 * j)"
      by (rule arg_cong [where f = "\<lambda>m. rd32 m (4 * j)", OF other [OF index_valid [OF Q] ne]])
  qed
  have meta: "?W x = ?V x" if "x \<in> meta_blocks ?bs ?V sbno sbi" for x
    using w(2) that unfolding ref by auto
  have a: "alloc_inv content ok vb sbno sbi s'"
    by (rule alloc_inv_quiet(1) [OF f(1) s'(2) meta])
  have m: "free_blocks ?W sbno sbi = free_blocks ?V sbno sbi" "meta_blocks ?bs ?W sbno sbi = meta_blocks ?bs ?V sbno sbi"
    by (rule alloc_inv_quiet [OF f(1) s'(2) meta]; assumption)+
  note q = quietD [OF s'(2)] and e = fs_more [OF quietD(4) [OF s'(2)]]
  have "file_inv content ok vb sbno p sbi info s'"
  proof (rule file_inv_same [OF inv q(1) mounted_quiet [OF s'(2) f(7)] _ e(2,4,5)])
    show "room 1 (slots s')"
      using f(8) quiet_room [OF s'(2)] by simp
    show "view content s' x = ?V x" if "x \<in> meta_blocks ?bs ?V sbno sbi" for x
      unfolding q(2) by (rule meta [OF that])
    show "blkref (view content s') ?ib L = blkref ?V ?ib L" if "valid_key ?n L" for L
      unfolding q(2) by (rule r [OF that])
  qed
  moreover have "same_data ?n {?K} ?V ?ib (view content s') ?ib"
    unfolding same_data_def q(2) by (intro allI impI conjI r other) simp_all
  moreover have conf: "confined content sbno sbi info s sbi info s'"
    unfolding confined_def
  proof (intro conjI allI impI)
    show "own content sbno sbi info s' \<subseteq> own content sbno sbi info s"
      using r by (intro own_mono [OF e(2)]) (simp_all add: q(2) m(1))
    show "meta_blocks (fs_block_size s') (view content s') sbno sbi = meta_blocks ?bs ?V sbno sbi"
      by (simp add: q(2) e(2) m(2))
    show "view content s' x = ?V x" if "x \<notin> own content sbno sbi info s" for x
      using own_ref [OF K(1,3), of sbno sbi] that unfolding q(2) ref by auto
  qed
  ultimately have "grown content ok vb sbno p {?K} sbi info s sbi info s'"
    unfolding grown_def Let_def by (intro conjI e(2) q(3) conf same_layout_refl kept_same [OF e(4-6)] allI impI) (simp_all only: q(2) r)
  moreover have "file_block (unat ?bs) (view content s') ?ib b = (\<lambda>i. if i < unat ?bs then buf i else 0)"
    unfolding file_block_def q(2) Let_def r [OF K(1)] ref using \<open>no \<noteq> 0\<close> by (simp add: fun_eq_iff)
  ultimately show thesis
    using s'(1) by (intro that)
qed

end

text \<open>What \<open>ext2_write_block\<close> of block \<open>b\<close> with the contents \<open>buf\<close> promises.\<close>

definition wrote :: "('d \<Rightarrow> u64 \<Rightarrow> blk) \<Rightarrow> ('d \<Rightarrow> bool) \<Rightarrow> (u64 \<Rightarrow> bool) \<Rightarrow> u64 \<Rightarrow> u64 \<Rightarrow> nat \<Rightarrow> blk \<Rightarrow>
    sb_info \<Rightarrow> inode_info \<Rightarrow> 'd fs_state \<Rightarrow> i32 \<Rightarrow> 'd fs_state \<Rightarrow> sb_info \<Rightarrow> inode_info \<Rightarrow> bool" where
  "wrote content ok vb sbno p b buf sbi info s r s' sbi' info' \<longleftrightarrow>
     (let bs = unat (fs_block_size s); V = view content s; V' = view content s' in
      file_inv content ok vb sbno p sbi' info' s' \<and> fs_block_size s' = fs_block_size s \<and> calm (slots s) (slots s') \<and>
      same_layout sbi' sbi \<and> confined content sbno sbi info s sbi' info' s' \<and> kept p info s info' s' \<and>
      (r = 0 \<and> b < max_blocks (bs div 4) \<and> file_block bs V' (i_block info') b = (\<lambda>i. if i < bs then buf i else 0) \<or>
       r = - 1 \<and> (b < max_blocks (bs div 4) \<longrightarrow> free_blocks V' sbno sbi' = {})) \<and>
      (\<forall>c < max_blocks (bs div 4). c \<noteq> b \<or> r \<noteq> 0 \<longrightarrow> file_block bs V' (i_block info') c = file_block bs V (i_block info) c))"

lemma wroteI:
  assumes "grown content ok vb sbno p S sbi info s sbi' info' s'" and "b < max_blocks (unat (fs_block_size s) div 4)"
    and "r = 0 \<and> S \<subseteq> insert (data_key (unat (fs_block_size s) div 4) b) {K. index_key (unat (fs_block_size s) div 4) K} \<and>
        file_block (unat (fs_block_size s)) (view content s') (i_block info') b = (\<lambda>i. if i < unat (fs_block_size s) then buf i else 0) \<or>
      r = - 1 \<and> S \<subseteq> {K. index_key (unat (fs_block_size s) div 4) K} \<and> free_blocks (view content s') sbno sbi' = {}"
  shows "wrote content ok vb sbno p b buf sbi info s r s' sbi' info'"
proof -
  let ?n = "unat (fs_block_size s) div 4"
  note g = grownD [OF assms(1)]
  have S: "S \<subseteq> insert (data_key ?n b) {K. index_key ?n K}" "r \<noteq> 0 \<Longrightarrow> S \<subseteq> {K. index_key ?n K}"
  proof -
    consider "r = 0" "S \<subseteq> insert (data_key ?n b) {K. index_key ?n K}" | "r = - 1" "S \<subseteq> {K. index_key ?n K}"
      using assms(3) by (elim disjE conjE) (rule that; assumption)+
    then show "S \<subseteq> insert (data_key ?n b) {K. index_key ?n K}" "r \<noteq> 0 \<Longrightarrow> S \<subseteq> {K. index_key ?n K}"
      by (cases; blast)+
  qed
  have keep: "file_block (unat (fs_block_size s)) (view content s') (i_block info') c =
      file_block (unat (fs_block_size s)) (view content s) (i_block info) c"
    if c: "c < max_blocks ?n" and cb: "c \<noteq> b \<or> r \<noteq> 0" for c
  proof (rule same_data_block [OF g(2) c], rule notI)
    assume "data_key ?n c \<in> S"
    then have "r = 0" "data_key ?n c = data_key ?n b"
      using S data_key_valid [OF c] by blast+
    then show False
      using cb data_key_inj [OF c assms(2)] by simp
  qed
  show ?thesis
    unfolding wrote_def Let_def
  proof (intro conjI g(1,3,4,5,7,8) allI impI)
    show "r = 0 \<and> b < max_blocks ?n \<and>
        file_block (unat (fs_block_size s)) (view content s') (i_block info') b = (\<lambda>i. if i < unat (fs_block_size s) then buf i else 0) \<or>
      r = - 1 \<and> (b < max_blocks ?n \<longrightarrow> free_blocks (view content s') sbno sbi' = {})"
      using assms(2,3) by (elim disjE) simp_all
  qed (rule keep)
qed

text \<open>The last step, once the block has a place.\<close>

context block_device
begin

lemma write_finish:
  assumes g: "grown content ok vb sbno p S sbi info s sbi1 info1 s1" and b: "b < max_blocks (unat (fs_block_size s) div 4)"
    and S: "S \<subseteq> insert (data_key (unat (fs_block_size s) div 4) b) {K. index_key (unat (fs_block_size s) div 4) K}"
    and no: "blkref (view content s1) (i_block info1) (data_key (unat (fs_block_size s) div 4) b) = no" "no \<noteq> 0"
  shows "\<exists>s'. write_data D (fs_block_size s) no buf s1 = Inr (0, s') \<and> wrote content ok vb sbno p b buf sbi info s 0 s' sbi1 info1"
proof -
  note d = grownD [OF g]
  from write_key_run [OF d(1), of b no buf, unfolded d(3), OF b no] obtain s' where
    w: "write_data D (fs_block_size s) no buf s1 = Inr (0, s')"
      "grown content ok vb sbno p {data_key (unat (fs_block_size s) div 4) b} sbi1 info1 s1 sbi1 info1 s'"
      "file_block (unat (fs_block_size s)) (view content s') (i_block info1) b =
        (\<lambda>i. if i < unat (fs_block_size s) then buf i else 0)"
    by blast
  from w(3) S have "wrote content ok vb sbno p b buf sbi info s 0 s' sbi1 info1"
    by (intro wroteI [OF grown_trans [OF g w(2)] b] disjI1 conjI refl) simp_all
  with w(1) show ?thesis
    by blast
qed

text \<open>A data block below an index block that is already there.\<close>

lemma write_below_run:
  assumes g: "grown content ok vb sbno p S sbi info s sbi1 info1 s1" and b: "b < max_blocks (unat (fs_block_size s) div 4)"
    and S: "S \<subseteq> {K. index_key (unat (fs_block_size s) div 4) K}" and room: "room 2 (slots s)"
    and K: "data_key (unat (fs_block_size s) div 4) b = Child P j" and P: "blkref (view content s1) (i_block info1) P \<noteq> 0"
  shows "\<exists>r s' sbi' info'. bindK (bread D (ucast (blkref (view content s1) (i_block info1) P))) (\<lambda>c. bindK (alloc_ptr D c j False)
      (\<lambda>r. case r of None \<Rightarrow> retK (- 1) | Some no \<Rightarrow> write_data D (fs_block_size s) no buf)) s1 = Inr (r, s') \<and>
    wrote content ok vb sbno p b buf sbi info s r s' sbi' info'"
proof -
  let ?n = "unat (fs_block_size s) div 4"
  note d = grownD [OF g]
  have v: "index_key ?n P" "j < ?n" "\<not> index_key ?n (Child P j)"
    using data_key_valid [OF b] unfolding K by simp_all
  have room1: "room 2 (slots s1)"
    using room room_calm [OF d(5)] by simp
  have z: "False \<longleftrightarrow> index_key ?n (Child P j)"
    using v(3) by simp
  obtain c s2 res s3 sbi3 where
    a: "bread D (ucast (blkref (view content s1) (i_block info1) P)) s1 = Inr (c, s2)" "alloc_ptr D c j False s2 = Inr (res, s3)"
      "res = None \<Longrightarrow> grown content ok vb sbno p {} sbi1 info1 s1 sbi3 info1 s3 \<and> free_blocks (view content s3) sbno sbi3 = {}"
      "\<And>no. res = Some no \<Longrightarrow> grown content ok vb sbno p {Child P j} sbi1 info1 s1 sbi3 info1 s3 \<and> no \<noteq> 0 \<and>
        no = blkref (view content s3) (i_block info1) (Child P j)"
    by (rule alloc_ptr_run [OF d(1) room1, unfolded d(3), OF v(1) P v(2) z]) (rule that; assumption)
  show ?thesis
  proof (cases res)
    case None
    then have h: "grown content ok vb sbno p {} sbi1 info1 s1 sbi3 info1 s3" "free_blocks (view content s3) sbno sbi3 = {}"
      using a(3) by simp_all
    have "wrote content ok vb sbno p b buf sbi info s (- 1) s3 sbi3 info1"
      using S h(2) by (intro wroteI [OF grown_trans [OF g h(1)] b] disjI2 conjI refl) simp_all
    then show ?thesis
      using a(1,2) None by (auto simp: bindK_run)
  next
    case (Some no)
    then have h: "grown content ok vb sbno p {Child P j} sbi1 info1 s1 sbi3 info1 s3" "no \<noteq> 0"
        "blkref (view content s3) (i_block info1) (data_key ?n b) = no"
      using a(4) [OF Some] unfolding K by blast+
    have "S \<union> {Child P j} \<subseteq> insert (data_key ?n b) {K. index_key ?n K}"
      using S K by auto
    from write_finish [OF grown_trans [OF g h(1)] b this h(3,2), of buf] show ?thesis
      using a(1,2) Some by (auto simp: bindK_run)
  qed
qed

lemma get_info_run:
  assumes "file_inv content ok vb sbno p sbi info s"
  shows "bindK (get_inode p) (\<lambda>x. bindK (get_info (i_fs_private x)) f) s = f info s"
  using file_invD(4) [OF assms] by (auto simp: bindK_run get_inode_def get_info_def needK_run)

lemma write_block_run:
  assumes inv: "file_inv content ok vb sbno p sbi info s" and room: "room 2 (slots s)"
  shows "\<exists>r s' sbi' info'. ext2_write_block D p lbk buf s = Inr (r, s') \<and>
    wrote content ok vb sbno p (unat lbk) buf sbi info s r s' sbi' info'"
proof -
  note f = file_invD [OF inv]
  let ?bs = "fs_block_size s"
  let ?n = "unat ?bs div 4" and ?b = "unat lbk"
  note w = lbk_words [OF f(10), of lbk]
  have fail: "wrote content ok vb sbno p ?b buf sbi info s (- 1) s1 sbi1 info1"
    if "grown content ok vb sbno p {} sbi info s sbi1 info1 s1 \<and> free_blocks (view content s1) sbno sbi1 = {}" "?b < max_blocks ?n"
    for s1 sbi1 info1
    using that(1) by (intro wroteI [OF conjunct1 [OF that(1)] that(2)] disjI2 conjI refl) simp_all
  consider (direct) "?b < 12" | (ind) "\<not> ?b < 12" "?b - 12 < ?n"
    | (dind) "\<not> ?b < 12" "\<not> ?b - 12 < ?n" "?b - 12 - ?n < ?n * ?n"
    | (out) "\<not> ?b < 12" "\<not> ?b - 12 < ?n" "\<not> ?b - 12 - ?n < ?n * ?n"
    by blast
  then show ?thesis
  proof cases
    case direct
    then have K: "data_key ?n ?b = Top ?b" and m: "?b < max_blocks ?n" and i: "?b < 14" "False \<longleftrightarrow> ?b = 12 \<or> ?b = 13"
      by (auto simp: data_key_def max_blocks_def)
    obtain got s1 sbi1 info1 where a: "alloc_iblock D p ?b False s = Inr (got, s1)"
        "got \<Longrightarrow> grown content ok vb sbno p {Top ?b} sbi info s sbi1 info1 s1 \<and> i_block info1 ! ?b \<noteq> 0"
        "\<not> got \<Longrightarrow> grown content ok vb sbno p {} sbi info s sbi1 info1 s1 \<and> free_blocks (view content s1) sbno sbi1 = {}"
      by (rule alloc_iblock_run [OF inv i]) (rule that; assumption)
    have run: "ext2_write_block D p lbk buf s = (if \<not> got then retK (- 1) else bindK (get_inode p) (\<lambda>x.
        bindK (get_info (i_fs_private x)) (\<lambda>info. write_data D ?bs (i_block info ! ?b) buf))) s1"
      using direct a(1) by (simp add: ext2_write_block_def bindK_run w(1))
    show ?thesis
    proof (cases got)
      case False
      then show ?thesis
        using run fail [OF a(3) m] by auto
    next
      case True
      then have g: "grown content ok vb sbno p {Top ?b} sbi info s sbi1 info1 s1" and nz: "i_block info1 ! ?b \<noteq> 0"
        using a(2) by simp_all
      have "\<exists>s'. write_data D ?bs (i_block info1 ! ?b) buf s1 = Inr (0, s') \<and>
          wrote content ok vb sbno p ?b buf sbi info s 0 s' sbi1 info1"
        using nz by (intro write_finish [OF g m]) (simp_all add: K)
      then show ?thesis
        using run True by (auto simp: get_info_run [OF grownD(1) [OF g]])
    qed
  next
    case ind
    then have K: "data_key ?n ?b = Child (Top 12) (?b - 12)" and m: "?b < max_blocks ?n"
      by (auto simp: data_key_def max_blocks_def)
    obtain got s1 sbi1 info1 where a: "alloc_iblock D p 12 True s = Inr (got, s1)"
        "got \<Longrightarrow> grown content ok vb sbno p {Top 12} sbi info s sbi1 info1 s1 \<and> i_block info1 ! 12 \<noteq> 0"
        "\<not> got \<Longrightarrow> grown content ok vb sbno p {} sbi info s sbi1 info1 s1 \<and> free_blocks (view content s1) sbno sbi1 = {}"
      by (rule alloc_iblock_run [OF inv, of 12 True]) (simp, simp, (rule that; assumption))
    have run: "ext2_write_block D p lbk buf s = (if \<not> got then retK (- 1) else bindK (get_inode p) (\<lambda>x.
        bindK (get_info (i_fs_private x)) (\<lambda>info. bindK (bread D (ucast (i_block info ! 12))) (\<lambda>c.
          bindK (alloc_ptr D c (?b - 12) False) (\<lambda>r. case r of None \<Rightarrow> retK (- 1) | Some no \<Rightarrow> write_data D ?bs no buf))))) s1"
      using ind a(1) by (simp add: ext2_write_block_def bindK_run w(1-3) ext2_consts Let_def)
    show ?thesis
    proof (cases got)
      case False
      then show ?thesis
        using run fail [OF a(3) m] by auto
    next
      case True
      then have g: "grown content ok vb sbno p {Top 12} sbi info s sbi1 info1 s1" and nz: "i_block info1 ! 12 \<noteq> 0"
        using a(2) by simp_all
      from write_below_run [OF g m _ room K, of buf] nz show ?thesis
        using run True by (simp add: get_info_run [OF grownD(1) [OF g]])
    qed
  next
    case dind
    let ?i = "(?b - 12 - ?n) div ?n" and ?j = "(?b - 12 - ?n) mod ?n"
    have K: "data_key ?n ?b = Child (Child (Top 13) ?i) ?j" and m: "?b < max_blocks ?n"
      using dind by (auto simp: data_key_def max_blocks_def)
    have i: "?i < ?n"
      using data_key_valid [OF m] K by auto
    obtain got s1 sbi1 info1 where a: "alloc_iblock D p 13 True s = Inr (got, s1)"
        "got \<Longrightarrow> grown content ok vb sbno p {Top 13} sbi info s sbi1 info1 s1 \<and> i_block info1 ! 13 \<noteq> 0"
        "\<not> got \<Longrightarrow> grown content ok vb sbno p {} sbi info s sbi1 info1 s1 \<and> free_blocks (view content s1) sbno sbi1 = {}"
      by (rule alloc_iblock_run [OF inv, of 13 True]) (simp, simp, (rule that; assumption))
    have run: "ext2_write_block D p lbk buf s = (if \<not> got then retK (- 1) else bindK (get_inode p) (\<lambda>x.
        bindK (get_info (i_fs_private x)) (\<lambda>info. bindK (bread D (ucast (i_block info ! 13))) (\<lambda>c.
          bindK (alloc_ptr D c ?i True) (\<lambda>r. case r of None \<Rightarrow> retK (- 1) | Some ind_blk \<Rightarrow>
            bindK (bread D (ucast ind_blk)) (\<lambda>c. bindK (alloc_ptr D c ?j False) (\<lambda>r.
              case r of None \<Rightarrow> retK (- 1) | Some no \<Rightarrow> write_data D ?bs no buf))))))) s1"
      using dind a(1) by (simp add: ext2_write_block_def bindK_run w ext2_consts Let_def)
    show ?thesis
    proof (cases got)
      case False
      then show ?thesis
        using run fail [OF a(3) m] by auto
    next
      case True
      then have g: "grown content ok vb sbno p {Top 13} sbi info s sbi1 info1 s1" and nz: "i_block info1 ! 13 \<noteq> 0"
        using a(2) by simp_all
      have r1: "ext2_write_block D p lbk buf s = bindK (bread D (ucast (i_block info1 ! 13))) (\<lambda>c.
          bindK (alloc_ptr D c ?i True) (\<lambda>r. case r of None \<Rightarrow> retK (- 1) | Some ind_blk \<Rightarrow>
            bindK (bread D (ucast ind_blk)) (\<lambda>c. bindK (alloc_ptr D c ?j False) (\<lambda>r.
              case r of None \<Rightarrow> retK (- 1) | Some no \<Rightarrow> write_data D ?bs no buf)))) s1"
        unfolding run using True by (simp only: not_True_eq_False if_False get_info_run [OF grownD(1) [OF g]])
      have room1: "room 2 (slots s1)"
        using room room_calm [OF grownD(5) [OF g]] by simp
      have P: "index_key ?n (Top 13)" "blkref (view content s1) (i_block info1) (Top 13) \<noteq> 0" "True \<longleftrightarrow> index_key ?n (Child (Top 13) ?i)"
        using nz i by simp_all
      obtain c s2 res s3 sbi3 where
        b: "bread D (ucast (blkref (view content s1) (i_block info1) (Top 13))) s1 = Inr (c, s2)" "alloc_ptr D c ?i True s2 = Inr (res, s3)"
          "res = None \<Longrightarrow> grown content ok vb sbno p {} sbi1 info1 s1 sbi3 info1 s3 \<and> free_blocks (view content s3) sbno sbi3 = {}"
          "\<And>no. res = Some no \<Longrightarrow> grown content ok vb sbno p {Child (Top 13) ?i} sbi1 info1 s1 sbi3 info1 s3 \<and> no \<noteq> 0 \<and>
            no = blkref (view content s3) (i_block info1) (Child (Top 13) ?i)"
        by (rule alloc_ptr_run [OF grownD(1) [OF g] room1, unfolded grownD(3) [OF g], OF P(1,2) i P(3)]) (rule that; assumption)
      show ?thesis
      proof (cases res)
        case None
        then have h: "grown content ok vb sbno p {} sbi1 info1 s1 sbi3 info1 s3" "free_blocks (view content s3) sbno sbi3 = {}"
          using b(3) by simp_all
        have "wrote content ok vb sbno p ?b buf sbi info s (- 1) s3 sbi3 info1"
          using h(2) by (intro wroteI [OF grown_trans [OF g h(1)] m] disjI2 conjI refl) simp_all
        then show ?thesis
          using r1 b(1,2) None by (auto simp: bindK_run)
      next
        case (Some no)
        then have h: "grown content ok vb sbno p {Child (Top 13) ?i} sbi1 info1 s1 sbi3 info1 s3" "no \<noteq> 0"
            "no = blkref (view content s3) (i_block info1) (Child (Top 13) ?i)"
          using b(4) by blast+
        have "{Top 13} \<union> {Child (Top 13) ?i} \<subseteq> {K. index_key ?n K}"
          using i by simp
        from write_below_run [OF grown_trans [OF g h(1)] m this room K h(2) [unfolded h(3)], of buf, folded h(3)] show ?thesis
          using r1 b(1,2) Some by (simp add: bindK_run)
      qed
    qed
  next
    case out
    then have "ext2_write_block D p lbk buf s = Inr (- 1, s)"
      by (simp add: ext2_write_block_def bindK_run w ext2_consts Let_def)
    moreover have "\<not> ?b < max_blocks ?n"
      using out unfolding max_blocks_def by linarith
    then have "wrote content ok vb sbno p ?b buf sbi info s (- 1) s sbi info"
      using inv by (simp add: wrote_def Let_def confined_refl kept_same)
    ultimately show ?thesis
      by blast
  qed
qed

end

section \<open>Properties\<close>

text \<open>
  Reading a block of a file: for a block within the reach of the direct, indirect and double
  indirect pointers \<open>ext2_read_block\<close> returns 0 and fills the buffer with the contents the
  pointer tree gives the block, zeros for a hole; beyond, it returns -1 and leaves the buffer
  alone. Nothing the file system sees changes.
\<close>

theorem ext2_read_block_correct:
  assumes "block_device D content ok vb" and "file_inv content ok vb sbno p sbi info s"
  shows "\<exists>s'. ext2_read_block D p lbk buf s =
      Inr (if unat lbk < max_blocks (unat (fs_block_size s) div 4)
        then (0, with_block (unat (fs_block_size s)) (view content s) (i_block info) (unat lbk) buf) else (- 1, buf), s') \<and>
    quiet content ok vb s (view content s) s'"
proof -
  note f = file_invD [OF assms(2)]
  have "room (Suc 0) (slots s)"
    using f(8) by simp
  with f(4) show ?thesis
    using block_device.read_block_run [OF assms(1) f(6) _ f(10) _ _ f(5)] by blast
qed

text \<open>
  C3: writing a block of a file, with the allocation of the block and of the index blocks above
  it: \<open>ext2_write_block\<close> returns 0 and the block then has exactly the new contents, or it returns
  -1 because the disk is full or the block is out of reach. Every other block of the file keeps
  its contents in either case, no block comes to be at two positions of the pointer tree, free,
  or part of the metadata, the allocator's invariant holds, and pinned buffers stay pinned. Only
  blocks of the allocator, free blocks and blocks of the file change.
\<close>

theorem ext2_write_block_correct:
  assumes "block_device D content ok vb" and "file_inv content ok vb sbno p sbi info s" and "room 2 (slots s)"
  shows "\<exists>r s' sbi' info'. ext2_write_block D p lbk buf s = Inr (r, s') \<and>
    wrote content ok vb sbno p (unat lbk) buf sbi info s r s' sbi' info'"
  by (rule block_device.write_block_run [OF assms])

text \<open>
  C9: what was written is read back: after a successful \<open>ext2_write_block\<close> of block \<open>lbk\<close>,
  \<open>ext2_read_block\<close> of that block returns the bytes written, and of any other block the bytes it
  would have returned before.
\<close>

theorem file_block_roundtrip:
  assumes D: "block_device D content ok vb" and inv: "file_inv content ok vb sbno p sbi info s" and "room 2 (slots s)"
    and w: "ext2_write_block D p lbk buf s = Inr (0, s1)" and c: "unat c < max_blocks (unat (fs_block_size s) div 4)"
  shows "\<exists>s2. ext2_read_block D p c buf2 s1 = Inr ((0, \<lambda>i. if i < unat (fs_block_size s)
      then (if c = lbk then buf i else file_block (unat (fs_block_size s)) (view content s) (i_block info) (unat c) i)
      else buf2 i), s2)"
proof -
  obtain sbi1 info1 where "wrote content ok vb sbno p (unat lbk) buf sbi info s 0 s1 sbi1 info1"
    using block_device.write_block_run [OF assms(1-3), of lbk buf] w by auto
  then have i1: "file_inv content ok vb sbno p sbi1 info1 s1" and bs: "fs_block_size s1 = fs_block_size s"
    and here: "file_block (unat (fs_block_size s)) (view content s1) (i_block info1) (unat lbk) =
      (\<lambda>i. if i < unat (fs_block_size s) then buf i else 0)"
    and there: "\<And>c. c < max_blocks (unat (fs_block_size s) div 4) \<Longrightarrow> c \<noteq> unat lbk \<Longrightarrow>
      file_block (unat (fs_block_size s)) (view content s1) (i_block info1) c =
      file_block (unat (fs_block_size s)) (view content s) (i_block info) c"
    by (auto simp: wrote_def Let_def)
  note f = file_invD [OF i1]
  obtain x where x: "inodes s1 p = Some x" "infos s1 (i_fs_private x) = Some info1"
    using f(4) by blast
  have "room (Suc 0) (slots s1)"
    using f(8) by simp
  from block_device.read_block_run [OF D f(6) this f(10) x f(5), of c buf2] obtain s2 where
    r: "ext2_read_block D p c buf2 s1 =
      Inr ((0, with_block (unat (fs_block_size s)) (view content s1) (i_block info1) (unat c) buf2), s2)"
    using c unfolding bs by auto
  have "with_block (unat (fs_block_size s)) (view content s1) (i_block info1) (unat c) buf2 =
      (\<lambda>i. if i < unat (fs_block_size s)
      then (if c = lbk then buf i else file_block (unat (fs_block_size s)) (view content s) (i_block info) (unat c) i)
      else buf2 i)"
  proof (cases "c = lbk")
    case True
    then show ?thesis
      by (simp add: with_block_def here fun_eq_iff)
  next
    case False
    then have "unat c \<noteq> unat lbk"
      using word_eq_unatI by blast
    then show ?thesis
      using False there [OF c] by (simp add: with_block_def fun_eq_iff)
  qed
  with r show ?thesis
    by auto
qed

text \<open>The small volume of \<open>FreeMap\<close> with one file, whose first block is block 9 of the volume.\<close>

definition small_info :: inode_info where
  "small_info = \<lparr>i_block = (replicate 15 0)[0 := 9], i_flags = 0\<rparr>"

definition small_file :: "(u64 \<Rightarrow> blk) fs_state" where
  "small_file = small_fs
     \<lparr>inodes := [0x1000 \<mapsto> \<lparr>i_ino = 12, i_type = INODE_FILE, i_mode = 0x81A4, i_uid = 0, i_gid = 0, i_size = 0, i_nlinks = 1,
        i_ref = 1, i_dirty = False, i_valid = True, i_fops = Some ext2_file_ops, i_fs_private = 0x2000\<rparr>],
      infos := [0x2000 \<mapsto> small_info]\<rparr>"

lemma small_blkref: "valid_key n K \<Longrightarrow> blkref V (i_block small_info) K = (if K = Top 0 then 9 else 0)"
  by (induction K) (auto simp: small_info_def nth_list_update nth_replicate valid_key_def index_key_def)

lemma small_free_no: "unat (no :: u32) \<in> {5, 6} \<Longrightarrow> no = 5 \<or> no = 6"
  by (auto intro: word_eq_unatI)

lemma small_file_inv: "file_inv ram_content (\<lambda>_. True) (\<lambda>_. True) 0 0x1000 small_sbi small_info small_file"
proof -
  have v: "view ram_content small_file = view ram_content small_fs" and bs: "fs_block_size small_file = 4096"
    by (simp_all add: small_file_def) (simp add: small_fs_def)
  have "alloc_inv ram_content (\<lambda>_. True) (\<lambda>_. True) 0 small_sbi small_file"
    unfolding small_file_def using small_alloc_inv by simp
  moreover have "ucast no \<notin> meta_blocks 4096 (view ram_content small_fs) 0 small_sbi" if "unat (no :: u32) \<in> {5, 6}" for no
    using small_free_no [OF that] by (auto simp: meta_blocks_def small_fields)
  moreover have "file_wf (\<lambda>_. True) (meta_blocks 4096 (view ram_content small_fs) 0 small_sbi) {5, 6} n V (i_block small_info)"
    for n V
    unfolding file_wf_def
    by (auto simp: small_blkref meta_blocks_def small_fields split: if_splits)
      (simp_all add: small_info_def EXT2_N_BLOCKS_def)
  ultimately show ?thesis
    unfolding file_inv_def Let_def v bs small_free by (simp add: small_file_def)
qed

lemma small_file_room: "room 2 (slots small_file)"
proof -
  have s: "slots small_file = slots small_fs"
    by (simp add: small_file_def)
  have "{1, 2} \<subseteq> {i. i < NBLKNUM \<and> brefcnt (slots small_fs ! i) = 0}"
    using small_slots [of 1] small_slots [of 2] by (simp add: NBLKNUM_def)
  from card_mono [OF _ this] have "2 \<le> card {i. i < NBLKNUM \<and> brefcnt (slots small_fs ! i) = 0}"
    by simp
  moreover have "unat (brefcnt (slots small_fs ! i)) + 2 < 2147483648" if "i < NBLKNUM" for i
    using small_slots [of i] that by (simp add: NBLKNUM_def)
  ultimately show ?thesis
    by (simp add: room_def s)
qed

lemma ext2_read_block_correct_witness:
  "\<exists>s'. ext2_read_block ram_disk 0x1000 7 (\<lambda>_. 1) small_file = Inr ((0, \<lambda>i. if i < 4096 then 0 else 1), s')"
proof -
  have bs: "fs_block_size small_file = 4096"
    by (simp add: small_file_def small_fs_def)
  have b: "with_block 4096 V (i_block small_info) 7 (\<lambda>_. 1) = (\<lambda>i. if i < 4096 then 0 else 1)" for V
    by (simp add: with_block_def file_block_def data_key_def small_info_def Let_def fun_eq_iff)
  show ?thesis
    using ext2_read_block_correct [OF ram_disk small_file_inv, of 7 "\<lambda>_. 1"] by (auto simp: bs b max_blocks_def)
qed

lemma ext2_write_block_correct_witness:
  "\<exists>r s' sbi' info'. ext2_write_block ram_disk 0x1000 4 (\<lambda>_. 7) small_file = Inr (r, s') \<and>
    wrote ram_content (\<lambda>_. True) (\<lambda>_. True) 0 0x1000 4 (\<lambda>_. 7) small_sbi small_info small_file r s' sbi' info'"
  using ext2_write_block_correct [OF ram_disk small_file_inv small_file_room, of 4 "\<lambda>_. 7"] by simp

lemma file_block_roundtrip_witness:
  "\<exists>s1 s2. ext2_write_block ram_disk 0x1000 0 (\<lambda>_. 7) small_file = Inr (0, s1) \<and>
    ext2_read_block ram_disk 0x1000 0 (\<lambda>_. 1) s1 = Inr ((0, \<lambda>i. if i < 4096 then 7 else 1), s2)"
proof -
  have bs: "fs_block_size small_file = 4096"
    by (simp add: small_file_def small_fs_def)
  have ref: "blkref (view ram_content small_file) (i_block small_info) (data_key (unat (fs_block_size small_file) div 4) 0) = 9"
    by (simp add: bs data_key_def small_info_def)
  have "0 < max_blocks (unat (fs_block_size small_file) div 4)"
    by (simp add: bs max_blocks_def)
  from block_device.write_key_run [OF ram_disk small_file_inv this ref, of "\<lambda>_. 7"] obtain s1 where
    "write_data ram_disk 4096 9 (\<lambda>_. 7) small_file = Inr (0, s1)"
    unfolding bs by auto
  then have w: "ext2_write_block ram_disk 0x1000 0 (\<lambda>_. 7) small_file = Inr (0, s1)"
    using bs by (simp add: ext2_write_block_def alloc_iblock_def bindK_run get_inode_def get_info_def needK_run small_file_def
      small_info_def Let_def)
  from file_block_roundtrip [OF ram_disk small_file_inv small_file_room w, of 0 "\<lambda>_. 1"] bs obtain s2 where
    "ext2_read_block ram_disk 0x1000 0 (\<lambda>_. 1) s1 = Inr ((0, \<lambda>i. if i < 4096 then 7 else 1), s2)"
    by (auto simp: max_blocks_def cong: if_cong)
  with w show ?thesis
    by blast
qed

end
