(* ===== verification/FileRange.thy ===== *)
theory FileRange
  imports FileWrite
begin

text \<open>
  Byte ranges of a file: \<open>ext2_file_read\<close> and \<open>ext2_file_write\<close> against the contents of the file
  as a function from positions to bytes, with the size in the inode and the inode on disk.
\<close>

definition file_byte :: "nat \<Rightarrow> (u64 \<Rightarrow> blk) \<Rightarrow> u32 list \<Rightarrow> nat \<Rightarrow> u8" where
  "file_byte bs V ib q = file_block bs V ib (q div bs) (q mod bs)"

text \<open>The arithmetic of a piece that stays within a block.\<close>

lemma piece_index:
  assumes "k + i < bs" and "k = q mod bs"
  shows "(q + i) div bs = q div (bs :: nat)" "(q + i) mod bs = k + i"
proof -
  have *: "(bs * d + r) div bs = d \<and> (bs * d + r) mod bs = r" if "r < bs" for d r
    using that by simp
  have "q + i = bs * (q div bs) + (k + i)"
    using assms(2) by (metis add.assoc mult_div_mod_eq)
  then show "(q + i) div bs = q div bs" "(q + i) mod bs = k + i"
    using * [OF assms(1), of "q div bs"] by metis+
qed

lemma piece_fuel:
  assumes "R = 0 \<or> R + q mod bs \<le> Suc fuel * bs" and "0 < (bs :: nat)"
  shows "R - min R (bs - q mod bs) = 0 \<or> R - min R (bs - q mod bs) + (q + min R (bs - q mod bs)) mod bs \<le> fuel * bs"
proof (cases "R \<le> bs - q mod bs")
  case False
  have k: "q mod bs < bs"
    using assms(2) by simp
  then have "q + (bs - q mod bs) = bs * (q div bs + 1)"
    using mult_div_mod_eq [of bs q] unfolding distrib_left by linarith
  then have "(q + (bs - q mod bs)) mod bs = 0"
    by simp
  moreover have "R + q mod bs \<le> bs + fuel * bs" and m: "min R (bs - q mod bs) = bs - q mod bs"
    using assms(1) False by simp_all
  ultimately show ?thesis
    unfolding m using k by linarith
qed simp

lemma range_fuel: "0 < bs \<Longrightarrow> n + q mod bs \<le> (n div bs + 2) * (bs :: nat)"
  using dividend_less_div_times [of bs n] mod_less_divisor [of bs q] unfolding distrib_right by linarith

lemma unat_ucast_32_64 [simp]: "unat (ucast (w :: u32) :: u64) = unat w"
proof -
  have "unat w < 2 ^ 64"
    by (rule less_le_trans [OF unsigned_less]) simp
  then show ?thesis
    by (simp add: unsigned_ucast_eq take_bit_nat_eq_self)
qed

lemma chunk_words:
  fixes off bs :: u32 and len total :: u64
  assumes "0 < unat bs" and "unat bs \<le> 4096" and "unat total < unat len"
  defines "chunk \<equiv> (if len - total < ucast (bs - off mod bs) then len - total else ucast (bs - off mod bs))"
  shows "unat chunk = min (unat len - unat total) (unat bs - unat off mod unat bs)"
    and "unat (ucast chunk :: u32) = unat chunk"
proof -
  have o: "unat (off mod bs) = unat off mod unat bs" "unat off mod unat bs < unat bs"
    using assms(1) by (simp_all add: unat_mod)
  then have "off mod bs \<le> bs"
    by (simp add: word_le_nat_alt)
  then have s: "unat (bs - off mod bs) = unat bs - unat off mod unat bs"
    by (simp add: unat_sub o)
  have l: "unat (len - total) = unat len - unat total"
    using assms(3) by (simp add: unat_sub word_le_nat_alt)
  show c: "unat chunk = min (unat len - unat total) (unat bs - unat off mod unat bs)"
    unfolding chunk_def by (simp add: word_less_nat_alt l s)
  then have "unat chunk < 2 ^ 32"
    using assms(2) by simp
  then show "unat (ucast chunk :: u32) = unat chunk"
    by (simp add: unsigned_ucast_eq take_bit_nat_eq_self)
qed

section \<open>Reading\<close>

context block_device
begin

lemma file_read_loop_run:
  fixes s0 :: "'d fs_state" and off len :: "_ word"
  defines "bs \<equiv> fs_block_size s0" and "V \<equiv> view content s0"
  assumes f0: "inodes s0 p = Some x" "infos s0 (i_fs_private x) = Some info"
      "file_wf vb M F (unat bs div 4) V (i_block info)" "room 1 (slots s0)" "0 < unat bs" "unat bs \<le> BLKSZ"
    and q: "quietly s0 V s" and len: "length out + R = unat len"
    and bound: "unat off + R \<le> max_blocks (unat bs div 4) * unat bs" "unat off + R < 2 ^ 32"
    and fuel: "R = 0 \<or> R + unat off mod unat bs \<le> fuel * unat bs"
  shows "\<exists>s'. file_read_loop fuel D p len off out buf s =
      Inr ((ucast len, out @ map (file_byte (unat bs) V (i_block info)) [unat off..<unat off + R], off + of_nat R), s') \<and>
    quietly s0 V s'"
  using q len bound fuel
proof (induction fuel arbitrary: s off out buf R)
  case 0
  then have "R = 0" "length out = unat len"
    using f0(5) by auto
  then show ?case
    using 0(1) by (simp add: file_read_loop.simps)
next
  case (Suc fuel)
  let ?B = "unat bs" and ?k = "unat off mod unat bs"
  have total: "unat (of_nat (length out) :: u64) = length out" "(of_nat (length out) :: u64) < len \<longleftrightarrow> R \<noteq> 0"
    "unat len - length out = R"
  proof -
    have "unat len < 2 ^ 64"
      by (rule less_le_trans [OF unsigned_less]) simp
    then have "length out < 2 ^ 64"
      using Suc.prems(2) by linarith
    then show l: "unat (of_nat (length out) :: u64) = length out"
      by (simp add: unat_of_nat)
    show "(of_nat (length out) :: u64) < len \<longleftrightarrow> R \<noteq> 0" "unat len - length out = R"
      using Suc.prems(2) by (auto simp: word_less_nat_alt l)
  qed
  show ?case
  proof (cases "R = 0")
    case True
    then show ?thesis
      using Suc.prems(1,2) by (simp add: file_read_loop.simps)
  next
    case False
    let ?buf = "with_block ?B V (i_block info) (unat off div ?B) buf"
    let ?c = "min R (?B - ?k)"
    note e = fs_more [OF quietD(4) [OF Suc.prems(1)]]
    have rb: "\<exists>s1. ext2_read_block D p (off div bs) buf s = Inr ((0, ?buf), s1) \<and> quietly s0 V s1"
    proof -
      have "unat off < max_blocks (?B div 4) * ?B"
        using Suc.prems(3) False by simp
      then have "unat off div ?B < max_blocks (?B div 4)"
        by (simp add: less_mult_imp_div_less)
      then have b: "unat (off div bs) < max_blocks (unat (fs_block_size s) div 4)"
        by (simp add: unat_div e(2) bs_def)
      have s: "inodes s p = Some x" "infos s (i_fs_private x) = Some info" "view content s = V" "fs_block_size s = bs"
        using f0(1,2) e quietD(2) [OF Suc.prems(1)] by (simp_all add: bs_def)
      have r: "room (Suc 0) (slots s)"
        using f0(4) quiet_room [OF Suc.prems(1)] by simp
      obtain s1 where "ext2_read_block D p (off div bs) buf s = Inr ((0, ?buf), s1)" "quietly s V s1"
        using read_block_run [OF quietD(1) [OF Suc.prems(1)] r _ s(1,2), of M F "off div bs" buf] f0(3,6) b
        by (auto simp: s unat_div)
      then show ?thesis
        using quiet_trans [OF Suc.prems(1)] by blast
    qed
    then obtain s1 where s1: "ext2_read_block D p (off div bs) buf s = Inr ((0, ?buf), s1)" "quietly s0 V s1"
      by blast
    let ?new = "map (\<lambda>i. ?buf (?k + i)) [0..<?c]"
    have new: "?new = map (file_byte ?B V (i_block info)) [unat off..<unat off + ?c]"
    proof (rule nth_equalityI)
      fix i
      assume "i < length ?new"
      then have i: "i < ?c" "i < ?B - ?k"
        by simp_all
      then have in_block: "?k + i < ?B"
        by linarith
      from piece_index [OF this refl] i in_block show "?new ! i = map (file_byte ?B V (i_block info)) [unat off..<unat off + ?c] ! i"
        by (simp add: with_block_def file_byte_def)
    qed simp
    have off1: "unat (off + of_nat ?c) = unat off + ?c"
      using Suc.prems(4) by (simp add: unat_word_ariths unat_of_nat min_def)
    have run: "file_read_loop (Suc fuel) D p len off out buf s =
        file_read_loop fuel D p len (off + of_nat ?c) (out @ ?new) ?buf s1"
    proof -
      have le: "unat (of_nat (length out) :: u64) < unat len"
        using False total by (simp add: word_less_nat_alt)
      have "unat bs \<le> 4096"
        using f0(6) by (simp add: BLKSZ_def)
      note c = chunk_words [OF f0(5) this le, of off, unfolded total(1,3)]
      define chunk where "chunk = (if len - of_nat (length out) < ucast (bs - off mod bs) then len - of_nat (length out)
        else (ucast (bs - off mod bs) :: u64))"
      have ch: "unat chunk = ?c" "(ucast chunk :: u32) = of_nat ?c"
      proof -
        show u: "unat chunk = ?c"
          using c(1) unfolding chunk_def [symmetric] .
        have "(of_nat (unat (ucast chunk :: u32)) :: u32) = of_nat ?c"
          using c(2) unfolding chunk_def [symmetric] u by simp
        then show "(ucast chunk :: u32) = of_nat ?c"
          by simp
      qed
      have nz: "bs \<noteq> 0"
        using f0(5) by auto
      have k: "unat (off mod bs) = ?k"
        by (simp add: unat_mod)
      show ?thesis
        using False total s1(1) e(2) nz
        by (subst file_read_loop.simps)
          (simp add: Let_def bindK_run assertK_True chunk_def [symmetric] ch k bs_def [symmetric])
    qed
    have "\<exists>s'. file_read_loop fuel D p len (off + of_nat ?c) (out @ ?new) ?buf s1 =
        Inr ((ucast len, (out @ ?new) @ map (file_byte ?B V (i_block info)) [unat (off + of_nat ?c)..<unat (off + of_nat ?c) + (R - ?c)],
          off + of_nat ?c + of_nat (R - ?c)), s') \<and> quietly s0 V s'"
    proof (rule Suc.IH [OF s1(2)])
      show "length (out @ ?new) + (R - ?c) = unat len"
        using Suc.prems(2) by simp
      show "unat (off + of_nat ?c) + (R - ?c) \<le> max_blocks (?B div 4) * ?B" "unat (off + of_nat ?c) + (R - ?c) < 2 ^ 32"
        using Suc.prems(3,4) unfolding off1 by simp_all
      show "R - ?c = 0 \<or> R - ?c + unat (off + of_nat ?c) mod ?B \<le> fuel * ?B"
        unfolding off1 by (rule piece_fuel [OF Suc.prems(5) f0(5)])
    qed
    moreover have "[unat off..<unat off + R] = [unat off..<unat off + ?c] @ [unat off + ?c..<unat off + R]"
      using upt_add_eq_append [of "unat off" "unat off + ?c" "R - ?c"] by simp
    moreover have "off + of_nat ?c + of_nat (R - ?c) = off + of_nat R"
      by (simp add: of_nat_diff)
    ultimately show ?thesis
      unfolding run off1 new by simp
  qed
qed

lemma file_read_run:
  fixes off :: u32 and len :: u64
  assumes inv: "file_inv content ok vb sbno p sbi info s" and x: "inodes s p = Some x"
    and bound: "unat (i_size x) \<le> max_blocks (unat (fs_block_size s) div 4) * unat (fs_block_size s)"
      "unat off + unat len < 2 ^ 64"
  defines "n \<equiv> min (unat len) (unat (i_size x) - unat off)"
  shows "\<exists>s'. ext2_file_read D p len off s =
      Inr ((of_nat n, map (file_byte (unat (fs_block_size s)) (view content s) (i_block info)) [unat off..<unat off + n],
        off + of_nat n), s') \<and> quietly s (view content s) s'"
proof -
  note f = file_invD [OF inv]
  let ?bs = "fs_block_size s" and ?V = "view content s"
  have info: "infos s (i_fs_private x) = Some info"
    using f(4) x by auto
  have bs: "\<not> 4096 < ?bs" "0 < unat ?bs"
    using f(9,10) by (simp_all add: word_less_nat_alt BLKSZ_def)
  show ?thesis
  proof (cases "i_size x \<le> off")
    case True
    then have "n = 0"
      by (simp add: n_def word_le_nat_alt)
    then show ?thesis
      using x bs True quiet_refl [OF f(6)] by (simp add: ext2_file_read_def bindK_run get_inode_def needK_run)
  next
    case False
    then have lt: "unat off < unat (i_size x)"
      by (simp add: word_le_nat_alt)
    let ?len = "if ucast (i_size x) < ucast off + len then ucast (i_size x - off) else len"
    have sum: "unat (ucast off + len) = unat off + unat len"
      using bound(2) by (simp add: unat_word_ariths)
    have "unat (i_size x - off) = unat (i_size x) - unat off"
      using lt by (simp add: unat_sub word_le_nat_alt)
    then have n: "unat ?len = n"
      using lt by (auto simp: n_def word_less_nat_alt sum)
    have fuel: "n = 0 \<or> n + unat off mod unat ?bs \<le> (n div unat ?bs + 2) * unat ?bs"
      by (rule disjI2 [OF range_fuel [OF bs(2)]])
    have "unat off + n \<le> unat (i_size x)"
      using lt by (simp add: n_def)
    moreover have "unat (i_size x) < 2 ^ 32"
      by (rule less_le_trans [OF unsigned_less]) simp
    ultimately have b: "unat off + n \<le> max_blocks (unat ?bs div 4) * unat ?bs" "unat off + n < 2 ^ 32"
      using bound(1) by linarith+
    have run: "ext2_file_read D p len off s = file_read_loop (n div unat ?bs + 2) D p ?len off [] (\<lambda>_. 0) s"
      using x bs(1) False n by (simp add: ext2_file_read_def bindK_run get_inode_def needK_run Let_def)
    have "length ([] :: u8 list) + n = unat ?len"
      using n by simp
    from file_read_loop_run [OF x info f(5,8) bs(2) f(10) quiet_refl [OF f(6)] this b fuel] obtain s' where
      "ext2_file_read D p len off s = Inr ((ucast ?len, map (file_byte (unat ?bs) ?V (i_block info)) [unat off..<unat off + n],
        off + of_nat n), s')" "quietly s ?V s'"
      unfolding run by auto
    moreover have "ucast ?len = (of_nat n :: i32)"
      unfolding n [symmetric] by simp
    ultimately show ?thesis
      by auto
  qed
qed

end

section \<open>Writing\<close>

text \<open>What every step of a write keeps, and its effect on the bytes of the file.\<close>

definition evolved :: "('d \<Rightarrow> u64 \<Rightarrow> blk) \<Rightarrow> ('d \<Rightarrow> bool) \<Rightarrow> (u64 \<Rightarrow> bool) \<Rightarrow> u64 \<Rightarrow> u64 \<Rightarrow> sb_info \<Rightarrow> inode_info \<Rightarrow>
    'd fs_state \<Rightarrow> sb_info \<Rightarrow> inode_info \<Rightarrow> 'd fs_state \<Rightarrow> bool" where
  "evolved content ok vb sbno p sbi info s sbi' info' s' \<longleftrightarrow>
     file_inv content ok vb sbno p sbi' info' s' \<and> fs_block_size s' = fs_block_size s \<and> calm (slots s) (slots s') \<and>
     same_layout sbi' sbi \<and> confined content sbno sbi info s sbi' info' s' \<and> kept p info s info' s'"

lemma evolvedD:
  assumes "evolved content ok vb sbno p sbi info s sbi' info' s'"
  shows "file_inv content ok vb sbno p sbi' info' s'" "fs_block_size s' = fs_block_size s" "calm (slots s) (slots s')"
    "same_layout sbi' sbi" "confined content sbno sbi info s sbi' info' s'" "kept p info s info' s'"
  using assms by (simp_all add: evolved_def)

lemma evolved_trans:
  assumes "evolved content ok vb sbno p sbi info s sbi1 info1 s1" and "evolved content ok vb sbno p sbi1 info1 s1 sbi2 info2 s2"
  shows "evolved content ok vb sbno p sbi info s sbi2 info2 s2"
  unfolding evolved_def
  using evolvedD [OF assms(1)] evolvedD [OF assms(2)]
  by (intro conjI) (auto intro: calm_trans same_layout_trans confined_trans kept_trans)

lemma evolved_grown: "grown content ok vb sbno p S sbi info s sbi' info' s' \<Longrightarrow> evolved content ok vb sbno p sbi info s sbi' info' s'"
  by (simp add: grown_def evolved_def Let_def)

lemma evolved_wrote: "wrote content ok vb sbno p b buf sbi info s r s' sbi' info' \<Longrightarrow> evolved content ok vb sbno p sbi info s sbi' info' s'"
  by (simp add: wrote_def evolved_def Let_def)

text \<open>The first \<open>k\<close> bytes of \<open>src\<close> stand at position \<open>q\<close> of the file; the others are as before.\<close>

definition stored :: "('d \<Rightarrow> u64 \<Rightarrow> blk) \<Rightarrow> nat \<Rightarrow> u8 list \<Rightarrow> nat \<Rightarrow> inode_info \<Rightarrow> 'd fs_state \<Rightarrow> inode_info \<Rightarrow> 'd fs_state \<Rightarrow> bool" where
  "stored content q src k info s info' s' \<longleftrightarrow>
     (let bs = unat (fs_block_size s) in \<forall>j < max_blocks (bs div 4) * bs.
        file_byte bs (view content s') (i_block info') j =
        (if q \<le> j \<and> j < q + k then src ! (j - q) else file_byte bs (view content s) (i_block info) j))"

lemma wrote_piece:
  assumes w: "wrote content ok vb sbno p (q div bs) (bcopy (q mod bs) (\<lambda>i. src ! i) t c
      (with_block bs (view content s) (i_block info) (q div bs) buf)) sbi info s 0 s' sbi' info'"
    and bs: "bs = unat (fs_block_size s)" and c: "0 < bs" "q mod bs + c \<le> bs" and j: "j < max_blocks (bs div 4) * bs"
  shows "file_byte bs (view content s') (i_block info') j =
    (if q \<le> j \<and> j < q + c then src ! (t + (j - q)) else file_byte bs (view content s) (i_block info) j)"
proof (cases "j div bs = q div bs")
  case True
  have "file_block bs (view content s') (i_block info') (q div bs) =
      (\<lambda>i. if i < bs then bcopy (q mod bs) (\<lambda>i. src ! i) t c (with_block bs (view content s) (i_block info) (q div bs) buf) i else 0)"
    using w unfolding bs wrote_def Let_def by simp
  then have b: "file_byte bs (view content s') (i_block info') j =
      bcopy (q mod bs) (\<lambda>i. src ! i) t c (with_block bs (view content s) (i_block info) (q div bs) buf) (j mod bs)"
    using c(1) by (simp add: file_byte_def True)
  have "j = bs * (q div bs) + j mod bs" "q = bs * (q div bs) + q mod bs"
    using True by (metis mult_div_mod_eq)+
  then have iff: "(q mod bs \<le> j mod bs \<and> j mod bs < q mod bs + c) \<longleftrightarrow> (q \<le> j \<and> j < q + c)" "j mod bs - q mod bs = j - q"
    by linarith+
  show ?thesis
    using c(1) unfolding b bcopy_def iff by (simp add: with_block_def file_byte_def True)
next
  case False
  have "\<not> (q \<le> j \<and> j < q + c)"
  proof
    assume "q \<le> j \<and> j < q + c"
    then have "q mod bs + (j - q) < bs" "q + (j - q) = j"
      using c(2) by linarith+
    then show False
      using piece_index(1) [OF _ refl, of q bs "j - q"] False by simp
  qed
  moreover have "j div bs < max_blocks (bs div 4)"
    using j by (simp add: less_mult_imp_div_less)
  moreover have "\<And>b. b < max_blocks (bs div 4) \<Longrightarrow> b \<noteq> q div bs \<Longrightarrow>
      file_block bs (view content s') (i_block info') b = file_block bs (view content s) (i_block info) b"
    using w unfolding bs wrote_def Let_def by blast
  ultimately show ?thesis
    using False unfolding file_byte_def by metis
qed

lemma wrote_nothing:
  assumes "wrote content ok vb sbno p b buf sbi info s (- 1) s' sbi' info'"
  shows "stored content q src 0 info s info' s'"
proof -
  let ?bs = "unat (fs_block_size s)"
  have "file_block ?bs (view content s') (i_block info') c = file_block ?bs (view content s) (i_block info) c"
    if "c < max_blocks (?bs div 4)" for c
    using assms that unfolding wrote_def Let_def by simp
  then show ?thesis
    by (auto simp: stored_def Let_def file_byte_def less_mult_imp_div_less)
qed

lemma stored_view: "view content s' = view content s \<Longrightarrow> stored content q src 0 info s info s'"
  by (auto simp: stored_def Let_def)

lemma stored_trans:
  assumes "stored content q src k info s info1 s1" and "stored content (q + k) (drop k src) c info1 s1 info2 s2"
    and bs: "fs_block_size s1 = fs_block_size s" and "k + c \<le> length src"
  shows "stored content q src (k + c) info s info2 s2"
  unfolding stored_def Let_def
proof (intro allI impI)
  fix j
  let ?B = "unat (fs_block_size s)"
  assume j: "j < max_blocks (?B div 4) * ?B"
  have a: "file_byte ?B (view content s1) (i_block info1) j =
      (if q \<le> j \<and> j < q + k then src ! (j - q) else file_byte ?B (view content s) (i_block info) j)"
    using assms(1) j by (simp add: stored_def Let_def)
  have b: "file_byte ?B (view content s2) (i_block info2) j =
      (if q + k \<le> j \<and> j < q + k + c then drop k src ! (j - (q + k)) else file_byte ?B (view content s1) (i_block info1) j)"
    using assms(2) j by (simp add: stored_def Let_def bs)
  have "drop k src ! (j - (q + k)) = src ! (j - q)" if "q + k \<le> j"
    using that assms(4) by (simp add: nth_drop add.commute)
  then show "file_byte ?B (view content s2) (i_block info2) j =
      (if q \<le> j \<and> j < q + (k + c) then src ! (j - q) else file_byte ?B (view content s) (i_block info) j)"
    unfolding b a by (cases "q + k \<le> j") auto
qed

context block_device
begin

lemma file_write_loop_done:
  assumes "unat tot = length src" and "length src < 2 ^ 32"
  shows "file_write_loop fuel D p src tot off buf s = Inr ((False, of_nat (length src), off), s)"
proof -
  have "tot = of_nat (length src)"
    using assms by (intro word_eq_unatI) (simp add: unat_of_nat)
  moreover have "(ucast tot :: i32) = of_nat (unat tot)"
    by simp
  ultimately show ?thesis
    unfolding assms(1) by (simp add: file_write_loop.simps)
qed

text \<open>One iteration.\<close>

lemma file_write_step:
  fixes off :: u32 and tot :: u64 and s :: "'d fs_state"
  defines "bs \<equiv> unat (fs_block_size s)"
  assumes inv: "file_inv content ok vb sbno p sbi info s" "room 2 (slots s)"
    and len: "length src < 2 ^ 32" "unat tot < length src"
  defines "c \<equiv> min (length src - unat tot) (bs - unat off mod bs)"
  obtains early s' tot' off' buf' sbi' info' where
    "file_write_loop (Suc fuel) D p src tot off buf s =
      (if early then Inr ((True, if 0 < tot then ucast tot else - 1, off), s')
       else file_write_loop fuel D p src tot' off' buf' s')"
    "evolved content ok vb sbno p sbi info s sbi' info' s'"
    "stored content (unat off) (drop (unat tot) src) (if early then 0 else c) info s info' s'"
    "early \<Longrightarrow> free_blocks (view content s') sbno sbi' = {} \<or> max_blocks (bs div 4) * bs \<le> unat off"
    "unat tot' = unat tot + c" "unat off + c < 2 ^ 32 \<Longrightarrow> unat off' = unat off + c"
proof -
  note f = file_invD [OF inv(1)]
  let ?k = "unat off mod bs" and ?b = "unat off div bs" and ?V = "view content s"
  have ulen: "unat (of_nat (length src) :: u64) = length src"
    using len(1) by (simp add: unat_of_nat)
  have bsz: "0 < bs" "bs \<le> 4096" "fs_block_size s \<noteq> 0"
    using f(9,10) by (auto simp: bs_def BLKSZ_def)
  have lt: "tot < of_nat (length src)" and lt': "unat tot < unat (of_nat (length src) :: u64)"
    using len(2) by (simp_all add: word_less_nat_alt ulen)
  define chunk where "chunk = (if of_nat (length src) - tot < ucast (fs_block_size s - off mod fs_block_size s)
    then of_nat (length src) - tot else (ucast (fs_block_size s - off mod fs_block_size s) :: u64))"
  have ch: "unat chunk = c" "unat (ucast chunk :: u32) = c"
    using chunk_words [OF bsz(1,2) [unfolded bs_def] lt', of off] unfolding chunk_def [symmetric]
    by (simp_all add: ulen c_def bs_def)
  have w: "unat (off div fs_block_size s) = ?b" "unat (off mod fs_block_size s) = ?k"
    by (simp_all add: unat_div unat_mod bs_def)
  have tot': "unat (tot + chunk) = unat tot + c"
  proof -
    have "unat tot + c \<le> length src"
      using len(2) unfolding c_def by linarith
    then have "unat tot + c < 2 ^ 64"
      using len(1) by simp
    then show ?thesis
      using ch(1) by (simp add: unat_word_ariths)
  qed
  have off': "unat (off + ucast chunk) = unat off + c" if "unat off + c < 2 ^ 32"
    using that ch(2) by (simp add: unat_word_ariths)
  obtain x where x: "inodes s p = Some x" "infos s (i_fs_private x) = Some info"
    using f(4) by blast
  obtain res s1 where s1: "ext2_read_block D p (off div fs_block_size s) buf s = Inr (res, s1)" "quietly s ?V s1"
      "res = (if ?b < max_blocks (bs div 4) then (0, with_block bs ?V (i_block info) ?b buf) else (- 1, buf))"
  proof -
    have "room (Suc 0) (slots s)"
      using f(8) by simp
    from read_block_run [OF f(6) this f(10) x f(5), of "off div fs_block_size s" buf] show thesis
      unfolding w(1) bs_def [symmetric] by (elim exE conjE) (rule that; simp)
  qed
  have g: "evolved content ok vb sbno p sbi info s sbi info s1"
    by (rule evolved_grown [OF quiet_grown [OF inv(1) s1(2)]])
  have v1: "view content s1 = ?V" and bs1: "unat (fs_block_size s1) = bs"
    using quietD(2) [OF s1(2)] evolvedD(2) [OF g] by (simp_all add: bs_def)
  show thesis
  proof (cases "?b < max_blocks (bs div 4)")
    case out: False
    have run: "file_write_loop (Suc fuel) D p src tot off buf s = Inr ((True, if 0 < tot then ucast tot else - 1, off), s1)"
      using s1(1,3) lt out bsz(3) by (subst file_write_loop.simps) (simp add: Let_def bindK_run assertK_True)
    have "max_blocks (bs div 4) * bs \<le> unat off"
      using out bsz(1) by (simp add: not_less less_eq_div_iff_mult_less_eq)
    then show thesis
      using run g stored_view [OF v1] tot' off' by (intro that [of True s1 "tot + chunk" "off + ucast chunk" buf sbi info]) simp_all
  next
    case True
    let ?buf = "bcopy ?k (\<lambda>i. src ! i) (unat tot) c (with_block bs ?V (i_block info) ?b buf)"
    have "room 2 (slots s1)"
      using inv(2) room_calm [OF evolvedD(3) [OF g]] by simp
    from write_block_run [OF evolvedD(1) [OF g] this, of "off div fs_block_size s" ?buf] obtain r s2 sbi2 info2 where
      wr: "ext2_write_block D p (off div fs_block_size s) ?buf s1 = Inr (r, s2)"
        "wrote content ok vb sbno p ?b ?buf sbi info s1 r s2 sbi2 info2"
      unfolding w(1) by blast
    have ev: "evolved content ok vb sbno p sbi info s sbi2 info2 s2"
      by (rule evolved_trans [OF g evolved_wrote [OF wr(2)]])
    have run: "file_write_loop (Suc fuel) D p src tot off buf s =
        (if sint r < 0 then Inr ((True, if 0 < tot then ucast tot else - 1, off), s2)
         else file_write_loop fuel D p src (tot + chunk) (off + ucast chunk) ?buf s2)"
    proof -
      have "bcopy (unat (off mod fs_block_size s)) (\<lambda>i. src ! i) (unat tot) (unat chunk)
          (with_block bs ?V (i_block info) ?b buf) = ?buf"
        unfolding w(2) ch(1) ..
      then show ?thesis
        using s1(1,3) lt True bsz(3) wr(1)
        by (subst file_write_loop.simps) (simp add: Let_def bindK_run assertK_True chunk_def [symmetric])
    qed
    consider (all) "r = 0" | (fail) "r = - 1" "free_blocks (view content s2) sbno sbi2 = {}"
      using wr(2) True unfolding wrote_def Let_def bs1 by blast
    then show thesis
    proof cases
      case fail
      have "stored content (unat off) (drop (unat tot) src) 0 info s info2 s2"
        using stored_trans [OF stored_view [OF v1] _ evolvedD(2) [OF g], of "unat off" "drop (unat tot) src" 0]
          wrote_nothing [OF wr(2) [unfolded fail(1)], of "unat off" "drop (unat tot) src"] by simp
      then show thesis
        using run ev fail tot' off'
        by (intro that [of True s2 "tot + chunk" "off + ucast chunk" ?buf sbi2 info2]) simp_all
    next
      case all
      have "stored content (unat off) (drop (unat tot) src) c info s info2 s2"
        unfolding stored_def Let_def bs_def [symmetric]
      proof (intro allI impI)
        fix j
        assume j: "j < max_blocks (bs div 4) * bs"
        have "?k + c \<le> bs"
          using mod_less_divisor [OF bsz(1), of "unat off"] unfolding c_def by linarith
        from wrote_piece [OF wr(2) [unfolded all v1 [symmetric]] bs1 [symmetric] bsz(1) this j]
        show "file_byte bs (view content s2) (i_block info2) j =
            (if unat off \<le> j \<and> j < unat off + c then drop (unat tot) src ! (j - unat off) else file_byte bs ?V (i_block info) j)"
          using len(2) by (simp add: v1 nth_drop)
      qed
      then show thesis
        using run ev all tot' off'
        by (intro that [of False s2 "tot + chunk" "off + ucast chunk" ?buf sbi2 info2]) simp_all
    qed
  qed
qed

lemma file_write_loop_run:
  fixes off :: u32 and tot :: u64 and s0 :: "'d fs_state"
  defines "bs \<equiv> unat (fs_block_size s0)"
  assumes room: "room 2 (slots s0)" and len: "q + length src < 2 ^ 32"
    and ev: "evolved content ok vb sbno p sbi0 info0 s0 sbi info s" and st: "stored content q src k info0 s0 info s"
    and pos: "unat tot = k" "unat off = q + k" "k \<le> length src"
    and fuel: "length src - k = 0 \<or> length src - k + unat off mod bs \<le> fuel * bs"
  shows "\<exists>early r k' s' sbi' info'. file_write_loop fuel D p src tot off buf s = Inr ((early, r, of_nat (q + k')), s') \<and>
    evolved content ok vb sbno p sbi0 info0 s0 sbi' info' s' \<and> stored content q src k' info0 s0 info' s' \<and> k' \<le> length src \<and>
    (if early then k' < length src \<and> r = (if k' = 0 then - 1 else of_nat k') \<and>
       (free_blocks (view content s') sbno sbi' = {} \<or> max_blocks (bs div 4) * bs \<le> q + k')
     else k' = length src \<and> r = of_nat k')"
  using ev st pos fuel
proof (induction fuel arbitrary: sbi info s k tot off buf)
  case 0
  have k: "unat tot = length src" "k = length src"
    using 0(3,5,6) by auto
  have "off = of_nat (q + length src)"
    using 0(4) k(2) by (metis of_nat_unat ucast_id)
  then show ?case
    using 0(1,2) k file_write_loop_done [OF k(1)] len
    by (intro exI [of _ False] exI [of _ "of_nat (length src)"] exI [of _ "length src"] exI [of _ s] exI [of _ sbi]
        exI [of _ info]) simp
next
  case (Suc fuel)
  note ev = Suc.prems(1) and st = Suc.prems(2) and pos = Suc.prems(3-5)
  have off: "off = of_nat (q + k)"
    using pos(2) by (metis of_nat_unat ucast_id)
  show ?case
  proof (cases "k = length src")
    case True
    then show ?thesis
      using ev st off file_write_loop_done [of tot src] pos(1) len
      by (intro exI [of _ False] exI [of _ "of_nat (length src)"] exI [of _ "length src"] exI [of _ s] exI [of _ sbi]
          exI [of _ info]) simp
  next
    case False
    then have lt: "length src < 2 ^ 32" "unat tot < length src"
      using len pos by linarith+
    note d = evolvedD [OF ev]
    have room1: "room 2 (slots s)"
      using room room_calm [OF d(3)] by simp
    have bs: "unat (fs_block_size s) = bs"
      using d(2) by (simp add: bs_def)
    let ?c = "min (length src - k) (bs - unat off mod bs)"
    obtain early s' tot' off' buf' sbi' info' where
      r: "file_write_loop (Suc fuel) D p src tot off buf s =
          (if early then Inr ((True, if 0 < tot then ucast tot else - 1, off), s')
           else file_write_loop fuel D p src tot' off' buf' s')"
        "evolved content ok vb sbno p sbi info s sbi' info' s'"
        "stored content (unat off) (drop (unat tot) src)
          (if early then 0 else min (length src - unat tot) (unat (fs_block_size s) - unat off mod unat (fs_block_size s))) info s info' s'"
        "early \<Longrightarrow> free_blocks (view content s') sbno sbi' = {} \<or>
          max_blocks (unat (fs_block_size s) div 4) * unat (fs_block_size s) \<le> unat off"
        "unat tot' = unat tot + min (length src - unat tot) (unat (fs_block_size s) - unat off mod unat (fs_block_size s))"
        "unat off + min (length src - unat tot) (unat (fs_block_size s) - unat off mod unat (fs_block_size s)) < 2 ^ 32 \<Longrightarrow>
          unat off' = unat off + min (length src - unat tot) (unat (fs_block_size s) - unat off mod unat (fs_block_size s))"
      by (rule file_write_step [OF d(1) room1 lt]) (rule that; assumption)
    note r = r [unfolded bs pos(1)]
    note ev' = evolved_trans [OF ev r(2)]
    show ?thesis
    proof (cases early)
      case True
      have "(ucast tot :: i32) = of_nat k" "0 < tot \<longleftrightarrow> k \<noteq> 0"
        using pos(1) by (auto simp: word_less_nat_alt)
      moreover have "stored content q src k info0 s0 info' s'"
        using stored_trans [OF st, of 0] r(3) True d(2) pos(2,3) by simp
      ultimately show ?thesis
        using r(1,4) True ev' off False pos(2,3)
        by (intro exI [of _ True] exI [of _ "if k = 0 then - 1 else of_nat k"] exI [of _ k] exI [of _ s'] exI [of _ sbi']
            exI [of _ info']) auto
    next
      case False
      have st': "stored content q src (k + ?c) info0 s0 info' s'"
        using stored_trans [OF st, of ?c] r(3) False d(2) pos(2,3) by simp
      have c: "k + ?c \<le> length src"
        using pos(3) by simp
      have off': "unat off' = q + (k + ?c)"
        using r(6) c len pos(2) by simp
      have "length src - (k + ?c) = 0 \<or> length src - (k + ?c) + unat off' mod bs \<le> fuel * bs"
        using piece_fuel [OF Suc.prems(6)] file_invD(9) [OF d(1)] unfolding off' pos(2) bs by (simp add: add.assoc)
      from Suc.IH [OF ev' st' r(5) off' c this, of buf'] show ?thesis
        unfolding r(1) using False by simp
    qed
  qed
qed

end

section \<open>The inode on disk\<close>

definition inode_at :: "blk \<Rightarrow> nat \<Rightarrow> inode \<Rightarrow> inode_info \<Rightarrow> bool" where
  "inode_at b off x info \<longleftrightarrow> rd16 b (off + in_i_mode) = ucast (i_mode x) \<and> rd16 b (off + in_i_uid) = ucast (i_uid x) \<and>
     rd16 b (off + in_i_gid) = ucast (i_gid x) \<and> rd32 b (off + in_i_size) = i_size x \<and>
     rd16 b (off + in_i_links_count) = ucast (i_nlinks x) \<and> info_load b off = info"

lemma rd32_wr32s_other: "i + 4 \<le> p \<or> p + 4 * length xs \<le> i \<Longrightarrow> rd32 (wr32s p xs b) i = rd32 b i"
  by (induction xs arbitrary: p b) (auto simp: rd32_wr32_other)

lemma rd16_wr32s_other: "i + 2 \<le> p \<or> p + 4 * length xs \<le> i \<Longrightarrow> rd16 (wr32s p xs b) i = rd16 b i"
  by (induction xs arbitrary: p b) (auto simp: rd16_wr32_other)

lemma rd32_wr32s: "k < length xs \<Longrightarrow> rd32 (wr32s p xs b) (p + 4 * k) = xs ! k"
proof (induction xs arbitrary: p b k)
  case (Cons x xs)
  show ?case
  proof (cases k)
    case 0
    then show ?thesis
      by (simp add: rd32_wr32s_other)
  next
    case (Suc j)
    then show ?thesis
      using Cons.IH [of j "p + 4" "wr32 p x b"] Cons.prems by (simp add: algebra_simps)
  qed
qed simp

lemma inode_at_store:
  assumes "length (i_block info) = EXT2_N_BLOCKS" and "off + 100 \<le> BLKSZ"
  shows "inode_at (nb (inode_store bs x info off b)) off x info"
proof -
  let ?b = "inode_store bs x info off b"
  have len: "length (i_block info) = 15"
    using assms(1) by (simp add: EXT2_N_BLOCKS_def)
  have blk: "rd32 (nb ?b) (off + in_i_block + 4 * k) = i_block info ! k" if "k < 15" for k
    using that assms(2) len rd32_wr32s [of k "i_block info" "off + in_i_block"]
    by (simp add: rd32_nb inode_store_def rd32_wr32_other)
  have "info_load (nb ?b) off = info"
  proof -
    have "map (\<lambda>k. rd32 (nb ?b) (off + in_i_block + 4 * k)) [0..<EXT2_N_BLOCKS] = i_block info"
      using len by (intro nth_equalityI) (simp_all add: blk EXT2_N_BLOCKS_def)
    moreover have "rd32 (nb ?b) (off + in_i_flags) = i_flags info"
      using assms(2) by (simp add: rd32_nb inode_store_def)
    ultimately show ?thesis
      by (simp add: info_load_def)
  qed
  then show ?thesis
    using assms(2) len by (simp add: inode_at_def rd16_nb rd32_nb inode_store_def rd16_wr32s_other rd32_wr32s_other
      rd16_wr16_other rd16_wr32_other rd32_wr16_other rd32_wr32_other)
qed

text \<open>The place of an inode depends on the layout only.\<close>

lemma inode_loc_layout:
  assumes "ext2_inode_loc ino s = Inr (loc, s1)" and "fs_private s = Some sbi" "fs_private s' = Some sbi'"
    and "same_layout sbi' sbi" "fs_block_size s' = fs_block_size s"
  shows "ext2_inode_loc ino s' = Inr (loc, s')"
proof -
  note l = assms(4) [unfolded same_layout_def]
  have g: "unat ((ino - 1) div inode_per_group sbi) < ngroups sbi \<Longrightarrow>
      bg_inode_table (gb_table sbi' ! unat ((ino - 1) div inode_per_group sbi)) =
      bg_inode_table (gb_table sbi ! unat ((ino - 1) div inode_per_group sbi))"
    using l by blast
  show ?thesis
    using assms(1,2,3,5) l g
    by (auto simp: ext2_inode_loc_def bindK_run get_sbi_def needK_run Let_def assertK_def ngroups_def failK_def split: if_splits)
qed

context block_device
begin

lemma write_inode_run:
  assumes inv: "inv s" "room (Suc 0) (slots s)" and x: "p \<noteq> 0" "inodes s p = Some x" "i_valid x" "infos s (i_fs_private x) = Some info"
    "length (i_block info) = EXT2_N_BLOCKS"
    and loc: "ext2_inode_loc (i_ino x) s = Inr ((tb, off), s)" "vb (ucast tb)" "unat off + 100 \<le> BLKSZ"
  obtains b s' where "ext2_write_inode D p s = Inr (0, s')" "inode_at b (unat off) x info"
    "quietly (s\<lparr>inodes := (inodes s)(p \<mapsto> x\<lparr>i_dirty := False\<rparr>)\<rparr>) ((view content s)(ucast tb := b)) s'"
proof -
  obtain c s1 where r: "bread D (ucast tb) s = Inr (c, s1)" "inv s1" "view content s1 = view content s"
      "pin c (slots s) (slots s1)" "bvalid (slots s1 ! c)" "blk_no (slots s1 ! c) = ucast tb"
      "nb (bdata (slots s1 ! c)) = view content s (ucast tb)" "bc_state.more s1 = bc_state.more s"
    using bread_pin [OF inv(1) loc(2) inv(2)] by metis
  let ?b = "inode_store (fs_block_size s) x info (unat off) (bdata (slots s1 ! c))"
  let ?f = "thenK (put_inode p (x\<lparr>i_dirty := False\<rparr>)) (retK (0 :: i32))"
  note e = fs_more [OF r(8)]
  obtain s2 where s2: "thenK (bput c ?b) (thenK (bwrite c) (thenK (brelse c) ?f)) s1 = ?f s2"
      "inv s2" "view content s2 = (view content s1)(blk_no (slots s1 ! c) := nb ?b)"
      "calm (slots s) (slots s2)" "bc_state.more s2 = bc_state.more s1"
    using write_release [OF r(2,4) inv(2) r(5)] by metis
  let ?s = "s2\<lparr>inodes := (inodes s)(p \<mapsto> x\<lparr>i_dirty := False\<rparr>)\<rparr>"
  have "ext2_write_inode D p s = ?f s2"
    using x loc(1,3) r(1) s2(1) e
    by (simp add: ext2_write_inode_def bindK_run get_inode_def get_info_def needK_run assertK_True bget_def)
  also have "\<dots> = Inr (0, ?s)"
    using fs_more [OF s2(5)] e by (simp add: thenK_run put_inode_def)
  finally have "ext2_write_inode D p s = Inr (0, ?s)" .
  moreover have "inode_at (nb ?b) (unat off) x info"
    by (rule inode_at_store [OF x(5) loc(3)])
  moreover have "quietly (s\<lparr>inodes := (inodes s)(p \<mapsto> x\<lparr>i_dirty := False\<rparr>)\<rparr>) ((view content s)(ucast tb := nb ?b)) ?s"
  proof -
    have "bc_state.more ?s = bc_state.more (s\<lparr>inodes := (inodes s)(p \<mapsto> x\<lparr>i_dirty := False\<rparr>)\<rparr>)"
      using s2(5) r(8) by (cases s; cases s1; cases s2) simp
    then show ?thesis
      using s2(2,3,4) r(3,6) by (simp add: quiet_def)
  qed
  ultimately show thesis
    by (rule that)
qed

end

text \<open>Changing fields of the inode, and storing it in a block that is not the file's.\<close>

lemma file_inv_inode:
  assumes "file_inv content ok vb sbno p sbi info s" and "inodes s p = Some x" and "i_fs_private y = i_fs_private x"
  shows "file_inv content ok vb sbno p sbi info (s\<lparr>inodes := (inodes s)(p \<mapsto> y)\<rparr>)"
  using assms by (auto simp: file_inv_def Let_def)

lemma file_inv_elsewhere:
  assumes inv: "file_inv content ok vb sbno p sbi info s" and q: "quiet content ok vb s ((view content s)(tb := b)) s'"
    and tb: "tb \<notin> meta_blocks (fs_block_size s) (view content s) sbno sbi" "tb \<notin> own content sbno sbi info s"
  shows "file_inv content ok vb sbno p sbi info s'"
    "c < max_blocks (unat (fs_block_size s) div 4) \<Longrightarrow>
      file_block (unat (fs_block_size s)) (view content s') (i_block info) c =
      file_block (unat (fs_block_size s)) (view content s) (i_block info) c"
    "j < max_blocks (unat (fs_block_size s) div 4) * unat (fs_block_size s) \<Longrightarrow>
      file_byte (unat (fs_block_size s)) (view content s') (i_block info) j =
      file_byte (unat (fs_block_size s)) (view content s) (i_block info) j"
proof -
  note f = file_invD [OF inv]
  let ?V = "view content s" and ?n = "unat (fs_block_size s) div 4"
  note d = quietD [OF q] and e = fs_more [OF quietD(4) [OF q]]
  have v: "view content s' x = ?V x" if "x \<noteq> tb" for x
    using that by (simp add: d(2))
  have own: "view content s' (ucast (blkref ?V (i_block info) K)) = ?V (ucast (blkref ?V (i_block info) K))"
    if "valid_key ?n K" "blkref ?V (i_block info) K \<noteq> 0" for K
    using own_ref [OF that, of sbno sbi] tb(2) by (intro v) auto
  have ref: "blkref (view content s') (i_block info) K = blkref ?V (i_block info) K" if "valid_key ?n K" for K
    by (rule blkref_cong [OF _ that]) (simp add: own index_valid)
  have room: "room 1 (slots s')"
    using f(8) quiet_room [OF q] by simp
  show "file_inv content ok vb sbno p sbi info s'"
  proof (rule file_inv_same [OF inv d(1) mounted_quiet [OF q f(7)] room e(2,4,5) _ ref])
    show "view content s' x = ?V x" if "x \<in> meta_blocks (fs_block_size s) ?V sbno sbi" for x
      using that tb(1) by (intro v) auto
  qed
  have blk: "file_block (unat (fs_block_size s)) (view content s') (i_block info) c =
      file_block (unat (fs_block_size s)) ?V (i_block info) c" if "c < max_blocks ?n" for c
    using data_key_valid(1) [OF that] by (simp add: file_block_def Let_def ref own fun_eq_iff)
  then show "c < max_blocks ?n \<Longrightarrow> file_block (unat (fs_block_size s)) (view content s') (i_block info) c =
      file_block (unat (fs_block_size s)) ?V (i_block info) c"
    by blast
  show "j < max_blocks ?n * unat (fs_block_size s) \<Longrightarrow> file_byte (unat (fs_block_size s)) (view content s') (i_block info) j =
      file_byte (unat (fs_block_size s)) ?V (i_block info) j"
    by (simp add: file_byte_def blk less_mult_imp_div_less)
qed

text \<open>The result of \<open>ext2_file_write\<close>: \<open>k\<close> bytes are stored, the inode is stored in block \<open>tb\<close>.\<close>

definition file_written :: "('d \<Rightarrow> u64 \<Rightarrow> blk) \<Rightarrow> ('d \<Rightarrow> bool) \<Rightarrow> (u64 \<Rightarrow> bool) \<Rightarrow> u64 \<Rightarrow> u64 \<Rightarrow> u64 \<Rightarrow> nat \<Rightarrow> nat \<Rightarrow>
    u8 list \<Rightarrow> nat \<Rightarrow> sb_info \<Rightarrow> inode_info \<Rightarrow> inode \<Rightarrow> 'd fs_state \<Rightarrow> i32 \<Rightarrow> sb_info \<Rightarrow> inode_info \<Rightarrow> inode \<Rightarrow> 'd fs_state \<Rightarrow> bool" where
  "file_written content ok vb sbno p tb ioff q src k sbi info x s r sbi' info' x' s' \<longleftrightarrow>
     (let bs = unat (fs_block_size s); V = view content s; V' = view content s' in
      file_inv content ok vb sbno p sbi' info' s' \<and> calm (slots s) (slots s') \<and>
      fs_block_size s' = fs_block_size s \<and> k \<le> length src \<and> stored content q src k info s info' s' \<and>
      (\<forall>b. b \<notin> meta_blocks (fs_block_size s) V sbno sbi \<longrightarrow> b \<notin> own content sbno sbi info s \<longrightarrow> b \<noteq> tb \<longrightarrow> V' b = V b) \<and>
      inodes s' = (inodes s)(p \<mapsto> x') \<and>
      (if k = length src then
         r = of_nat k \<and> x' = x\<lparr>i_size := of_nat (max (unat (i_size x)) (q + k)), i_dirty := False\<rparr> \<and>
         (i_dirty x \<or> inode_at (V tb) ioff x info \<longrightarrow> inode_at (V' tb) ioff x' info')
       else
         r = (if k = 0 then - 1 else of_nat k) \<and> i_size x' = i_size x \<and> V' tb = V tb \<and>
         (free_blocks V' sbno sbi' = {} \<or> max_blocks (bs div 4) * bs \<le> q + k)))"

context block_device
begin

lemma file_size_run:
  assumes "inodes s p = Some x"
  shows "bindK (get_inode p) (\<lambda>x. thenK (if i_size x < n then put_inode p (x\<lparr>i_size := n, i_dirty := True\<rparr>) else retK ()) k) s =
    k (s\<lparr>inodes := (inodes s)(p \<mapsto> if i_size x < n then x\<lparr>i_size := n, i_dirty := True\<rparr> else x)\<rparr>)"
  using assms by (simp add: bindK_run thenK_run get_inode_def put_inode_def needK_run fun_upd_idem)

lemma file_write_run:
  fixes off :: u32
  assumes inv: "file_inv content ok vb sbno p sbi info s" "room 2 (slots s)"
    and x: "p \<noteq> 0" "inodes s p = Some x" "i_valid x"
    and loc: "ext2_inode_loc (i_ino x) s = Inr ((tb, ioff), s)" "vb (ucast tb)" "unat ioff + 100 \<le> BLKSZ"
      "ucast tb \<notin> meta_blocks (fs_block_size s) (view content s) sbno sbi" "ucast tb \<notin> own content sbno sbi info s"
    and src: "src \<noteq> []" "unat off + length src < 2 ^ 32"
  shows "\<exists>k r s' sbi' info' x'. ext2_file_write D p src off s = Inr ((r, off + of_nat k), s') \<and>
    file_written content ok vb sbno p (ucast tb) (unat ioff) (unat off) src k sbi info x s r sbi' info' x' s' \<and>
    files s' = files s"
proof -
  note f = file_invD [OF inv(1)]
  let ?bs = "unat (fs_block_size s)" and ?V = "view content s"
  have bs: "\<not> 4096 < fs_block_size s" "0 < ?bs"
    using f(9,10) by (simp_all add: word_less_nat_alt BLKSZ_def)
  have fuel: "length src - 0 = 0 \<or> length src - 0 + unat off mod ?bs \<le> (length src div ?bs + 2) * ?bs"
    using range_fuel [OF bs(2)] by simp
  obtain early r k s1 sbi1 info1 where
    l: "file_write_loop (length src div ?bs + 2) D p src 0 off (\<lambda>_. 0) s = Inr ((early, r, of_nat (unat off + k)), s1)"
      "evolved content ok vb sbno p sbi info s sbi1 info1 s1" "stored content (unat off) src k info s info1 s1" "k \<le> length src"
      "if early then k < length src \<and> r = (if k = 0 then - 1 else of_nat k) \<and>
         (free_blocks (view content s1) sbno sbi1 = {} \<or> max_blocks (?bs div 4) * ?bs \<le> unat off + k)
       else k = length src \<and> r = of_nat k"
    using file_write_loop_run [OF inv(2) src(2) evolved_grown [OF grown_refl [OF inv(1)]] stored_view [OF refl] _ _ _ fuel, of 0 "\<lambda>_. 0"]
    by auto
  note d = evolvedD [OF l(2)]
  have off: "(of_nat (unat off + k) :: u32) = off + of_nat k"
    by simp
  obtain dd where x1: "inodes s1 = (inodes s)(p \<mapsto> x\<lparr>i_dirty := dd\<rparr>)" "i_dirty x \<or> info1 \<noteq> info \<longrightarrow> dd"
    using keptD(1) [OF d(6) x(2)] by blast
  have tb1: "ucast tb \<notin> meta_blocks (fs_block_size s1) (view content s1) sbno sbi1" "ucast tb \<notin> own content sbno sbi1 info1 s1"
      "view content s1 (ucast tb) = ?V (ucast tb)"
    using d(5) loc(4,5) unfolding confined_def by auto
  show ?thesis
  proof (cases early)
    case True
    then have "ext2_file_write D p src off s = Inr ((r, off + of_nat k), s1)"
      using l(1) bs(1) src(1) by (simp add: ext2_file_write_def bindK_run)
    moreover have "file_written content ok vb sbno p (ucast tb) (unat ioff) (unat off) src k sbi info x s r sbi1 info1
        (x\<lparr>i_dirty := dd\<rparr>) s1"
      using True l(3-5) d(1,2,3,5) x1(1) tb1(3) by (simp add: file_written_def Let_def confined_def)
    ultimately show ?thesis
      using kept_files [OF d(6)] by blast
  next
    case False
    then have k: "k = length src" "r = of_nat k"
      using l(5) by simp_all
    let ?o = "off + of_nat k :: u32"
    have o: "unat ?o = unat off + k"
      using src(2) k(1) by (simp add: unat_word_ariths unat_of_nat)
    define y where "y = (if i_size x < ?o then x\<lparr>i_dirty := dd, i_size := ?o, i_dirty := True\<rparr> else x\<lparr>i_dirty := dd\<rparr>)"
    define s2 where "s2 = s1\<lparr>inodes := (inodes s1)(p \<mapsto> y)\<rparr>"
    have y: "i_size y = of_nat (max (unat (i_size x)) (unat off + k))" "i_fs_private y = i_fs_private x" "i_valid y"
        "i_ino y = i_ino x" "y\<lparr>i_dirty := False\<rparr> = x\<lparr>i_size := of_nat (max (unat (i_size x)) (unat off + k)), i_dirty := False\<rparr>"
    proof -
      have "(of_nat (unat off + k) :: u32) = ?o" "(of_nat (unat (i_size x)) :: u32) = i_size x"
        by simp_all
      then show s: "i_size y = of_nat (max (unat (i_size x)) (unat off + k))"
      proof (cases "i_size x < ?o")
        case True
        then have "max (unat (i_size x)) (unat off + k) = unat off + k"
          by (simp add: word_less_nat_alt o)
        then show ?thesis
          using True by (simp add: y_def)
      next
        case False
        then have "max (unat (i_size x)) (unat off + k) = unat (i_size x)"
          by (simp add: word_less_nat_alt o)
        then show ?thesis
          using False by (simp add: y_def)
      qed
      show "i_fs_private y = i_fs_private x" "i_valid y" "i_ino y = i_ino x"
        using x(3) by (simp_all add: y_def)
      show "y\<lparr>i_dirty := False\<rparr> = x\<lparr>i_size := of_nat (max (unat (i_size x)) (unat off + k)), i_dirty := False\<rparr>"
        unfolding s [symmetric] by (simp add: y_def)
    qed
    have x1p: "inodes s1 p = Some (x\<lparr>i_dirty := dd\<rparr>)"
      by (simp add: x1(1))
    have inodes2: "inodes s2 p = Some y" "inodes s2 = (inodes s)(p \<mapsto> y)"
      using x1(1) by (simp_all add: s2_def)
    have view2: "view content s2 = view content s1" "fs_block_size s2 = fs_block_size s1" "slots s2 = slots s1" "infos s2 = infos s1"
        "files s2 = files s1"
        "own content sbno sbi1 info1 s2 = own content sbno sbi1 info1 s1" "fs_private s2 = fs_private s1"
      by (simp_all add: s2_def own_def)
    have inv2: "file_inv content ok vb sbno p sbi1 info1 s2"
      unfolding s2_def by (rule file_inv_inode [OF d(1) x1p]) (simp add: y(2))
    have run: "ext2_file_write D p src off s = thenK (if i_dirty y then bindK (ext2_write_inode D p) (\<lambda>_. retK ()) else retK ())
        (retK (r, ?o)) s2"
    proof -
      let ?store = "bindK (get_inode p) (\<lambda>x. thenK (if i_dirty x then bindK (ext2_write_inode D p) (\<lambda>_. retK ()) else retK ())
        (retK (r, ?o)))"
      have "ext2_file_write D p src off s = bindK (get_inode p) (\<lambda>x. thenK (if i_size x < ?o
          then put_inode p (x\<lparr>i_size := ?o, i_dirty := True\<rparr>) else retK ()) ?store) s1"
        using l(1) False bs(1) src(1) by (simp add: ext2_file_write_def bindK_run)
      also have "\<dots> = ?store s2"
        unfolding file_size_run [OF x1p] s2_def y_def by simp
      also have "\<dots> = thenK (if i_dirty y then bindK (ext2_write_inode D p) (\<lambda>_. retK ()) else retK ()) (retK (r, ?o)) s2"
        by (simp add: bindK_run get_inode_def needK_run inodes2(1))
      finally show ?thesis .
    qed
    show ?thesis
    proof (cases "i_dirty y")
      case clean: False
      have "file_written content ok vb sbno p (ucast tb) (unat ioff) (unat off) src k sbi info x s r sbi1 info1 y s2"
      proof -
        have c: "\<not> i_size x < ?o" "\<not> dd"
          using clean by (auto simp: y_def split: if_splits)
        then have e: "y = y\<lparr>i_dirty := False\<rparr>" "info1 = info" "\<not> i_dirty x" "y = x\<lparr>i_dirty := False\<rparr>"
          using x1(2) by (auto simp: y_def)
        have "y = x\<lparr>i_size := of_nat (max (unat (i_size x)) (unat off + k)), i_dirty := False\<rparr>"
          using e(1) y(5) by simp
        moreover have "inode_at b i y info" if "inode_at b i x info" for b i
          using that by (simp add: e(4) inode_at_def)
        moreover have "stored content (unat off) src k info s info1 s2"
          using l(3) by (simp add: stored_def view2)
        ultimately show ?thesis
          using inv2 d(2,3,5) k l(4) inodes2(2) e(2,3) tb1(3)
          by (simp add: file_written_def Let_def confined_def view2)
      qed
      then show ?thesis
        using run clean view2(5) kept_files [OF d(6)] by (auto simp: thenK_run)
    next
      case True
      note g = file_invD [OF inv2]
      have info2: "infos s2 (i_fs_private y) = Some info1"
        using g(4) inodes2(1) by auto
      have loc2: "ext2_inode_loc (i_ino y) s2 = Inr ((tb, ioff), s2)"
        unfolding y(4)
        by (rule inode_loc_layout [OF loc(1) _ _ d(4)]) (use f(7) g(7) d(2) view2(2) in \<open>simp_all add: mounted_def\<close>)
      have room2: "room (Suc 0) (slots s2)" and len2: "length (i_block info1) = EXT2_N_BLOCKS"
        using g(5,8) by (simp_all add: file_wf_def)
      obtain b s3 where s3: "ext2_write_inode D p s2 = Inr (0, s3)" "inode_at b (unat ioff) y info1"
          "quietly (s2\<lparr>inodes := (inodes s2)(p \<mapsto> y\<lparr>i_dirty := False\<rparr>)\<rparr>) ((view content s2)(ucast tb := b)) s3"
        by (rule write_inode_run [OF g(6) room2 x(1) inodes2(1) y(3) info2 len2 loc2 loc(2,3)]) (rule that; assumption)
      let ?s = "s2\<lparr>inodes := (inodes s2)(p \<mapsto> y\<lparr>i_dirty := False\<rparr>)\<rparr>"
      have inv3: "file_inv content ok vb sbno p sbi1 info1 ?s"
        by (rule file_inv_inode [OF inv2 inodes2(1)]) simp
      have "file_written content ok vb sbno p (ucast tb) (unat ioff) (unat off) src k sbi info x s r sbi1 info1
          (y\<lparr>i_dirty := False\<rparr>) s3"
      proof -
        have same: "view content ?s = view content s1" "fs_block_size ?s = fs_block_size s1"
            "own content sbno sbi1 info1 ?s = own content sbno sbi1 info1 s1"
          using view2 by (simp_all add: own_def)
        have q: "quietly ?s ((view content ?s)(ucast tb := b)) s3"
          using s3(3) by (simp only: same(1) view2(1))
        note el = file_inv_elsewhere [OF inv3 q tb1(1,2) [folded same]]
        have v3: "view content s3 = (view content s1)(ucast tb := b)" and e3: "fs_block_size s3 = fs_block_size s"
            "inodes s3 = (inodes s)(p \<mapsto> y\<lparr>i_dirty := False\<rparr>)" "calm (slots s) (slots s3)"
          using quietD(2,3) [OF q] fs_more [OF quietD(4) [OF q]] same d(2,3) inodes2(2) view2(3)
          by (auto intro: calm_trans)
        have "stored content (unat off) src k info s info1 s3"
          using l(3) el(3) by (simp add: stored_def Let_def same view2 d(2))
        moreover have "inode_at b (unat ioff) (y\<lparr>i_dirty := False\<rparr>) info1"
          using s3(2) by (simp add: inode_at_def)
        ultimately show ?thesis
          using el(1) e3 k l(4) y(5) d(5) by (simp add: file_written_def Let_def confined_def v3)
      qed
      moreover have "files s3 = files s"
        using fs_more(6) [OF quietD(4) [OF s3(3)]] view2(5) kept_files [OF d(6)] by simp
      ultimately show ?thesis
        using run True s3(1) by (auto simp: thenK_run bindK_run)
    qed
  qed
qed

end

end
