(* ===== verification/FileIO.thy ===== *)
theory FileIO
  imports FileRange VFile
begin

text \<open>
  Reading and writing through an open file: \<open>fileread\<close> and \<open>filewrite\<close>, down through \<open>readi\<close> and
  \<open>writei\<close>, the block map and the allocator to the block cache, against the bytes of the file.
\<close>

lemma fs_files_simps [simp]:
  fixes s :: "'d fs_state"
  shows "view content (s\<lparr>files := z\<rparr>) = view content s" "bc_inv content ok vb (s\<lparr>files := z\<rparr>) = bc_inv content ok vb s"
    "mounted (s\<lparr>files := z\<rparr>) sbi sbno = mounted s sbi sbno"
  by (auto simp: view_def bc_inv_def mounted_def fun_eq_iff split: option.split)

lemma file_inv_files [simp]:
  "file_inv content ok vb sbno p sbi info (s\<lparr>files := z\<rparr>) = file_inv content ok vb sbno p sbi info s"
  by (simp add: file_inv_def alloc_inv_def Let_def)

lemma file_written_files:
  "file_written content ok vb sbno p tb ioff q src k sbi info x s r sbi' info' x' (s'\<lparr>files := z\<rparr>) =
    file_written content ok vb sbno p tb ioff q src k sbi info x s r sbi' info' x' s'"
  by (simp add: file_written_def stored_def)

lemma sint_of_nat: "n < 2 ^ 31 \<Longrightarrow> 0 < sint (of_nat n :: i32) \<longleftrightarrow> 0 < n"
  by (simp add: signed_of_nat signed_take_bit_int_eq_self)

text \<open>
  C10: reading through an open file. \<open>fileread\<close> returns the bytes of the file from the offset on,
  as many as asked for or as are left, with zeros for holes, advances the offset by their number
  and changes neither the file nor anything else the file system sees.
\<close>

theorem fileread_correct:
  fixes len :: u64
  assumes D: "block_device D content ok vb" and inv: "file_inv content ok vb sbno p sbi info s"
    and f: "f \<noteq> 0" "files s f = Some fd" "f_inode fd = p" "FILE_READABLE fd"
    and x: "p \<noteq> 0" "inodes s p = Some x" "i_type x = INODE_FILE" "i_fops x = Some ext2_file_ops"
    and bound: "unat (i_size x) \<le> max_blocks (unat (fs_block_size s) div 4) * unat (fs_block_size s)" "unat len < 2 ^ 31"
  defines "n \<equiv> min (unat len) (unat (i_size x) - unat (f_offset fd))"
  shows "\<exists>s'. fileread D U f len s = Inr ((of_nat n, map (file_byte (unat (fs_block_size s)) (view content s) (i_block info))
        [unat (f_offset fd)..<unat (f_offset fd) + n]), s') \<and>
      files s' = (files s)(f \<mapsto> fd\<lparr>f_offset := f_offset fd + of_nat n\<rparr>) \<and> inodes s' = inodes s \<and>
      view content s' = view content s \<and> file_inv content ok vb sbno p sbi info s'"
proof -
  have b: "unat (f_offset fd) + unat len < 2 ^ 64"
  proof -
    have "unat (f_offset fd) < 4294967296"
      by (rule less_le_trans [OF unsigned_less]) simp
    moreover have "unat len < 4294967296"
      using bound(2) by simp
    ultimately have "unat (f_offset fd) + unat len < 18446744073709551616"
      by linarith
    then show ?thesis
      by simp
  qed
  have n: "n < 2 ^ 31"
    using bound(2) by (simp add: n_def)
  obtain s1 where s1: "ext2_file_read D p len (f_offset fd) s = Inr ((of_nat n,
      map (file_byte (unat (fs_block_size s)) (view content s) (i_block info)) [unat (f_offset fd)..<unat (f_offset fd) + n],
      f_offset fd + of_nat n), s1)" "quiet content ok vb s (view content s) s1"
    using block_device.file_read_run [OF D inv x(2) bound(1) b] unfolding n_def by blast
  note e = fs_more [OF quietD(4) [OF s1(2)]]
  have "file_inv content ok vb sbno p sbi info s1"
    using quiet_grown [OF inv s1(2)] grownD(1) by blast
  then show ?thesis
    using f x s1(1) e(4,6) quietD(2) [OF s1(2)] sint_of_nat [OF n]
    by (cases "n = 0") (auto simp: fileread_def readi_def fops_read_def bindK_run thenK_run get_file_def put_file_def
        get_inode_def needK_run fun_upd_idem)
qed

text \<open>
  C2: writing through an open file. \<open>filewrite\<close> stores the bytes at the offset and advances it by
  their number; no other byte of the file changes, and no block of the volume but blocks that
  were free, the file's own, the allocator's and the one that holds the inode. After a complete
  write the size covers the bytes and the inode on disk agrees with the one in memory. It stops
  early only for lack of free blocks or at the largest block a file can have, with the number
  of bytes stored, or -1 for none, and then the size is not updated.
\<close>

theorem filewrite_correct:
  assumes D: "block_device D content ok vb" and inv: "file_inv content ok vb sbno p sbi info s" "room 2 (slots s)"
    and f: "f \<noteq> 0" "files s f = Some fd" "f_inode fd = p" "FILE_WRITABLE fd"
    and x: "p \<noteq> 0" "inodes s p = Some x" "i_type x = INODE_FILE" "i_fops x = Some ext2_file_ops" "i_valid x"
    and loc: "ext2_inode_loc (i_ino x) s = Inr ((tb, ioff), s)" "vb (ucast tb)" "unat ioff + 100 \<le> BLKSZ"
      "ucast tb \<notin> meta_blocks (fs_block_size s) (view content s) sbno sbi" "ucast tb \<notin> own content sbno sbi info s"
    and src: "src \<noteq> []" "unat (f_offset fd) + length src < 2 ^ 31"
  shows "\<exists>k r s' sbi' info' x'. filewrite D U f src s = Inr (r, s') \<and>
    files s' = (files s)(f \<mapsto> fd\<lparr>f_offset := f_offset fd + of_nat k\<rparr>) \<and>
    file_written content ok vb sbno p (ucast tb) (unat ioff) (unat (f_offset fd)) src k sbi info x s r sbi' info' x' s'"
proof -
  have "unat (f_offset fd) + length src < 2 ^ 32"
    using src(2) by simp
  from block_device.file_write_run [OF D inv x(1,2,5) loc src(1) this] obtain k r s1 sbi1 info1 x1 where
    w: "ext2_file_write D p src (f_offset fd) s = Inr ((r, f_offset fd + of_nat k), s1)"
      "file_written content ok vb sbno p (ucast tb) (unat ioff) (unat (f_offset fd)) src k sbi info x s r sbi1 info1 x1 s1"
      "files s1 = files s"
    by blast
  have k: "k < 2 ^ 31" and r: "r = (if k = 0 then - 1 else of_nat k)"
    using w(2) src by (auto simp: file_written_def Let_def split: if_splits)
  let ?s = "if k = 0 then s1 else s1\<lparr>files := (files s1)(f \<mapsto> fd\<lparr>f_offset := f_offset fd + r\<rparr>)\<rparr>"
  have "filewrite D U f src s = Inr (r, ?s)"
    using f x w(1) sint_of_nat [OF k] r
    by (simp add: filewrite_def writei_def fops_write_def bindK_run thenK_run get_file_def put_file_def get_inode_def needK_run)
  moreover have "files ?s = (files s)(f \<mapsto> fd\<lparr>f_offset := f_offset fd + of_nat k\<rparr>)"
    using f(2) r w(3) by (simp add: fun_upd_idem)
  moreover have "file_written content ok vb sbno p (ucast tb) (unat ioff) (unat (f_offset fd)) src k sbi info x s r sbi1 info1 x1 ?s"
    using w(2) by (cases "k = 0") (simp_all add: file_written_files)
  ultimately show ?thesis
    by blast
qed

text \<open>
  The small volume with a file of 8 bytes, open for reading and writing at offset 2;
  its inode is at byte 1408 of block 4.
\<close>

definition open_inode :: inode where
  "open_inode = \<lparr>i_ino = 12, i_type = INODE_FILE, i_mode = 0x81A4, i_uid = 0, i_gid = 0, i_size = 8, i_nlinks = 1,
     i_ref = 1, i_dirty = False, i_valid = True, i_fops = Some ext2_file_ops, i_fs_private = 0x2000\<rparr>"

definition open_fd :: vfile where
  "open_fd = \<lparr>f_ref = 1, f_flags = 2, f_offset = 2, f_inode = 0x1000, f_ops = Some ext2_file_ops\<rparr>"

definition open_file :: "(u64 \<Rightarrow> blk) fs_state" where
  "open_file = small_file\<lparr>inodes := (inodes small_file)(0x1000 \<mapsto> open_inode), files := [0x3000 \<mapsto> open_fd]\<rparr>"

lemma open_file_simps:
  "view ram_content open_file = view ram_content small_fs" "fs_block_size open_file = 4096" "slots open_file = slots small_file"
  "files open_file 0x3000 = Some open_fd" "inodes open_file 0x1000 = Some open_inode" "fs_private open_file = Some small_sbi"
  by (simp_all add: open_file_def small_file_def) (simp_all add: small_fs_def)

lemma open_file_inv:
  "file_inv ram_content (\<lambda>_. True) (\<lambda>_. True) 0 0x1000 small_sbi small_info open_file"
  unfolding open_file_def fs_state.fold_congs
  by (simp, rule file_inv_inode [OF small_file_inv], simp add: small_file_def, simp add: open_inode_def)

lemma open_fd_rw: "FILE_READABLE open_fd" "FILE_WRITABLE open_fd"
  by (simp_all add: FILE_READABLE_def FILE_WRITABLE_def open_fd_def)

lemma open_bytes: "q \<in> {2..<8} \<Longrightarrow> file_byte 4096 (view ram_content open_file) (i_block small_info) q = 0"
proof -
  assume q: "q \<in> {2..<8}"
  then have "q div 4096 = 0"
    by auto
  then show ?thesis
    by (simp add: file_byte_def file_block_def data_key_def small_info_def Let_def open_file_simps small_view small_disk_def) (simp add: nb_def)
qed

lemma fileread_correct_witness:
  "\<forall>U. \<exists>s'. fileread ram_disk U 0x3000 8 open_file = Inr ((6, [0, 0, 0, 0, 0, 0]), s') \<and>
    files s' 0x3000 = Some (open_fd\<lparr>f_offset := 8\<rparr>)"
proof
  fix U
  have "unat (i_size open_inode) \<le> max_blocks (unat (fs_block_size open_file) div 4) * unat (fs_block_size open_file)"
    by (simp add: open_file_simps open_inode_def max_blocks_def)
  note x = fileread_correct [OF ram_disk open_file_inv _ open_file_simps(4) _ open_fd_rw(1) _ open_file_simps(5) _ _ this, of 8 U]
  show "\<exists>s'. fileread ram_disk U 0x3000 8 open_file = Inr ((6, [0, 0, 0, 0, 0, 0]), s') \<and>
      files s' 0x3000 = Some (open_fd\<lparr>f_offset := 8\<rparr>)"
  proof -
    have "map (file_byte 4096 (view ram_content open_file) (i_block small_info)) [2..<8] = [0, 0, 0, 0, 0, 0]"
      by (simp add: upt_rec open_bytes)
    then show ?thesis
      using x by (auto simp: open_file_simps(2) open_inode_def open_fd_def)
  qed
qed

lemma open_loc:
  "ext2_inode_loc (i_ino open_inode) open_file = Inr ((4, 1408), open_file)"
  by (simp add: ext2_inode_loc_def bindK_run get_sbi_def needK_run open_file_simps open_inode_def assertK_True)
    (simp add: small_sbi_def small_desc_def Let_def assertK_True open_file_simps)

lemma open_elsewhere:
  "4 \<notin> meta_blocks (fs_block_size open_file) (view ram_content open_file) 0 small_sbi"
  "4 \<notin> own ram_content 0 small_sbi small_info open_file"
proof -
  show "4 \<notin> meta_blocks (fs_block_size open_file) (view ram_content open_file) 0 small_sbi"
    by (simp add: open_file_simps meta_blocks_def small_fields)
  have "(4 :: u64) \<noteq> ucast no" if "unat (no :: u32) \<in> {5, 6}" for no
    using small_free_no [OF that] by auto
  then show "4 \<notin> own ram_content 0 small_sbi small_info open_file"
    by (auto simp: own_def open_file_simps small_free small_blkref split: if_splits)
qed

lemma filewrite_correct_witness:
  "\<forall>U. \<exists>k r s' sbi' info' x'. filewrite ram_disk U 0x3000 [1, 2, 3, 4, 5, 6, 7, 8] open_file = Inr (r, s') \<and>
    files s' = (files open_file)(0x3000 \<mapsto> open_fd\<lparr>f_offset := f_offset open_fd + of_nat k\<rparr>) \<and>
    file_written ram_content (\<lambda>_. True) (\<lambda>_. True) 0 0x1000 4 1408 2 [1, 2, 3, 4, 5, 6, 7, 8] k small_sbi small_info
      open_inode open_file r sbi' info' x' s'"
proof
  fix U
  have room: "room 2 (slots open_file)"
    using small_file_room by (simp add: open_file_simps)
  show "\<exists>k r s' sbi' info' x'. filewrite ram_disk U 0x3000 [1, 2, 3, 4, 5, 6, 7, 8] open_file = Inr (r, s') \<and>
    files s' = (files open_file)(0x3000 \<mapsto> open_fd\<lparr>f_offset := f_offset open_fd + of_nat k\<rparr>) \<and>
    file_written ram_content (\<lambda>_. True) (\<lambda>_. True) 0 0x1000 4 1408 2 [1, 2, 3, 4, 5, 6, 7, 8] k small_sbi small_info
      open_inode open_file r sbi' info' x' s'"
    using filewrite_correct [OF ram_disk open_file_inv room _ open_file_simps(4) _ open_fd_rw(2) _ open_file_simps(5) _ _ _ open_loc,
      of "[1, 2, 3, 4, 5, 6, 7, 8]" U] open_elsewhere
    by (simp add: open_fd_def open_inode_def BLKSZ_def)
qed

end
