(* ===== verification/DirBlock.thy ===== *)
theory DirBlock
  imports Dir
begin

text \<open>
  The block format of an ext2 directory: a block holds a chain of entries that covers it, and
  stands for a finite map from names to inode numbers. The searches and updates of
  \<open>fs/ext2/dir.c\<close> on one block implement the look-up, insertion and removal of that map.
\<close>

section \<open>Well-formed blocks and what they stand for\<close>

text \<open>
  The entries at the positions \<open>ps\<close> cover the block from \<open>pos\<close> to its end. The length of an
  entry is a multiple of 4 and leaves room for its name.
\<close>

fun wf_dir :: "blk \<Rightarrow> nat \<Rightarrow> nat \<Rightarrow> nat list \<Rightarrow> bool" where
  "wf_dir b bs pos [] \<longleftrightarrow> pos = bs"
| "wf_dir b bs pos (p # ps) \<longleftrightarrow> p = pos \<and> 8 + unat (de_name_len b p) \<le> unat (de_rec_len b p) \<and>
     unat (de_rec_len b p) mod 4 = 0 \<and> p + unat (de_rec_len b p) \<le> bs \<and>
     wf_dir b bs (p + unat (de_rec_len b p)) ps"

definition ent_name :: "blk \<Rightarrow> nat \<Rightarrow> u8 list" where
  "ent_name b p = de_name b p (unat (de_name_len b p))"

text \<open>The live entries, in order: the abstract directory is the map of this list.\<close>

definition dirents :: "blk \<Rightarrow> nat list \<Rightarrow> (u8 list \<times> u32) list" where
  "dirents b ps = map (\<lambda>p. (ent_name b p, de_inode b p)) (filter (\<lambda>p. de_inode b p \<noteq> 0) ps)"

lemma wf_dir_ge: "wf_dir b bs pos ps \<Longrightarrow> p \<in> set ps \<Longrightarrow> pos \<le> p \<and> p + unat (de_rec_len b p) \<le> bs"
  by (induction ps arbitrary: pos) fastforce+

lemma wf_dir_le: "wf_dir b bs pos ps \<Longrightarrow> pos \<le> bs"
  by (induction ps arbitrary: pos) fastforce+

lemma wf_dir_size: "wf_dir b bs pos ps \<Longrightarrow> p \<in> set ps \<Longrightarrow>
    8 + unat (de_name_len b p) \<le> unat (de_rec_len b p) \<and> unat (de_rec_len b p) mod 4 = 0"
  by (induction ps arbitrary: pos) auto

lemma wf_dir_append: "wf_dir b bs pos (ps @ qs) \<longleftrightarrow> (\<exists>mid. wf_dir b mid pos ps \<and> wf_dir b bs mid qs)"
proof (induction ps arbitrary: pos)
  case Nil
  then show ?case
    by auto
next
  case (Cons p ps)
  show ?case
  proof
    assume "wf_dir b bs pos ((p # ps) @ qs)"
    then show "\<exists>mid. wf_dir b mid pos (p # ps) \<and> wf_dir b bs mid qs"
      using Cons.IH wf_dir_le by fastforce
  next
    assume "\<exists>mid. wf_dir b mid pos (p # ps) \<and> wf_dir b bs mid qs"
    then obtain mid where "wf_dir b mid pos (p # ps)" "wf_dir b bs mid qs"
      by blast
    moreover from this have "mid \<le> bs"
      using wf_dir_le by blast
    ultimately show "wf_dir b bs pos ((p # ps) @ qs)"
      using Cons.IH by auto
  qed
qed

lemma wf_dir_distinct: "wf_dir b bs pos ps \<Longrightarrow> distinct ps \<and> sorted ps"
proof (induction ps arbitrary: pos)
  case (Cons p ps)
  then have "wf_dir b bs (p + unat (de_rec_len b p)) ps" "0 < unat (de_rec_len b p)"
    by auto
  then show ?case
    using Cons.IH wf_dir_ge by fastforce
qed simp

lemma de_name_length [simp]: "length (de_name b p n) = n"
  by (simp add: de_name_def)

lemma matches_name:
  "de_name_len b p = of_nat (length name) \<and> de_name b p (length name) = name \<longleftrightarrow> ent_name b p = name"
  if "length name < 256"
proof
  assume "de_name_len b p = of_nat (length name) \<and> de_name b p (length name) = name"
  moreover from this that have "unat (de_name_len b p) = length name"
    by (simp add: unat_of_nat)
  ultimately show "ent_name b p = name"
    by (simp add: ent_name_def)
next
  assume "ent_name b p = name"
  then have "length name = unat (de_name_len b p)" "de_name b p (unat (de_name_len b p)) = name"
    by (auto simp: ent_name_def)
  then show "de_name_len b p = of_nat (length name) \<and> de_name b p (length name) = name"
    by simp
qed

text \<open>The entry before position \<open>p\<close> in the chain.\<close>

fun before :: "nat \<Rightarrow> nat list \<Rightarrow> nat option \<Rightarrow> nat option" where
  "before p [] prev = None"
| "before p (q # qs) prev = (if q = p then prev else before p qs (Some q))"

section \<open>Search\<close>

lemma dir_scan_result:
  assumes "wf_dir b bs pos ps" and "bs \<le> BLKSZ" and "length name < 256" and "bs - pos \<le> fuel"
  shows "dir_scan fuel b bs name pos prev =
    Inr (map_option (\<lambda>p. (p, before p ps prev)) (find (\<lambda>p. de_inode b p \<noteq> 0 \<and> ent_name b p = name) ps))"
  using assms
proof (induction ps arbitrary: pos prev fuel)
  case Nil
  then show ?case
    by (subst dir_scan.simps) simp
next
  case (Cons p ps)
  let ?r = "unat (de_rec_len b p)"
  have h: "p = pos" "8 + unat (de_name_len b p) \<le> ?r" "p + ?r \<le> bs" "wf_dir b bs (p + ?r) ps"
    using Cons.prems(1) by auto
  then obtain fuel' where f: "fuel = Suc fuel'"
    using Cons.prems(4) by (cases fuel) auto
  have r0: "de_rec_len b p \<noteq> 0"
    using h(2) by auto
  have nm: "pos + 8 + length name \<le> BLKSZ" if "de_name_len b pos = of_nat (length name)"
    using that h Cons.prems(2,3) by (simp add: unat_of_nat)
  have "dir_scan fuel' b bs name (pos + ?r) (Some pos) =
      Inr (map_option (\<lambda>p. (p, before p ps (Some pos))) (find (\<lambda>p. de_inode b p \<noteq> 0 \<and> ent_name b p = name) ps))"
    using Cons.IH [OF h(4) Cons.prems(2,3), of fuel' "Some pos"] h f Cons.prems(4) by auto
  moreover have "p \<notin> set ps"
    using wf_dir_distinct [OF Cons.prems(1)] by simp
  ultimately show ?case
    using h f r0 nm matches_name [OF Cons.prems(3), of b p]
    by (subst dir_scan.simps) (auto simp: option.map_comp find_Some_iff intro!: option.map_cong)
qed


text \<open>
  A directory block: its chain covers it and no name occurs twice.
\<close>

definition dir_ok :: "blk \<Rightarrow> nat \<Rightarrow> nat list \<Rightarrow> bool" where
  "dir_ok b bs ps \<longleftrightarrow> wf_dir b bs 0 ps \<and> distinct (map fst (dirents b ps))"

definition dir_map :: "blk \<Rightarrow> nat list \<Rightarrow> u8 list \<rightharpoonup> u32" where
  "dir_map b ps = map_of (dirents b ps)"

lemma dirents_Nil [simp]: "dirents b [] = []"
  by (simp add: dirents_def)

lemma dirents_Cons [simp]:
  "dirents b (p # ps) = (if de_inode b p \<noteq> 0 then [(ent_name b p, de_inode b p)] else []) @ dirents b ps"
  by (simp add: dirents_def)

lemma dirents_append [simp]: "dirents b (ps @ qs) = dirents b ps @ dirents b qs"
  by (simp add: dirents_def)

lemma dir_map_find:
  "dir_map b ps name = map_option (de_inode b) (find (\<lambda>p. de_inode b p \<noteq> 0 \<and> ent_name b p = name) ps)"
  by (induction ps) (auto simp: dir_map_def)

text \<open>
  The search of a directory block returns the inode number the block maps the name to, and
  says that there is none only when the block does not contain the name; it always ends.
\<close>

theorem dir_scan_correct:
  assumes "dir_ok b bs ps" and "bs \<le> BLKSZ" and "length name < 256"
  shows "\<exists>hit. dir_scan bs b bs name 0 None = Inr hit \<and>
    dir_map b ps name = map_option (\<lambda>(p, prev). de_inode b p) hit"
  using dir_scan_result [of b bs 0 ps name bs None] assms
  by (simp add: dir_ok_def dir_map_find option.map_comp comp_def)

section \<open>Insertion\<close>

text \<open>The bytes an entry is read from: its header and its name.\<close>

definition same_ent :: "blk \<Rightarrow> blk \<Rightarrow> nat \<Rightarrow> bool" where
  "same_ent b b' q \<longleftrightarrow> de_inode b' q = de_inode b q \<and> de_rec_len b' q = de_rec_len b q \<and>
     de_name_len b' q = de_name_len b q \<and> ent_name b' q = ent_name b q"

lemma same_entI:
  assumes "\<And>i. q \<le> i \<Longrightarrow> i < q + 8 + unat (de_name_len b q) \<Longrightarrow> b' i = b i"
  shows "same_ent b b' q"
proof -
  have nl: "de_name_len b' q = de_name_len b q"
    using assms [of "q + 6"] by (simp add: de_name_len_def)
  moreover have "de_name b' q (unat (de_name_len b q)) = de_name b q (unat (de_name_len b q))"
    using assms by (auto simp: de_name_def)
  ultimately show ?thesis
    using assms by (simp add: same_ent_def ent_name_def de_inode_def de_rec_len_def rd32_def rd16_def)
qed

lemma dirents_cong: "(\<And>q. q \<in> set ps \<Longrightarrow> same_ent b b' q) \<Longrightarrow> dirents b' ps = dirents b ps"
  by (induction ps) (auto simp: same_ent_def)

lemma wf_dir_cong: "(\<And>q. q \<in> set ps \<Longrightarrow> same_ent b b' q) \<Longrightarrow> wf_dir b' bs pos ps = wf_dir b bs pos ps"
  by (induction ps arbitrary: pos) (auto simp: same_ent_def)

lemma unat_de_size: "n < 256 \<Longrightarrow> unat (de_size (of_nat n)) = (n + 11) div 4 * 4"
proof -
  assume n: "n < 256"
  have u: "unat (8 + of_nat n + 3 :: u32) = n + 11"
  proof -
    have "8 + of_nat n + 3 = (of_nat (n + 11) :: u32)"
      by simp
    then show ?thesis
      using n by (simp only:) (rule unat_of_nat32, simp)
  qed
  have "(x AND NOT 3) = x - (x AND 3)" for x :: u32
  proof -
    have "(x AND NOT 3) + (x AND 3) = (x AND NOT 3) OR (x AND 3)"
      by (rule disjunctive_add) (auto simp: bit_simps)
    also have "\<dots> = x"
      by (rule bit_word_eqI) (auto simp: bit_simps)
    finally show ?thesis
      by (simp add: eq_diff_eq)
  qed
  moreover have "unat (x AND 3) = unat x mod 4" for x :: u32
    using unat_mask_low [of x 2] by (simp add: mask_eq_exp_minus_1)
  moreover have "x AND 3 \<le> x" for x :: u32
    by (simp add: word_le_nat_alt calculation(2))
  ultimately have "unat (de_size (of_nat n)) = n + 11 - (n + 11) mod 4"
    by (simp only: de_size_def unat_sub_le u)
  then show ?thesis
    by (simp add: minus_mod_eq_div_mult)
qed

text \<open>The size of the used part of an entry.\<close>

definition asz :: "blk \<Rightarrow> nat \<Rightarrow> u32" where
  "asz b p = de_size (ucast (de_name_len b p))"

lemma unat_asz: "unat (asz b p) = (unat (de_name_len b p) + 11) div 4 * 4"
proof -
  have "ucast (de_name_len b p) = (of_nat (unat (de_name_len b p)) :: u32)"
    by (simp add: of_nat_unat)
  moreover have "unat (de_name_len b p) < 256"
    using unsigned_less [of "de_name_len b p"] by simp
  ultimately show ?thesis
    unfolding asz_def using unat_de_size by metis
qed

lemma asz_fits: "8 + n \<le> r \<Longrightarrow> r mod 4 = 0 \<Longrightarrow> (n + 11) div 4 * 4 \<le> (r :: nat)"
  by presburger

lemma slack_scan_result:
  assumes "wf_dir b bs pos ps" and "bs - pos \<le> fuel"
  shows "slack_scan fuel b bs needed pos =
    Inr (map_option (\<lambda>p. (p, asz b p, ucast (de_rec_len b p) - asz b p))
      (find (\<lambda>p. needed \<le> ucast (de_rec_len b p) - asz b p) ps))"
  using assms
proof (induction ps arbitrary: pos fuel)
  case Nil
  then show ?case
    by (subst slack_scan.simps) simp
next
  case (Cons p ps)
  let ?r = "unat (de_rec_len b p)"
  have h: "p = pos" "8 + unat (de_name_len b p) \<le> ?r" "p + ?r \<le> bs" "wf_dir b bs (p + ?r) ps"
    using Cons.prems(1) by auto
  then obtain fuel' where f: "fuel = Suc fuel'"
    using Cons.prems(2) by (cases fuel) auto
  have "de_rec_len b p \<noteq> 0"
    using h(2) by auto
  moreover have "slack_scan fuel' b bs needed (pos + ?r) =
      Inr (map_option (\<lambda>p. (p, asz b p, ucast (de_rec_len b p) - asz b p))
        (find (\<lambda>p. needed \<le> ucast (de_rec_len b p) - asz b p) ps))"
    using Cons.IH [OF h(4)] h f Cons.prems(2) by auto
  ultimately show ?case
    using h f by (subst slack_scan.simps) (simp add: Let_def asz_def)
qed


lemma de_store_fields:
  assumes "length name < 256"
  shows "de_inode (de_store n ino rl (of_nat (length name)) ft name b) n = ino"
    "de_rec_len (de_store n ino rl (of_nat (length name)) ft name b) n = rl"
    "ent_name (de_store n ino rl (of_nat (length name)) ft name b) n = name"
    "unat (de_name_len (de_store n ino rl (of_nat (length name)) ft name b) n) = length name"
proof -
  let ?b = "de_store n ino rl (of_nat (length name)) ft name b"
  have hdr: "?b i = ((wr16 (n + 4) rl (wr32 n ino b))(n + 6 := of_nat (length name), n + 7 := ft)) i" if "i < n + 8" for i
    using that by (simp add: de_store_def bcopy_def)
  show "de_inode ?b n = ino"
    using rd32_wr32 [of n ino b] hdr by (simp add: de_inode_def rd32_def wr16_other)
  show "de_rec_len ?b n = rl"
    using rd16_wr16 [of "n + 4" rl "wr32 n ino b"] hdr by (simp add: de_rec_len_def rd16_def)
  show nl: "unat (de_name_len ?b n) = length name"
    using assms hdr by (simp add: de_name_len_def unat_of_nat)
  have "?b (n + 8 + i) = name ! i" if "i < length name" for i
    using that by (simp add: de_store_def bcopy_def)
  then show "ent_name ?b n = name"
    unfolding ent_name_def nl de_name_def by (intro nth_equalityI) simp_all
qed

lemma de_store_other: "i < n \<or> n + 8 + length name \<le> i \<Longrightarrow> de_store n ino rl nl ft name b i = b i"
  by (auto simp: de_store_def bcopy_def wr16_other wr32_other)

lemma de_size_name: "length name < 256 \<Longrightarrow>
    8 + length name \<le> unat (de_size (of_nat (length name))) \<and> unat (de_size (of_nat (length name))) mod 4 = 0"
  unfolding unat_de_size by (simp add: mod_mult_self2_is_0 mult.commute)

lemma unat_ucast16: "unat (x :: u32) < 65536 \<Longrightarrow> unat (ucast x :: u16) = unat x"
  by (simp add: unsigned_ucast_eq unsigned_take_bit_eq take_bit_nat_eq_self)

text \<open>Splitting the entry at \<open>p\<close>.\<close>

lemma split_entry_chain:
  assumes wf: "wf_dir b bs pos (xs @ p # ys)" and bs: "bs \<le> BLKSZ" and len: "length name < 256"
    and fit: "de_size (of_nat (length name)) \<le> ucast (de_rec_len b p) - asz b p" and ino: "ino \<noteq> 0"
    and b': "b' = split_entry p (asz b p) (ucast (de_rec_len b p) - asz b p) ino ft name b"
  shows "wf_dir b' bs pos (xs @ p # (p + unat (asz b p)) # ys)"
    and "dirents b' (xs @ p # (p + unat (asz b p)) # ys) =
      dirents b xs @ dirents b [p] @ (name, ino) # dirents b ys"
    and "\<forall>i. bs \<le> i \<longrightarrow> b' i = b i"
proof -
  let ?r = "unat (de_rec_len b p)" and ?a = "unat (asz b p)"
  let ?n = "p + ?a"
  obtain mid where mid: "wf_dir b mid pos xs" "wf_dir b bs mid (p # ys)"
    using wf by (auto simp: wf_dir_append)
  then have p: "mid = p" "8 + unat (de_name_len b p) \<le> ?r" "?r mod 4 = 0" "p + ?r \<le> bs" "wf_dir b bs (p + ?r) ys"
    by auto
  have a: "?a \<le> ?r" "8 + unat (de_name_len b p) \<le> ?a" "?a mod 4 = 0"
    using asz_fits [OF p(2,3)] by (simp_all add: unat_asz)
  have r: "?r < 65536" "unat (ucast (de_rec_len b p) :: u32) = ?r"
    using less_trans [OF unat_lt_pow16 [of "de_rec_len b p"]] by (simp_all add: unsigned_ucast_eq take_bit_nat_eq_self)
  have sl: "unat (ucast (de_rec_len b p) - asz b p) = ?r - ?a"
    using r(2) a(1) by (simp add: unat_sub_le word_le_nat_alt)
  have sl16: "unat (ucast (ucast (de_rec_len b p) - asz b p) :: u16) = ?r - ?a"
    using unat_ucast16 [of "ucast (de_rec_len b p) - asz b p"] sl r(1) by (simp add: less_imp_diff_less)
  have nm: "8 + length name \<le> ?r - ?a"
    using fit de_size_name [OF len] sl by (simp add: word_le_nat_alt)
  have a16: "unat (ucast (asz b p) :: u16) = ?a"
    using unat_ucast16 [of "asz b p"] le_less_trans [OF a(1) r(1)] by simp
  have st: "b' = de_store ?n ino (ucast (ucast (de_rec_len b p) - asz b p)) (of_nat (length name)) ft name
      (wr16 (p + 4) (ucast (asz b p)) b)"
    by (simp add: b' split_entry_def)
  have far: "b' i = b i" if "i < p \<or> p + ?r \<le> i" for i
    using that nm a(1,2) unfolding st by (subst de_store_other) (auto simp: wr16_other)
  have head: "b' i = wr16 (p + 4) (ucast (asz b p)) b i" if "i < ?n" for i
    using that unfolding st by (subst de_store_other) auto
  have xs: "same_ent b b' q" if "q \<in> set xs" for q
    using wf_dir_ge [OF mid(1) that] wf_dir_size [OF mid(1) that] p(1) by (intro same_entI far) auto
  have ys: "same_ent b b' q" if "q \<in> set ys" for q
    using wf_dir_ge [OF p(5) that] by (intro same_entI far) auto
  have pf: "de_inode b' p = de_inode b p" "de_name_len b' p = de_name_len b p" "de_rec_len b' p = ucast (asz b p)"
    "ent_name b' p = ent_name b p"
  proof -
    have w: "b' i = b i" if "p \<le> i" "i < p + 4 \<or> p + 6 \<le> i" "i < ?n" for i
      unfolding head [OF that(3)] using that(2) by (intro wr16_other) auto
    show "de_inode b' p = de_inode b p" "de_name_len b' p = de_name_len b p"
      using w a(2) by (simp_all add: de_inode_def rd32_def de_name_len_def)
    then show "ent_name b' p = ent_name b p"
      using w a(2) by (auto simp: ent_name_def de_name_def)
    show "de_rec_len b' p = ucast (asz b p)"
      using rd16_wr16 [of "p + 4" "ucast (asz b p)" b] head a(2) by (simp add: de_rec_len_def rd16_def)
  qed
  have nf: "de_inode b' ?n = ino" "de_rec_len b' ?n = ucast (ucast (de_rec_len b p) - asz b p)"
    "ent_name b' ?n = name" "unat (de_name_len b' ?n) = length name"
    unfolding st by (rule de_store_fields [OF len])+
  have "(?r - ?a) mod 4 = 0"
    using p(3) a(3) a(1) by presburger
  then have "wf_dir b' bs p (p # ?n # ys)"
    using p a nm sl16 a16 pf nf wf_dir_cong [of ys b b' bs "p + ?r"] ys by simp
  moreover have "wf_dir b' p pos xs"
    using mid(1) p(1) wf_dir_cong [of xs b b' p pos] xs by simp
  ultimately show "wf_dir b' bs pos (xs @ p # ?n # ys)"
    unfolding wf_dir_append by blast
  show "dirents b' (xs @ p # ?n # ys) = dirents b xs @ dirents b [p] @ (name, ino) # dirents b ys"
    using dirents_cong [of xs b b'] dirents_cong [of ys b b'] xs ys pf nf ino by simp
  show "\<forall>i. bs \<le> i \<longrightarrow> b' i = b i"
    using far p(4) by auto
qed


lemma map_of_insert_middle:
  "k \<notin> fst ` set xs \<Longrightarrow> map_of (xs @ (k, v) # ys) = (map_of (xs @ ys))(k \<mapsto> v)"
  by (induction xs) (auto simp: fun_eq_iff)

lemma slack_insert:
  assumes "dir_ok b bs ps" and "bs \<le> BLKSZ" and "length name < 256" and "ino \<noteq> 0" and "dir_map b ps name = None"
  shows "\<exists>hit. slack_scan bs b bs (de_size (of_nat (length name))) 0 = Inr hit \<and>
    (\<forall>p actual slack. hit = Some (p, actual, slack) \<longrightarrow>
      (\<exists>ps'. dir_ok (split_entry p actual slack ino ft name b) bs ps' \<and>
        dir_map (split_entry p actual slack ino ft name b) ps' = (dir_map b ps)(name \<mapsto> ino) \<and>
        p + unat actual + 8 + length name \<le> bs))"
proof -
  let ?P = "\<lambda>p. de_size (of_nat (length name)) \<le> ucast (de_rec_len b p) - asz b p"
  have wf: "wf_dir b bs 0 ps"
    using assms(1) by (simp add: dir_ok_def)
  have "\<exists>ps'. dir_ok (split_entry p (asz b p) (ucast (de_rec_len b p) - asz b p) ino ft name b) bs ps' \<and>
      dir_map (split_entry p (asz b p) (ucast (de_rec_len b p) - asz b p) ino ft name b) ps' = (dir_map b ps)(name \<mapsto> ino) \<and>
      p + unat (asz b p) + 8 + length name \<le> bs"
    if "find ?P ps = Some p" for p
  proof -
    let ?b = "split_entry p (asz b p) (ucast (de_rec_len b p) - asz b p) ino ft name b"
    have "p \<in> set ps" and fit: "?P p"
      using that by (auto simp: find_Some_iff)
    then obtain xs ys where ps: "ps = xs @ p # ys"
      using split_list by metis
    note sp = split_entry_chain [OF wf [unfolded ps] assms(2,3) fit assms(4) refl, of ft]
    have fresh: "name \<notin> fst ` set (dirents b ps)"
      using assms(5) by (simp add: dir_map_def map_of_eq_None_iff)
    have de: "dirents b (xs @ p # ys) = (dirents b xs @ dirents b [p]) @ dirents b ys"
      by simp
    then have "name \<notin> fst ` set (dirents b xs @ dirents b [p])"
      using fresh unfolding ps by auto
    from map_of_insert_middle [OF this, of ino "dirents b ys"]
    have "dir_map ?b (xs @ p # (p + unat (asz b p)) # ys) = (dir_map b ps)(name \<mapsto> ino)"
      unfolding dir_map_def sp(2) ps de by (simp only: append_assoc)
    moreover have "dir_ok ?b bs (xs @ p # (p + unat (asz b p)) # ys)"
      unfolding dir_ok_def sp(2) using sp(1) assms(1) fresh unfolding dir_ok_def ps by auto
    moreover have "p + unat (asz b p) + 8 + length name \<le> bs"
      using wf_dir_ge [OF sp(1), of "p + unat (asz b p)"] wf_dir_size [OF sp(1), of "p + unat (asz b p)"]
        de_store_fields(4) [OF assms(3)] by (simp add: split_entry_def)
    ultimately show ?thesis
      by blast
  qed
  then show ?thesis
    using slack_scan_result [OF wf, of bs] by auto
qed

text \<open>
  C15: when the search for slack finds an entry, splitting it inserts the new name: the block is
  again well-formed, its map is the old one with the new name added, no name occurs twice, and
  the bytes behind the block are untouched. The search always ends.
\<close>

theorem dir_insert_correct:
  assumes "dir_ok b bs ps" and "bs \<le> BLKSZ" and "length name < 256" and "ino \<noteq> 0" and "dir_map b ps name = None"
  shows "\<exists>hit. slack_scan bs b bs (de_size (of_nat (length name))) 0 = Inr hit \<and>
    (\<forall>p actual slack. hit = Some (p, actual, slack) \<longrightarrow>
      (\<exists>ps'. dir_ok (split_entry p actual slack ino ft name b) bs ps' \<and>
        dir_map (split_entry p actual slack ino ft name b) ps' = (dir_map b ps)(name \<mapsto> ino) \<and>
        p + unat actual + 8 + length name \<le> bs))"
  by (rule slack_insert [OF assms])

section \<open>Removal\<close>

lemma before_hd: "distinct (p # ps) \<Longrightarrow> q \<in> set (p # ps) \<Longrightarrow> before q (p # ps) None = None \<longleftrightarrow> q = p"
proof -
  have "q \<in> set ps \<Longrightarrow> before q ps (Some p) \<noteq> None" for p
    by (induction ps arbitrary: p) auto
  then show "distinct (p # ps) \<Longrightarrow> q \<in> set (p # ps) \<Longrightarrow> before q (p # ps) None = None \<longleftrightarrow> q = p"
    by auto
qed

lemma before_Some:
  "p \<in> set ps \<Longrightarrow> before p ps prev = Some q \<Longrightarrow>
   (\<exists>ys. prev = Some q \<and> ps = p # ys) \<or> (\<exists>xs ys. ps = xs @ q # p # ys)"
proof (induction ps arbitrary: prev)
  case (Cons a ps)
  show ?case
  proof (cases "a = p")
    case False
    then have "p \<in> set ps" "before p ps (Some a) = Some q"
      using Cons.prems by auto
    from Cons.IH [OF this] show ?thesis
      by (metis Cons_eq_appendI append_Nil option.inject)
  qed (use Cons.prems in simp)
qed simp

lemma remove_entry_chain:
  assumes wf: "wf_dir b bs 0 (xs @ q # p # ys)" and bs: "bs \<le> BLKSZ"
  shows "wf_dir (remove_entry p (Some q) b) bs 0 (xs @ q # ys)"
    and "dirents (remove_entry p (Some q) b) (xs @ q # ys) = dirents b xs @ dirents b [q] @ dirents b ys"
proof -
  let ?b = "remove_entry p (Some q) b" and ?r = "unat (de_rec_len b q)" and ?t = "unat (de_rec_len b p)"
  obtain mid where mid: "wf_dir b mid 0 xs" "wf_dir b bs mid (q # p # ys)"
    using wf by (auto simp: wf_dir_append)
  then have h: "mid = q" "8 + unat (de_name_len b q) \<le> ?r" "?r mod 4 = 0" "p = q + ?r" "8 \<le> ?t" "?t mod 4 = 0"
    "p + ?t \<le> bs" "wf_dir b bs (p + ?t) ys"
    by auto
  have w: "?b = wr16 (q + 4) (de_rec_len b q + de_rec_len b p) b"
    by (simp add: remove_entry_def)
  have "unat (de_rec_len b q + de_rec_len b p) = (?r + ?t) mod 65536"
    by (simp add: unat_word_ariths)
  then have sum: "unat (de_rec_len b q + de_rec_len b p) = ?r + ?t"
    using h bs by (simp add: BLKSZ_def)
  have far: "?b i = b i" if "i < q + 4 \<or> q + 6 \<le> i" for i
    unfolding w using that by (intro wr16_other) auto
  have xs: "same_ent b ?b a" if "a \<in> set xs" for a
    using wf_dir_ge [OF mid(1) that] wf_dir_size [OF mid(1) that] h(1) by (intro same_entI far) auto
  have ys: "same_ent b ?b a" if "a \<in> set ys" for a
    using wf_dir_ge [OF h(8) that] h(2,4,5) by (intro same_entI far) auto
  have qf: "de_inode ?b q = de_inode b q" "de_name_len ?b q = de_name_len b q"
      "de_rec_len ?b q = de_rec_len b q + de_rec_len b p"
    using far by (simp_all add: de_inode_def rd32_def de_name_len_def de_rec_len_def w)
  moreover have "ent_name ?b q = ent_name b q"
    using far qf(2) by (auto simp: ent_name_def de_name_def)
  moreover have "wf_dir ?b q 0 xs" "wf_dir ?b bs (p + ?t) ys"
    using mid(1) h(1,8) wf_dir_cong [of xs b ?b q 0] wf_dir_cong [of ys b ?b bs "p + ?t"] xs ys by simp_all
  moreover have "(?r + ?t) mod 4 = 0"
    using h(3,6) by presburger
  ultimately show "wf_dir ?b bs 0 (xs @ q # ys)"
    unfolding wf_dir_append using h sum by (intro exI [of _ q]) (simp add: add.assoc)
  show "dirents ?b (xs @ q # ys) = dirents b xs @ dirents b [q] @ dirents b ys"
    using dirents_cong [of xs b ?b] dirents_cong [of ys b ?b] xs ys qf \<open>ent_name ?b q = ent_name b q\<close> by simp
qed

lemma remove_first_chain:
  assumes wf: "wf_dir b bs 0 (p # ys)"
  shows "wf_dir (remove_entry p None b) bs 0 (p # ys)" and "dirents (remove_entry p None b) (p # ys) = dirents b ys"
proof -
  let ?b = "remove_entry p None b"
  have h: "p = 0" "8 + unat (de_name_len b p) \<le> unat (de_rec_len b p)" "wf_dir b bs (p + unat (de_rec_len b p)) ys"
    using wf by auto
  have far: "?b i = b i" if "p + 4 \<le> i" for i
    using that by (simp add: remove_entry_def wr32_other)
  have ys: "same_ent b ?b a" if "a \<in> set ys" for a
    using wf_dir_ge [OF h(3) that] h(2) by (intro same_entI far) auto
  have "de_inode ?b p = 0"
    by (simp add: remove_entry_def de_inode_def)
  moreover have "de_rec_len ?b p = de_rec_len b p" "de_name_len ?b p = de_name_len b p"
    using far by (simp_all add: de_rec_len_def rd16_def de_name_len_def)
  ultimately show "wf_dir ?b bs 0 (p # ys)" "dirents ?b (p # ys) = dirents b ys"
    using wf wf_dir_cong [of ys b ?b bs "unat (de_rec_len b 0)"] dirents_cong [of ys b ?b] ys h(1) by simp_all
qed


lemma map_of_remove_middle:
  assumes "distinct (map fst (xs @ (k, v) # ys))"
  shows "map_of (xs @ ys) = (map_of (xs @ (k, v) # ys))(k := None)"
proof -
  have "map_of xs k = None" "map_of ys k = None"
    using assms by (auto simp: map_of_eq_None_iff)
  then show ?thesis
    by (auto simp: fun_eq_iff map_add_def split: option.split)
qed

lemma remove_hit:
  assumes "dir_ok b bs ps" and "bs \<le> BLKSZ" and "length name < 256"
    and "dir_scan bs b bs name 0 None = Inr (Some (p, prev))"
  shows "\<exists>ps'. dir_ok (remove_entry p prev b) bs ps' \<and>
    dir_map (remove_entry p prev b) ps' = (dir_map b ps)(name := None)"
proof -
  have wf: "wf_dir b bs 0 ps" and dist: "distinct (map fst (dirents b ps))"
    using assms(1) by (auto simp: dir_ok_def)
  have f: "find (\<lambda>p. de_inode b p \<noteq> 0 \<and> ent_name b p = name) ps = Some p" "prev = before p ps None"
    using dir_scan_result [OF wf assms(2,3), of bs None] assms(4)
    by (auto dest!: sym [of "Some _"] simp del: dirents_Cons)
  then have p: "p \<in> set ps" "de_inode b p \<noteq> 0" "ent_name b p = name"
    by (auto simp: find_Some_iff)
  show ?thesis
  proof (cases prev)
    case None
    then obtain ys where ps: "ps = p # ys"
      using before_hd [of "hd ps" "tl ps" p] wf_dir_distinct [OF wf] p(1) f(2) by (cases ps) auto
    note rf = remove_first_chain [OF wf [unfolded ps]]
    have "dirents b ps = (name, de_inode b p) # dirents b ys"
      using p by (simp add: ps)
    then have "map_of (dirents b ys) = (dir_map b ps)(name := None)" "distinct (map fst (dirents b ys))"
      using dist map_of_remove_middle [of "[]" name "de_inode b p" "dirents b ys"] by (simp_all add: dir_map_def)
    then show ?thesis
      unfolding None dir_ok_def dir_map_def using rf by metis
  next
    case (Some q)
    then obtain xs ys where ps: "ps = xs @ q # p # ys"
      using before_Some [OF p(1), of None q] f(2) by auto
    note re = remove_entry_chain [OF wf [unfolded ps] assms(2)]
    have "dirents b ps = (dirents b xs @ dirents b [q]) @ (name, de_inode b p) # dirents b ys"
      using p by (simp add: ps)
    then have "map_of (dirents b xs @ dirents b [q] @ dirents b ys) = (dir_map b ps)(name := None)"
        "distinct (map fst (dirents b xs @ dirents b [q] @ dirents b ys))"
      using dist map_of_remove_middle [of "dirents b xs @ dirents b [q]" name "de_inode b p" "dirents b ys"]
      by (simp_all add: dir_map_def)
    then show ?thesis
      unfolding Some dir_ok_def dir_map_def using re by metis
  qed
qed

text \<open>
  C16: removing the entry the search found takes exactly that name out of the map; the block
  stays well-formed, whether the space goes to the entry before it or, for the first entry,
  its inode number is cleared.
\<close>

theorem dir_remove_correct:
  assumes "dir_ok b bs ps" and "bs \<le> BLKSZ" and "length name < 256"
    and "dir_scan bs b bs name 0 None = Inr (Some (p, prev))"
  shows "\<exists>ps'. dir_ok (remove_entry p prev b) bs ps' \<and>
    dir_map (remove_entry p prev b) ps' = (dir_map b ps)(name := None)"
  by (rule remove_hit [OF assms])

section \<open>New blocks\<close>

lemma fresh_block_ok:
  assumes "length name < 256" and "8 + length name \<le> bs" and "bs \<le> BLKSZ" and "bs mod 4 = 0" and "ino \<noteq> 0"
  shows "dir_ok (de_store 0 ino (of_nat bs) (of_nat (length name)) ft name b) bs [0]"
    "dir_map (de_store 0 ino (of_nat bs) (of_nat (length name)) ft name b) [0] = [name \<mapsto> ino]"
  using assms de_store_fields [OF assms(1), of 0 ino "of_nat bs" ft b]
  by (simp_all add: dir_ok_def dir_map_def unat_of_nat BLKSZ_def)

text \<open>C34: the block \<open>ext2_mkdir\<close> writes for a new directory is well-formed and holds exactly the
  entries \<open>.\<close> for the directory and \<open>..\<close> for its parent.\<close>

theorem mkdir_block_correct:
  assumes "bs = 1024 \<or> bs = 2048 \<or> bs = 4096" and "ino \<noteq> 0" and "parent \<noteq> 0"
  shows "dir_ok (dot_block (of_nat bs) ino parent b) bs [0, 12] \<and>
    dir_map (dot_block (of_nat bs) ino parent b) [0, 12] = [[0x2E] \<mapsto> ino, [0x2E, 0x2E] \<mapsto> parent]"
proof -
  let ?b = "dot_block (of_nat bs) ino parent b"
  have sz: "de_size 1 = 12"
    by (simp add: de_size_def)
  have r: "unat (ucast (of_nat bs - 12 :: u32) :: u16) = bs - 12"
    using assms(1) by auto
  have f: "de_inode ?b 0 = ino" "de_rec_len ?b 0 = 12" "de_name_len ?b 0 = 1" "de_name ?b 0 1 = [0x2E]"
    "de_inode ?b 12 = parent" "de_rec_len ?b 12 = ucast (of_nat bs - 12 :: u32)" "de_name_len ?b 12 = 2"
    "de_name ?b 12 2 = [0x2E, 0x2E]"
    using bytes_combine32 [of ino] bytes_combine32 [of parent] u16_bytes [of 12]
      u16_bytes [of "ucast (of_nat bs - 12 :: u32)"]
    by (simp_all add: dot_block_def Let_def sz de_inode_def de_rec_len_def de_name_len_def de_name_def
        rd32_def rd16_def wr16_def wr32_def upt_rec)
  then show ?thesis
    using assms r by (auto simp: dir_ok_def dir_map_def ent_name_def)
qed

lemma mkdir_block_correct_witness:
  "dir_map (dot_block 1024 13 2 (\<lambda>_. 7)) [0, 12] [0x2E, 0x2E] = Some 2"
  using mkdir_block_correct [of 1024 13 2 "\<lambda>_. 7"] by simp

text \<open>A block of 1024 bytes with the single entry \<open>a\<close> for inode 5, used by the witnesses.\<close>

definition one_entry :: blk where
  "one_entry = de_store 0 5 1024 1 1 [0x61] (\<lambda>_. 0)"

lemma one_entry_ok: "dir_ok one_entry 1024 [0]" "dir_map one_entry [0] = [[0x61] \<mapsto> 5]"
  using fresh_block_ok [of "[0x61]" 1024 5 1 "\<lambda>_. 0"] by (simp_all add: one_entry_def BLKSZ_def)

lemma dir_scan_correct_witness:
  "\<exists>prev. dir_scan 1024 one_entry 1024 [0x61] 0 None = Inr (Some prev) \<and> de_inode one_entry (fst prev) = 5"
proof -
  obtain hit where "dir_scan 1024 one_entry 1024 [0x61] 0 None = Inr hit" "Some 5 = map_option (\<lambda>(p, prev). de_inode one_entry p) hit"
    using dir_scan_correct [OF one_entry_ok(1), of "[0x61]"] by (auto simp: BLKSZ_def one_entry_ok(2))
  then show ?thesis
    by (cases hit) auto
qed

lemma one_entry_slack: "slack_scan 1024 one_entry 1024 (de_size 1) 0 = Inr (Some (0, 12, 1012))"
proof -
  have "de_rec_len one_entry 0 = 1024" "de_name_len one_entry 0 = 1"
    using de_store_fields(2) [of "[0x61]" 0 5 1024 1 "\<lambda>_. 0"]
    by (simp_all add: one_entry_def de_name_len_def de_store_def bcopy_def)
  then show ?thesis
    using slack_scan_result [of one_entry 1024 0 "[0]" 1024 "de_size 1"] one_entry_ok(1)
    by (simp add: dir_ok_def asz_def de_size_def)
qed

lemma dir_insert_correct_witness:
  "\<exists>ps'. dir_ok (split_entry 0 12 1012 9 1 [0x62] one_entry) 1024 ps' \<and>
    dir_map (split_entry 0 12 1012 9 1 [0x62] one_entry) ps' = [[0x61] \<mapsto> 5, [0x62] \<mapsto> 9]"
proof -
  have "\<exists>hit. slack_scan 1024 one_entry 1024 (de_size (of_nat (length [0x62 :: u8]))) 0 = Inr hit \<and>
    (\<forall>p actual slack. hit = Some (p, actual, slack) \<longrightarrow>
      (\<exists>ps'. dir_ok (split_entry p actual slack 9 1 [0x62] one_entry) 1024 ps' \<and>
        dir_map (split_entry p actual slack 9 1 [0x62] one_entry) ps' = (dir_map one_entry [0])([0x62] \<mapsto> 9) \<and>
        p + unat actual + 8 + length [0x62 :: u8] \<le> 1024))"
    by (rule dir_insert_correct [OF one_entry_ok(1)]) (simp_all add: BLKSZ_def one_entry_ok(2))
  then show ?thesis
    unfolding one_entry_ok(2) using one_entry_slack by auto
qed

lemma dir_remove_correct_witness:
  "\<exists>p prev ps'. dir_scan 1024 one_entry 1024 [0x61] 0 None = Inr (Some (p, prev)) \<and>
    dir_map (remove_entry p prev one_entry) ps' = Map.empty"
proof -
  have "find (\<lambda>p. de_inode one_entry p \<noteq> 0 \<and> ent_name one_entry p = [0x61]) [0] = Some 0"
    using dir_map_find [of one_entry "[0]" "[0x61]"] one_entry_ok(2) by (simp split: if_splits)
  then have s: "dir_scan 1024 one_entry 1024 [0x61] 0 None = Inr (Some (0, None))"
    using dir_scan_result [of one_entry 1024 0 "[0]" "[0x61]" 1024 None] one_entry_ok(1)
    by (simp add: dir_ok_def BLKSZ_def)
  then show ?thesis
    using dir_remove_correct [OF one_entry_ok(1) _ _ s] one_entry_ok(2) by (auto simp: BLKSZ_def)
qed

end
