(* ===== verification/DirFile.thy ===== *)
theory DirFile
  imports FileIO DirBlock
begin

text \<open>
  A directory as a file of directory blocks, and the finite map of names it stands for:
  \<open>ext2_lookup\<close>, \<open>ext2_dir_add_entry\<close> and \<open>ext2_unlink\<close> on directories of any size.
\<close>

section \<open>The names of a sequence of blocks\<close>

text \<open>An earlier block hides a later one, as in the search.\<close>

primrec joined :: "(nat \<Rightarrow> ('k \<rightharpoonup> 'v)) \<Rightarrow> nat \<Rightarrow> 'k \<rightharpoonup> 'v" where
  "joined d 0 = Map.empty"
| "joined d (Suc m) = d m ++ joined d m"

lemma joined_None: "joined d m x = None \<longleftrightarrow> (\<forall>b < m. d b x = None)"
  by (induction m) (auto simp: less_Suc_eq)

lemma joined_first: "k < m \<Longrightarrow> \<forall>b < k. d b x = None \<Longrightarrow> d k x = Some v \<Longrightarrow> joined d m x = Some v"
proof (induction m)
  case (Suc m)
  show ?case
  proof (cases "k = m")
    case True
    then have "joined d m x = None"
      using Suc.prems(2) by (simp add: joined_None)
    then show ?thesis
      using Suc.prems(3) True by (simp add: map_add_dom_app_simps(3) domIff)
  qed (use Suc in auto)
qed simp

lemma joined_cong: "(\<And>b. b < m \<Longrightarrow> d' b = d b) \<Longrightarrow> joined d' m = joined d m"
  by (induction m) simp_all

lemma joined_upd:
  assumes "k < m" and "d' k = (d k)(x := v)" and "\<And>b. b < m \<Longrightarrow> b \<noteq> k \<Longrightarrow> d' b = d b \<and> d b x = None"
  shows "joined d' m = (joined d m)(x := v)"
  using assms
proof (induction m)
  case (Suc m)
  show ?case
  proof (cases "k = m")
    case True
    then have "joined d' m = joined d m" "joined d m x = None"
      using Suc.prems(3) by (auto intro: joined_cong simp: joined_None)
    then show ?thesis
      using Suc.prems(2) True by (auto simp: fun_eq_iff map_add_def split: option.split)
  next
    case False
    then have k: "k < m" and m: "d' m = d m" "d m x = None"
      using Suc.prems(1,3) by auto
    have "joined d' m = (joined d m)(x := v)"
      by (rule Suc.IH [OF k Suc.prems(2)]) (simp add: Suc.prems(3))
    with m show ?thesis
      by (auto simp: fun_eq_iff map_add_def split: option.split)
  qed
qed simp

section \<open>Directories\<close>

text \<open>The entries of block \<open>b\<close>, at the positions \<open>pss ! b\<close>, and of the whole directory.\<close>

definition block_names :: "nat \<Rightarrow> (u64 \<Rightarrow> blk) \<Rightarrow> u32 list \<Rightarrow> nat list list \<Rightarrow> nat \<Rightarrow> u8 list \<rightharpoonup> u32" where
  "block_names bs V ib pss b = dir_map (file_block bs V ib b) (pss ! b)"

definition dir_names :: "nat \<Rightarrow> (u64 \<Rightarrow> blk) \<Rightarrow> u32 list \<Rightarrow> nat list list \<Rightarrow> u8 list \<rightharpoonup> u32" where
  "dir_names bs V ib pss = joined (block_names bs V ib pss) (length pss)"

definition dir_inv :: "nat \<Rightarrow> (u64 \<Rightarrow> blk) \<Rightarrow> u32 list \<Rightarrow> nat list list \<Rightarrow> bool" where
  "dir_inv bs V ib pss \<longleftrightarrow> length pss \<le> max_blocks (bs div 4) \<and>
     (\<forall>b < length pss. dir_ok (file_block bs V ib b) bs (pss ! b)) \<and>
     (\<forall>b < length pss. \<forall>c < b. dom (block_names bs V ib pss b) \<inter> dom (block_names bs V ib pss c) = {})"

text \<open>Only the bytes within the block count.\<close>

lemma dir_ok_bytes:
  assumes "dir_ok b bs ps" and "\<And>i. i < bs \<Longrightarrow> b' i = b i"
  shows "dir_ok b' bs ps" "dir_map b' ps = dir_map b ps"
proof -
  have w: "wf_dir b bs 0 ps"
    using assms(1) by (simp add: dir_ok_def)
  have same: "same_ent b b' q" if "q \<in> set ps" for q
  proof (rule same_entI)
    fix i
    assume "q \<le> i" "i < q + 8 + unat (de_name_len b q)"
    then show "b' i = b i"
      using wf_dir_ge [OF w that] wf_dir_size [OF w that] by (intro assms(2)) linarith
  qed
  show "dir_ok b' bs ps" "dir_map b' ps = dir_map b ps"
    using assms(1) dirents_cong [OF same] wf_dir_cong [OF same] by (simp_all add: dir_ok_def dir_map_def)
qed

lemma dir_with_block:
  assumes "dir_inv bs V ib pss" and "b < length pss"
  shows "dir_ok (with_block bs V ib b buf) bs (pss ! b)"
    "dir_map (with_block bs V ib b buf) (pss ! b) = block_names bs V ib pss b"
proof -
  have "dir_ok (file_block bs V ib b) bs (pss ! b)"
    using assms by (simp add: dir_inv_def)
  from dir_ok_bytes [OF this, of "with_block bs V ib b buf"]
  show "dir_ok (with_block bs V ib b buf) bs (pss ! b)"
    "dir_map (with_block bs V ib b buf) (pss ! b) = block_names bs V ib pss b"
    by (simp_all add: with_block_def block_names_def)
qed

lemma scan_hit:
  assumes "dir_ok b bs ps" and "bs \<le> BLKSZ" and "length name < 256"
  obtains hit where "dir_scan bs b bs name 0 None = Inr hit" "dir_map b ps name = map_option (\<lambda>(p, prev). de_inode b p) hit"
  using dir_scan_result [of b bs 0 ps name bs None] assms
  by (simp add: dir_ok_def dir_map_find option.map_comp comp_def)

lemma max_blocks_word: "bs \<le> BLKSZ \<Longrightarrow> max_blocks (bs div 4) < 4294967296"
proof -
  assume "bs \<le> BLKSZ"
  then have "bs div 4 \<le> 1024"
    by (simp add: BLKSZ_def)
  then show ?thesis
    using mult_le_mono [of "bs div 4" 1024 "bs div 4" 1024] by (simp add: max_blocks_def)
qed

lemma dir_nblocks_exact:
  fixes sz bs :: u32
  assumes "unat sz = m * unat bs" and "unat sz + unat bs < 2 ^ 32" and "0 < unat bs"
  shows "unat (dir_nblocks sz bs) = m"
proof -
  have "unat (sz + bs) = unat sz + unat bs" "1 \<le> sz + bs"
    using assms(2,3) by (simp_all add: unat_word_ariths word_le_nat_alt)
  then have "unat (sz + bs - 1) = m * unat bs + (unat bs - 1)"
    using assms(1,3) by (simp add: unat_sub)
  moreover have "(m * unat bs + r) div unat bs = m" if "r < unat bs" for r
    using that by simp
  then have "(m * unat bs + (unat bs - 1)) div unat bs = m"
    using assms(3) by (metis diff_less zero_less_one)
  ultimately show ?thesis
    by (simp only: dir_nblocks_def unat_div)
qed

section \<open>Lookup\<close>

context block_device
begin

lemma read_dir_block:
  assumes inv: "file_inv content ok vb sbno dir sbi info s0"
    and d: "dir_inv (unat (fs_block_size s0)) (view content s0) (i_block info) pss"
    and q: "quietly s0 (view content s0) s" and k: "k < length pss"
  obtains s1 where "ext2_read_block D dir (of_nat k) buf s =
      Inr ((0, with_block (unat (fs_block_size s0)) (view content s0) (i_block info) k buf), s1)"
    "quietly s0 (view content s0) s1"
proof -
  note f = file_invD [OF inv] and e = fs_more [OF quietD(4) [OF q]]
  obtain x where x: "inodes s dir = Some x" "infos s (i_fs_private x) = Some info"
    using f(4) unfolding e by blast
  have km: "k < max_blocks (unat (fs_block_size s0) div 4)"
    using k d by (simp add: dir_inv_def)
  then have u: "unat (of_nat k :: u32) = k"
    using max_blocks_word [OF f(10)] by (simp add: unat_of_nat)
  have r: "room (Suc 0) (slots s)"
    using f(8) quiet_room [OF q] by simp
  from read_block_run [OF quietD(1) [OF q] r _ x, unfolded e(2) quietD(2) [OF q], OF f(10,5), of "of_nat k" buf] km
  obtain s1 where "ext2_read_block D dir (of_nat k) buf s =
      Inr ((0, with_block (unat (fs_block_size s0)) (view content s0) (i_block info) k buf), s1)"
    "quietly s (view content s0) s1"
    unfolding u by auto
  then show thesis
    using quiet_trans [OF q] by (intro that)
qed

lemma lookup_loop_run:
  fixes s0 :: "'d fs_state"
  defines "bs \<equiv> unat (fs_block_size s0)" and "V \<equiv> view content s0"
  assumes inv: "file_inv content ok vb sbno dir sbi info s0" and d: "dir_inv bs V (i_block info) pss"
    and name: "length name < 256" and q: "quietly s0 V s"
    and k: "k \<le> length pss" "\<forall>b < k. block_names bs V (i_block info) pss b name = None"
  shows "\<exists>s'. lookup_loop D dir name [k..<length pss] buf s =
      (case dir_names bs V (i_block info) pss name of None \<Rightarrow> Inr (0, s') | Some ino \<Rightarrow> ext2_iget D ino s') \<and> quietly s0 V s'"
  using q k
proof (induction "length pss - k" arbitrary: k s buf)
  case 0
  then have "k = length pss"
    by simp
  then have "dir_names bs V (i_block info) pss name = None"
    using 0 by (simp add: dir_names_def joined_None)
  then show ?case
    using 0(2) \<open>k = length pss\<close> by auto
next
  case (Suc n)
  then have k: "k < length pss" "n = length pss - Suc k"
    by auto
  let ?buf = "with_block bs V (i_block info) k buf"
  note f = file_invD [OF inv]
  obtain s1 where s1: "ext2_read_block D dir (of_nat k) buf s = Inr ((0, ?buf), s1)" "quietly s0 V s1"
    by (rule read_dir_block [OF inv d [unfolded bs_def V_def] Suc.prems(1) [unfolded V_def] k(1), of buf, folded bs_def V_def])
  have bs: "unat (fs_block_size s1) = bs"
    using fs_more(2) [OF quietD(4) [OF s1(2)]] by (simp add: bs_def)
  have "bs \<le> BLKSZ"
    using f(10) by (simp add: bs_def)
  from scan_hit [OF dir_with_block(1) [OF d k(1)] this name, of buf] obtain hit where
    hit: "dir_scan bs ?buf bs name 0 None = Inr hit"
      "block_names bs V (i_block info) pss k name = map_option (\<lambda>(p, prev). de_inode ?buf p) hit"
    unfolding dir_with_block(2) [OF d k(1)] by metis
  have run: "lookup_loop D dir name [k..<length pss] buf s = (case hit of
      None \<Rightarrow> lookup_loop D dir name [Suc k..<length pss] ?buf s1 | Some (p, _) \<Rightarrow> ext2_iget D (de_inode ?buf p) s1)"
    using s1(1) hit(1) bs by (simp add: upt_conv_Cons [OF k(1)] bindK_run liftK_run split: option.split prod.split)
  show ?case
  proof (cases hit)
    case None
    then have "\<forall>b < Suc k. block_names bs V (i_block info) pss b name = None"
      using hit(2) Suc.prems(3) by (auto simp: less_Suc_eq)
    from Suc.hyps(1) [OF k(2) s1(2) _ this] k(1) show ?thesis
      unfolding run None by simp
  next
    case (Some h)
    obtain p prev where "h = (p, prev)"
      by (cases h)
    then have "dir_names bs V (i_block info) pss name = Some (de_inode ?buf p)" and Some: "hit = Some (p, prev)"
      using joined_first [where d = "block_names bs V (i_block info) pss", OF k(1) Suc.prems(3)] hit(2) Some by (auto simp: dir_names_def)
    then show ?thesis
      using run Some s1(2) by auto
  qed
qed

lemma lookup_run:
  assumes inv: "file_inv content ok vb sbno dir sbi info s"
    and d: "dir_inv (unat (fs_block_size s)) (view content s) (i_block info) pss"
    and x: "dir \<noteq> 0" "inodes s dir = Some x" "i_type x = INODE_DIR"
    and sz: "unat (i_size x) = length pss * unat (fs_block_size s)" "unat (i_size x) + unat (fs_block_size s) < 2 ^ 32"
    and name: "name \<noteq> []" "length name < 256"
  shows "\<exists>s'. ext2_lookup D dir name s =
      (case dir_names (unat (fs_block_size s)) (view content s) (i_block info) pss name of
         None \<Rightarrow> Inr (0, s') | Some ino \<Rightarrow> ext2_iget D ino s') \<and> quietly s (view content s) s'"
proof -
  note f = file_invD [OF inv]
  have nz: "0 < unat (fs_block_size s)" "fs_block_size s \<noteq> 0"
    using f(9) by auto
  have "unat (dir_nblocks (i_size x) (fs_block_size s)) = length pss"
    by (rule dir_nblocks_exact [OF sz nz(1)])
  then have "ext2_lookup D dir name s = lookup_loop D dir name [0..<length pss] (\<lambda>_. 0) s"
    using x name(1) nz(2) by (simp add: ext2_lookup_def bindK_run get_inode_def needK_run assertK_True)
  then show ?thesis
    using lookup_loop_run [OF inv d name(2) quiet_refl [OF f(6)], of 0 "\<lambda>_. 0"] by simp
qed

end

section \<open>Changing one block\<close>

lemma dir_blocks_same:
  assumes "dir_inv bs V ib pss" and "\<And>b. b < length pss \<Longrightarrow> file_block bs V' ib' b = file_block bs V ib b"
  shows "dir_inv bs V' ib' pss" "dir_names bs V' ib' pss = dir_names bs V ib pss"
proof -
  have b: "block_names bs V' ib' pss b = block_names bs V ib pss b" if "b < length pss" for b
    using assms(2) [OF that] by (simp add: block_names_def)
  then show "dir_names bs V' ib' pss = dir_names bs V ib pss"
    by (simp add: dir_names_def cong: joined_cong)
  show "dir_inv bs V' ib' pss"
    using assms b by (simp add: dir_inv_def)
qed

lemma dir_block_changed:
  assumes inv: "dir_inv bs V ib pss" and k: "k < length pss"
    and new: "dir_ok (file_block bs V' ib' k) bs ps'" "dir_map (file_block bs V' ib' k) ps' = (block_names bs V ib pss k)(name := v)"
    and other: "\<And>b. b < length pss \<Longrightarrow> b \<noteq> k \<Longrightarrow> file_block bs V' ib' b = file_block bs V ib b"
    and fresh: "\<And>b. b < length pss \<Longrightarrow> b \<noteq> k \<Longrightarrow> block_names bs V ib pss b name = None"
  shows "dir_inv bs V' ib' (pss[k := ps'])" "dir_names bs V' ib' (pss[k := ps']) = (dir_names bs V ib pss)(name := v)"
proof -
  have n: "block_names bs V' ib' (pss[k := ps']) b =
      (if b = k then (block_names bs V ib pss k)(name := v) else block_names bs V ib pss b)" if "b < length pss" for b
    using new(2) other that k by (simp add: block_names_def)
  show "dir_names bs V' ib' (pss[k := ps']) = (dir_names bs V ib pss)(name := v)"
    unfolding dir_names_def length_list_update by (rule joined_upd [OF k]) (simp_all add: n k fresh)
  show "dir_inv bs V' ib' (pss[k := ps'])"
    unfolding dir_inv_def length_list_update
  proof (intro conjI allI impI)
    show "length pss \<le> max_blocks (bs div 4)"
      using inv by (simp add: dir_inv_def)
    show "dir_ok (file_block bs V' ib' b) bs (pss[k := ps'] ! b)" if "b < length pss" for b
      using inv that new(1) other k by (cases "b = k") (simp_all add: dir_inv_def)
    fix b c
    assume bc: "b < length pss" "c < b"
    then have "dom (block_names bs V ib pss b) \<inter> dom (block_names bs V ib pss c) = {}"
      using inv by (simp add: dir_inv_def)
    then show "dom (block_names bs V' ib' (pss[k := ps']) b) \<inter> dom (block_names bs V' ib' (pss[k := ps']) c) = {}"
      using n [of b] n [of c] fresh [of b] fresh [of c] bc by (auto simp: domIff split: if_splits)
  qed
qed

lemma dir_block_added:
  assumes inv: "dir_inv bs V ib pss" and m: "length pss < max_blocks (bs div 4)"
    and new: "dir_ok (file_block bs V' ib' (length pss)) bs ps'" "dir_map (file_block bs V' ib' (length pss)) ps' = [name \<mapsto> ino]"
    and other: "\<And>b. b < length pss \<Longrightarrow> file_block bs V' ib' b = file_block bs V ib b"
    and fresh: "dir_names bs V ib pss name = None"
  shows "dir_inv bs V' ib' (pss @ [ps'])" "dir_names bs V' ib' (pss @ [ps']) = (dir_names bs V ib pss)(name \<mapsto> ino)"
proof -
  have n: "block_names bs V' ib' (pss @ [ps']) b = block_names bs V ib pss b" if "b < length pss" for b
    using other that by (simp add: block_names_def nth_append)
  have l: "block_names bs V' ib' (pss @ [ps']) (length pss) = [name \<mapsto> ino]"
    using new(2) by (simp add: block_names_def nth_append)
  have none: "block_names bs V ib pss b name = None" if "b < length pss" for b
    using fresh that by (simp add: dir_names_def joined_None)
  have "joined (block_names bs V' ib' (pss @ [ps'])) (length pss) = dir_names bs V ib pss"
    unfolding dir_names_def by (rule joined_cong) (rule n)
  then show "dir_names bs V' ib' (pss @ [ps']) = (dir_names bs V ib pss)(name \<mapsto> ino)"
    using fresh by (auto simp: dir_names_def l fun_eq_iff map_add_def split: option.split)
  show "dir_inv bs V' ib' (pss @ [ps'])"
    unfolding dir_inv_def
  proof (intro conjI allI impI)
    show "length (pss @ [ps']) \<le> max_blocks (bs div 4)"
      using m by simp
    show "dir_ok (file_block bs V' ib' b) bs ((pss @ [ps']) ! b)" if "b < length (pss @ [ps'])" for b
      using inv that new(1) other by (cases "b = length pss") (simp_all add: dir_inv_def nth_append)
    fix b c
    assume bc: "b < length (pss @ [ps'])" "c < b"
    show "dom (block_names bs V' ib' (pss @ [ps']) b) \<inter> dom (block_names bs V' ib' (pss @ [ps']) c) = {}"
    proof (cases "b = length pss")
      case True
      then show ?thesis
        using n [of c] none [of c] bc by (simp add: l domIff)
    next
      case False
      then show ?thesis
        using n [of b] n [of c] bc inv by (simp add: dir_inv_def)
    qed
  qed
qed

section \<open>Adding an entry\<close>

context block_device
begin

text \<open>Writing one block of a directory.\<close>

lemma write_dir_block:
  assumes inv: "file_inv content ok vb sbno dir sbi info s0" "room 2 (slots s0)" and q: "quietly s0 (view content s0) s"
    and k: "k < max_blocks (unat (fs_block_size s0) div 4)"
  obtains r s' sbi' info' where "ext2_write_block D dir (of_nat k) buf s = Inr (r, s')"
    "evolved content ok vb sbno dir sbi info s0 sbi' info' s'"
    "r = 0 \<and> file_block (unat (fs_block_size s0)) (view content s') (i_block info') k =
        (\<lambda>i. if i < unat (fs_block_size s0) then buf i else 0) \<or>
      r = - 1 \<and> free_blocks (view content s') sbno sbi' = {}"
    "\<And>c. c < max_blocks (unat (fs_block_size s0) div 4) \<Longrightarrow> c \<noteq> k \<or> r \<noteq> 0 \<Longrightarrow>
      file_block (unat (fs_block_size s0)) (view content s') (i_block info') c =
      file_block (unat (fs_block_size s0)) (view content s0) (i_block info) c"
proof -
  note f = file_invD [OF inv(1)]
  have g: "evolved content ok vb sbno dir sbi info s0 sbi info s"
    by (rule evolved_grown [OF quiet_grown [OF inv(1) q]])
  have bs: "fs_block_size s = fs_block_size s0"
    by (rule evolvedD(2) [OF g])
  have u: "unat (of_nat k :: u32) = k"
    using k max_blocks_word [OF f(10)] by (simp add: unat_of_nat)
  have "room 2 (slots s)"
    using inv(2) quiet_room [OF q] by simp
  from write_block_run [OF evolvedD(1) [OF g] this, of "of_nat k" buf] obtain r s' sbi' info' where
    w: "ext2_write_block D dir (of_nat k) buf s = Inr (r, s')" "wrote content ok vb sbno dir k buf sbi info s r s' sbi' info'"
    unfolding u by blast
  have "evolved content ok vb sbno dir sbi info s0 sbi' info' s'"
    by (rule evolved_trans [OF g evolved_wrote [OF w(2)]])
  moreover have "r = 0 \<and> file_block (unat (fs_block_size s0)) (view content s') (i_block info') k =
        (\<lambda>i. if i < unat (fs_block_size s0) then buf i else 0) \<or>
      r = - 1 \<and> free_blocks (view content s') sbno sbi' = {}"
    using w(2) k unfolding wrote_def Let_def bs by blast
  moreover have "\<And>c. c < max_blocks (unat (fs_block_size s0) div 4) \<Longrightarrow> c \<noteq> k \<or> r \<noteq> 0 \<Longrightarrow>
      file_block (unat (fs_block_size s0)) (view content s') (i_block info') c =
      file_block (unat (fs_block_size s0)) (view content s0) (i_block info) c"
    using w(2) unfolding wrote_def Let_def bs quietD(2) [OF q] by blast
  ultimately show thesis
    using w(1) by (intro that)
qed

lemma add_entry_loop_run:
  fixes s0 :: "'d fs_state"
  defines "bs \<equiv> unat (fs_block_size s0)" and "V \<equiv> view content s0"
  assumes inv: "file_inv content ok vb sbno dir sbi info s0" "room 2 (slots s0)" and d: "dir_inv bs V (i_block info) pss"
    and name: "length name < 256" "ino \<noteq> 0" "dir_names bs V (i_block info) pss name = None"
    and q: "quietly s0 V s" and k: "k \<le> length pss"
  shows "\<exists>res buf' s' sbi' info' pss'. add_entry_loop D dir name ino ft (de_size (of_nat (length name))) [k..<length pss] buf s =
      Inr ((res, buf'), s') \<and> evolved content ok vb sbno dir sbi info s0 sbi' info' s' \<and> length pss' = length pss \<and>
    dir_inv bs (view content s') (i_block info') pss' \<and>
    (case res of
       None \<Rightarrow> sbi' = sbi \<and> info' = info \<and> quietly s0 V s'
     | Some r \<Rightarrow> r = 0 \<and> dir_names bs (view content s') (i_block info') pss' = (dir_names bs V (i_block info) pss)(name \<mapsto> ino) \<or>
         r = - 1 \<and> dir_names bs (view content s') (i_block info') pss' = dir_names bs V (i_block info) pss \<and>
         free_blocks (view content s') sbno sbi' = {})"
  using q k
proof (induction "length pss - k" arbitrary: k s buf)
  case 0
  then have "k = length pss"
    by simp
  moreover have "evolved content ok vb sbno dir sbi info s0 sbi info s"
    using evolved_grown [OF quiet_grown [OF inv(1) 0(2) [unfolded V_def]]] .
  ultimately show ?case
    using 0(2) d quietD(2) [OF 0(2)] by auto
next
  case (Suc n)
  then have k: "k < length pss" "n = length pss - Suc k"
    by auto
  let ?buf = "with_block bs V (i_block info) k buf"
  note f = file_invD [OF inv(1)]
  obtain s1 where s1: "ext2_read_block D dir (of_nat k) buf s = Inr ((0, ?buf), s1)" "quietly s0 V s1"
    by (rule read_dir_block [OF inv(1) d [unfolded bs_def V_def] Suc.prems(1) [unfolded V_def] k(1), of buf, folded bs_def V_def])
  have bs: "unat (fs_block_size s1) = bs" and bl: "bs \<le> BLKSZ"
    using fs_more(2) [OF quietD(4) [OF s1(2)]] f(10) by (simp_all add: bs_def)
  have none: "block_names bs V (i_block info) pss b name = None" if "b < length pss" for b
    using name(3) that by (simp add: dir_names_def joined_None)
  note wb = dir_with_block [OF d k(1), of buf]
  obtain hit where hit: "slack_scan bs ?buf bs (de_size (of_nat (length name))) 0 = Inr hit"
      "\<And>p actual slack. hit = Some (p, actual, slack) \<Longrightarrow>
        \<exists>ps'. dir_ok (split_entry p actual slack ino ft name ?buf) bs ps' \<and>
          dir_map (split_entry p actual slack ino ft name ?buf) ps' = (block_names bs V (i_block info) pss k)(name \<mapsto> ino) \<and>
          p + unat actual + 8 + length name \<le> bs"
    using slack_insert [OF wb(1) bl name(1,2), of ft] none [OF k(1)] unfolding wb(2) by blast
  show ?case
  proof (cases hit)
    case None
    have "add_entry_loop D dir name ino ft (de_size (of_nat (length name))) [k..<length pss] buf s =
        add_entry_loop D dir name ino ft (de_size (of_nat (length name))) [Suc k..<length pss] ?buf s1"
      using s1(1) hit(1) bs None by (simp add: upt_conv_Cons [OF k(1)] bindK_run liftK_run)
    then show ?thesis
      using Suc.hyps(1) [OF k(2) s1(2)] k(1) by simp
  next
    case (Some h)
    obtain p actual slack where h: "hit = Some (p, actual, slack)"
      using Some by (cases h) auto
    let ?new = "split_entry p actual slack ino ft name ?buf"
    obtain ps' where ps': "dir_ok ?new bs ps'" "dir_map ?new ps' = (block_names bs V (i_block info) pss k)(name \<mapsto> ino)"
        "p + unat actual + 8 + length name \<le> bs"
      using hit(2) [OF h] by blast
    have km: "k < max_blocks (bs div 4)" and lm: "length pss \<le> max_blocks (bs div 4)"
      using k(1) d by (simp_all add: dir_inv_def)
    obtain r s' sbi' info' where w: "ext2_write_block D dir (of_nat k) ?new s1 = Inr (r, s')"
        "evolved content ok vb sbno dir sbi info s0 sbi' info' s'"
        "r = 0 \<and> file_block bs (view content s') (i_block info') k = (\<lambda>i. if i < bs then ?new i else 0) \<or>
          r = - 1 \<and> free_blocks (view content s') sbno sbi' = {}"
        "\<And>c. c < max_blocks (bs div 4) \<Longrightarrow> c \<noteq> k \<or> r \<noteq> 0 \<Longrightarrow>
          file_block bs (view content s') (i_block info') c = file_block bs V (i_block info) c"
      by (rule write_dir_block [OF inv s1(2) [unfolded V_def] km [unfolded bs_def], of ?new, folded bs_def V_def])
        (rule that; assumption)
    have run: "add_entry_loop D dir name ino ft (de_size (of_nat (length name))) [k..<length pss] buf s = Inr ((Some r, ?new), s')"
      using s1(1) hit(1) bs h w(1) ps'(3) bl
      by (simp add: upt_conv_Cons [OF k(1)] bindK_run liftK_run assertK_True Let_def)
    from w(3) show ?thesis
    proof (elim disjE conjE)
      assume r: "r = 0" and new: "file_block bs (view content s') (i_block info') k = (\<lambda>i. if i < bs then ?new i else 0)"
      have "dir_ok (file_block bs (view content s') (i_block info') k) bs ps'"
        "dir_map (file_block bs (view content s') (i_block info') k) ps' = (block_names bs V (i_block info) pss k)(name \<mapsto> ino)"
        using dir_ok_bytes [OF ps'(1), of "file_block bs (view content s') (i_block info') k"] ps'(2) by (simp_all add: new)
      from dir_block_changed [OF d k(1) this] w(4) none lm
      have "dir_inv bs (view content s') (i_block info') (pss[k := ps'])"
        "dir_names bs (view content s') (i_block info') (pss[k := ps']) = (dir_names bs V (i_block info) pss)(name \<mapsto> ino)"
        by simp_all
      then show ?thesis
        using run w(2) r by (intro exI [of _ "Some r"] exI [of _ ?new] exI [of _ s'] exI [of _ sbi'] exI [of _ info']
          exI [of _ "pss[k := ps']"]) simp
    next
      assume r: "r = - 1" and fb: "free_blocks (view content s') sbno sbi' = {}"
      have "file_block bs (view content s') (i_block info') b = file_block bs V (i_block info) b" if "b < length pss" for b
        using w(4) that lm r by simp
      from dir_blocks_same [OF d this] show ?thesis
        using run w(2) r fb by (intro exI [of _ "Some r"] exI [of _ ?new] exI [of _ s'] exI [of _ sbi'] exI [of _ info']
          exI [of _ pss]) simp
    qed
  qed
qed

text \<open>Changing an inode in memory and storing it.\<close>

lemma confinedD:
  assumes "confined content sbno sbi info s sbi' info' s'"
  shows "own content sbno sbi' info' s' \<subseteq> own content sbno sbi info s"
    "meta_blocks (fs_block_size s') (view content s') sbno sbi' = meta_blocks (fs_block_size s) (view content s) sbno sbi"
    "\<forall>x. x \<notin> meta_blocks (fs_block_size s) (view content s) sbno sbi \<longrightarrow> x \<notin> own content sbno sbi info s \<longrightarrow>
      view content s' x = view content s x"
  using assms by (simp_all add: confined_def)

lemma store_inode_run:
  assumes inv: "file_inv content ok vb sbno p sbi info s" and x: "p \<noteq> 0" "inodes s p = Some x"
    and y: "i_fs_private y = i_fs_private x" "i_valid y"
    and loc: "ext2_inode_loc (i_ino y) s = Inr ((tb, off), s)" "vb (ucast tb)" "unat off + 100 \<le> BLKSZ"
      "ucast tb \<notin> meta_blocks (fs_block_size s) (view content s) sbno sbi" "ucast tb \<notin> own content sbno sbi info s"
  obtains b s' where "thenK (put_inode p y) (bindK (ext2_write_inode D p) (\<lambda>_. k)) s = k s'"
    "file_inv content ok vb sbno p sbi info s'" "view content s' = (view content s)(ucast tb := b)"
    "inode_at b (unat off) y info" "inodes s' = (inodes s)(p \<mapsto> y\<lparr>i_dirty := False\<rparr>)" "fs_block_size s' = fs_block_size s"
    "calm (slots s) (slots s')"
    "\<And>c. c < max_blocks (unat (fs_block_size s) div 4) \<Longrightarrow>
      file_block (unat (fs_block_size s)) (view content s') (i_block info) c =
      file_block (unat (fs_block_size s)) (view content s) (i_block info) c"
proof -
  let ?s1 = "s\<lparr>inodes := (inodes s)(p \<mapsto> y)\<rparr>"
  have inv1: "file_inv content ok vb sbno p sbi info ?s1"
    by (rule file_inv_inode [OF inv x(2) y(1)])
  note g = file_invD [OF inv1]
  have p1: "inodes ?s1 p = Some y"
    by simp
  have info1: "infos ?s1 (i_fs_private y) = Some info"
    using g(4) by simp
  have room1: "room (Suc 0) (slots ?s1)" and len1: "length (i_block info) = EXT2_N_BLOCKS"
    using g(5,8) by (simp_all add: file_wf_def)
  have loc1: "ext2_inode_loc (i_ino y) ?s1 = Inr ((tb, off), ?s1)"
    by (rule inode_loc_layout [OF loc(1) _ _ same_layout_refl]) (use file_invD(7) [OF inv] in \<open>simp_all add: mounted_def\<close>)
  obtain b s3 where s3: "ext2_write_inode D p ?s1 = Inr (0, s3)" "inode_at b (unat off) y info"
      "quietly (?s1\<lparr>inodes := (inodes ?s1)(p \<mapsto> y\<lparr>i_dirty := False\<rparr>)\<rparr>) ((view content ?s1)(ucast tb := b)) s3"
    by (rule write_inode_run [OF g(6) room1 x(1) p1 y(2) info1 len1 loc1 loc(2,3)]) (rule that; assumption)
  let ?s2 = "?s1\<lparr>inodes := (inodes ?s1)(p \<mapsto> y\<lparr>i_dirty := False\<rparr>)\<rparr>"
  have inv2: "file_inv content ok vb sbno p sbi info ?s2"
    by (rule file_inv_inode [OF inv1 p1]) simp
  have v2: "view content ?s2 = view content s" "fs_block_size ?s2 = fs_block_size s"
      "own content sbno sbi info ?s2 = own content sbno sbi info s"
    by (simp_all add: own_def)
  have q: "quietly ?s2 ((view content ?s2)(ucast tb := b)) s3"
    using s3(3) by simp
  note e = fs_more [OF quietD(4) [OF q]]
  show thesis
  proof (rule that)
    show "thenK (put_inode p y) (bindK (ext2_write_inode D p) (\<lambda>_. k)) s = k s3"
      using s3(1) by (simp add: thenK_run bindK_run put_inode_def)
    show "file_inv content ok vb sbno p sbi info s3"
      by (rule file_inv_elsewhere(1) [OF inv2 q]) (simp_all only: v2 loc(4,5) not_False_eq_True)
    show "file_block (unat (fs_block_size s)) (view content s3) (i_block info) c =
        file_block (unat (fs_block_size s)) (view content s) (i_block info) c"
      if "c < max_blocks (unat (fs_block_size s) div 4)" for c
      using file_inv_elsewhere(2) [OF inv2 q, of c] that by (simp only: v2 loc(4,5) not_False_eq_True)
    show "view content s3 = (view content s)(ucast tb := b)" "calm (slots s) (slots s3)"
      using quietD(2,3) [OF q] by simp_all
    show "inodes s3 = (inodes s)(p \<mapsto> y\<lparr>i_dirty := False\<rparr>)" "fs_block_size s3 = fs_block_size s"
      using e(2,4) by simp_all
  qed (rule s3(2))
qed

text \<open>What \<open>ext2_dir_add_entry\<close> promises.\<close>

end

definition dir_added :: "('d \<Rightarrow> u64 \<Rightarrow> blk) \<Rightarrow> ('d \<Rightarrow> bool) \<Rightarrow> (u64 \<Rightarrow> bool) \<Rightarrow> u64 \<Rightarrow> u64 \<Rightarrow> u64 \<Rightarrow> u8 list \<Rightarrow> u32 \<Rightarrow>
    nat list list \<Rightarrow> sb_info \<Rightarrow> inode_info \<Rightarrow> 'd fs_state \<Rightarrow> i32 \<Rightarrow> nat list list \<Rightarrow> sb_info \<Rightarrow> inode_info \<Rightarrow> inode \<Rightarrow> 'd fs_state \<Rightarrow> bool" where
  "dir_added content ok vb sbno dir tb name ino pss sbi info s r pss' sbi' info' x' s' \<longleftrightarrow>
     (let bs = unat (fs_block_size s); V = view content s; V' = view content s' in
      file_inv content ok vb sbno dir sbi' info' s' \<and> calm (slots s) (slots s') \<and> fs_block_size s' = fs_block_size s \<and>
      inodes s' = (inodes s)(dir \<mapsto> x') \<and> unat (i_size x') = length pss' * bs \<and> dir_inv bs V' (i_block info') pss' \<and>
      (\<forall>b. b \<notin> meta_blocks (fs_block_size s) V sbno sbi \<longrightarrow> b \<notin> own content sbno sbi info s \<longrightarrow> b \<noteq> tb \<longrightarrow> V' b = V b) \<and>
      (r = 0 \<and> dir_names bs V' (i_block info') pss' = (dir_names bs V (i_block info) pss)(name \<mapsto> ino) \<or>
       r = - 1 \<and> dir_names bs V' (i_block info') pss' = dir_names bs V (i_block info) pss \<and>
       (free_blocks V' sbno sbi' = {} \<or> length pss = max_blocks (bs div 4))))"

context block_device
begin

lemma dir_add_entry_run:
  fixes s :: "'d fs_state"
  defines "bs \<equiv> unat (fs_block_size s)" and "V \<equiv> view content s"
  assumes inv: "file_inv content ok vb sbno dir sbi info s" "room 2 (slots s)" and d: "dir_inv bs V (i_block info) pss"
    and x: "dir \<noteq> 0" "inodes s dir = Some x" "i_valid x"
    and sz: "unat (i_size x) = length pss * bs" "unat (i_size x) + bs < 2 ^ 32" "bs mod 4 = 0" "8 + length name \<le> bs"
    and loc: "ext2_inode_loc (i_ino x) s = Inr ((tb, ioff), s)" "vb (ucast tb)" "unat ioff + 100 \<le> BLKSZ"
      "ucast tb \<notin> meta_blocks (fs_block_size s) V sbno sbi" "ucast tb \<notin> own content sbno sbi info s"
    and name: "length name < 256" "ino \<noteq> 0" "dir_names bs V (i_block info) pss name = None"
  shows "\<exists>r pss' sbi' info' x' s'. ext2_dir_add_entry D dir name ino ft s = Inr (r, s') \<and>
    dir_added content ok vb sbno dir (ucast tb) name ino pss sbi info s r pss' sbi' info' x' s'"
proof -
  note f = file_invD [OF inv(1)]
  have bz: "0 < bs" "bs \<le> BLKSZ" "fs_block_size s \<noteq> 0"
    using f(9,10) by (auto simp: bs_def)
  have nb: "unat (dir_nblocks (i_size x) (fs_block_size s)) = length pss"
    by (rule dir_nblocks_exact) (use sz bz in \<open>simp_all add: bs_def\<close>)
  obtain res buf s1 sbi1 info1 pss1 where
    l: "add_entry_loop D dir name ino ft (de_size (of_nat (length name))) [0..<length pss] (\<lambda>_. 0) s = Inr ((res, buf), s1)"
      "evolved content ok vb sbno dir sbi info s sbi1 info1 s1" "length pss1 = length pss"
      "dir_inv bs (view content s1) (i_block info1) pss1"
      "case res of None \<Rightarrow> sbi1 = sbi \<and> info1 = info \<and> quietly s V s1
       | Some r \<Rightarrow> r = 0 \<and> dir_names bs (view content s1) (i_block info1) pss1 = (dir_names bs V (i_block info) pss)(name \<mapsto> ino) \<or>
         r = - 1 \<and> dir_names bs (view content s1) (i_block info1) pss1 = dir_names bs V (i_block info) pss \<and>
         free_blocks (view content s1) sbno sbi1 = {}"
    using add_entry_loop_run [OF inv d [unfolded bs_def V_def] name [unfolded bs_def V_def] quiet_refl [OF f(6)], of 0 ft "\<lambda>_. 0"]
    unfolding bs_def V_def by blast
  note e = evolvedD [OF l(2)]
  obtain dd where x1: "inodes s1 = (inodes s)(dir \<mapsto> x\<lparr>i_dirty := dd\<rparr>)"
    using keptD(1) [OF e(6) x(2)] by blast
  show ?thesis
  proof (cases res)
    case (Some r)
    have "ext2_dir_add_entry D dir name ino ft s = Inr (r, s1)"
      using x(2) nb l(1) Some bz
      by (simp add: ext2_dir_add_entry_def bindK_run get_inode_def needK_run assertK_True Let_def bs_def)
    moreover have "dir_added content ok vb sbno dir (ucast tb) name ino pss sbi info s r pss1 sbi1 info1 (x\<lparr>i_dirty := dd\<rparr>) s1"
      using e(1-3) x1 l(3,4,5) sz(1) confinedD [OF e(5)] Some
      unfolding dir_added_def Let_def bs_def [symmetric] V_def [symmetric] by simp blast
    ultimately show ?thesis
      by blast
  next
    case None
    then have q: "quietly s V s1" and same: "sbi1 = sbi" "info1 = info"
      using l(5) by simp_all
    let ?new = "de_store 0 ino (ucast (fs_block_size s)) (of_nat (length name)) ft name (bzero 0 bs buf)"
    let ?m = "length pss" and ?n = "dir_nblocks (i_size x) (fs_block_size s)"
    have run: "ext2_dir_add_entry D dir name ino ft s = bindK (ext2_write_block D dir ?n ?new) (\<lambda>r.
        if sint r < 0 then retK (- 1)
        else bindK (get_inode dir) (\<lambda>x. thenK (put_inode dir (x\<lparr>i_size := i_size x + fs_block_size s, i_dirty := True\<rparr>))
          (bindK (ext2_write_inode D dir) (\<lambda>_. retK 0)))) s1"
      using x(2) nb l(1) None bz sz(4)
      by (simp add: ext2_dir_add_entry_def bindK_run get_inode_def needK_run assertK_True Let_def bs_def)
    have failed: ?thesis if w: "ext2_write_block D dir ?n ?new s1 = Inr (- 1, s2)"
        "evolved content ok vb sbno dir sbi info s sbi2 info2 s2"
        "free_blocks (view content s2) sbno sbi2 = {} \<or> ?m = max_blocks (bs div 4)"
        "\<And>c. c < ?m \<Longrightarrow> file_block bs (view content s2) (i_block info2) c = file_block bs V (i_block info) c" for s2 sbi2 info2
    proof -
      note e2 = evolvedD [OF w(2)]
      obtain d2 where x2: "inodes s2 = (inodes s)(dir \<mapsto> x\<lparr>i_dirty := d2\<rparr>)"
        using keptD(1) [OF e2(6) x(2)] by blast
      have "ext2_dir_add_entry D dir name ino ft s = Inr (- 1, s2)"
        using run w(1) by (simp add: bindK_run)
      moreover have "dir_added content ok vb sbno dir (ucast tb) name ino pss sbi info s (- 1) pss sbi2 info2 (x\<lparr>i_dirty := d2\<rparr>) s2"
        using e2(1-3) x2 w(3) sz(1) confinedD [OF e2(5)] dir_blocks_same [OF d w(4)]
        unfolding dir_added_def Let_def bs_def [symmetric] V_def [symmetric] by simp
      ultimately show ?thesis
        by blast
    qed
    have mm: "?m \<le> max_blocks (bs div 4)"
      using d by (simp add: dir_inv_def)
    show ?thesis
    proof (cases "?m < max_blocks (bs div 4)")
      case False
      have g: "evolved content ok vb sbno dir sbi info s sbi info s1"
        using l(2) same by simp
      have "room 2 (slots s1)"
        using inv(2) quiet_room [OF q] by simp
      from write_block_run [OF evolvedD(1) [OF g] this, of ?n ?new] obtain r s2 sbi2 info2 where
        w: "ext2_write_block D dir ?n ?new s1 = Inr (r, s2)" "wrote content ok vb sbno dir ?m ?new sbi info s1 r s2 sbi2 info2"
        unfolding nb by blast
      have bs1: "unat (fs_block_size s1) = bs"
        using e(2) by (simp add: bs_def)
      have "r = - 1"
        using w(2) False unfolding wrote_def Let_def bs1 by blast
      moreover have "file_block bs (view content s2) (i_block info2) c = file_block bs V (i_block info) c" if "c < ?m" for c
        using w(2) that mm unfolding wrote_def Let_def bs1 quietD(2) [OF q] by simp
      ultimately show ?thesis
        using w(1) evolved_trans [OF g evolved_wrote [OF w(2)]] False mm by (intro failed [of s2 sbi2 info2]) simp_all
    next
      case True
      have "(of_nat (unat ?n) :: u32) = ?n"
        by simp
      then have n: "?n = of_nat ?m"
        unfolding nb by simp
      obtain r s2 sbi2 info2 where w: "ext2_write_block D dir (of_nat ?m) ?new s1 = Inr (r, s2)"
          "evolved content ok vb sbno dir sbi info s sbi2 info2 s2"
          "r = 0 \<and> file_block bs (view content s2) (i_block info2) ?m = (\<lambda>i. if i < bs then ?new i else 0) \<or>
            r = - 1 \<and> free_blocks (view content s2) sbno sbi2 = {}"
          "\<And>c. c < max_blocks (bs div 4) \<Longrightarrow> c \<noteq> ?m \<or> r \<noteq> 0 \<Longrightarrow>
            file_block bs (view content s2) (i_block info2) c = file_block bs V (i_block info) c"
        by (rule write_dir_block [OF inv q [unfolded V_def] True [unfolded bs_def], of ?new, folded bs_def V_def])
          (rule that; assumption)
      from w(3) show ?thesis
      proof (elim disjE conjE)
        assume r: "r = - 1" "free_blocks (view content s2) sbno sbi2 = {}"
        show ?thesis
          using w(1,2,4) r mm by (intro failed [of s2 sbi2 info2]) (simp_all add: n)
      next
        assume r: "r = 0" and new: "file_block bs (view content s2) (i_block info2) ?m = (\<lambda>i. if i < bs then ?new i else 0)"
        note e2 = evolvedD [OF w(2)] and c2 = confinedD [OF evolvedD(5) [OF w(2)]]
        obtain d2 where x2: "inodes s2 = (inodes s)(dir \<mapsto> x\<lparr>i_dirty := d2\<rparr>)"
          using keptD(1) [OF e2(6) x(2)] by blast
        let ?y = "x\<lparr>i_dirty := d2, i_size := i_size x + fs_block_size s, i_dirty := True\<rparr>"
        have x2p: "inodes s2 dir = Some (x\<lparr>i_dirty := d2\<rparr>)"
          by (simp add: x2)
        have y: "i_fs_private ?y = i_fs_private (x\<lparr>i_dirty := d2\<rparr>)" "i_valid ?y"
          using x(3) by simp_all
        have loc2: "ext2_inode_loc (i_ino ?y) s2 = Inr ((tb, ioff), s2)"
          by (rule inode_loc_layout [OF _ _ _ e2(4,2)])
            (use loc(1) f(7) file_invD(7) [OF e2(1)] in \<open>simp_all add: mounted_def\<close>)
        have tb2: "ucast tb \<notin> meta_blocks (fs_block_size s2) (view content s2) sbno sbi2" "ucast tb \<notin> own content sbno sbi2 info2 s2"
          using c2(1,2) loc(4,5) by (auto simp: V_def)
        obtain b s3 where s3: "thenK (put_inode dir ?y) (bindK (ext2_write_inode D dir) (\<lambda>_. retK (0 :: i32))) s2 = retK 0 s3"
            "file_inv content ok vb sbno dir sbi2 info2 s3" "view content s3 = (view content s2)(ucast tb := b)"
            "inode_at b (unat ioff) ?y info2" "inodes s3 = (inodes s2)(dir \<mapsto> ?y\<lparr>i_dirty := False\<rparr>)"
            "fs_block_size s3 = fs_block_size s2" "calm (slots s2) (slots s3)"
            "\<And>c. c < max_blocks (unat (fs_block_size s2) div 4) \<Longrightarrow>
              file_block (unat (fs_block_size s2)) (view content s3) (i_block info2) c =
              file_block (unat (fs_block_size s2)) (view content s2) (i_block info2) c"
          by (rule store_inode_run [OF e2(1) x(1) x2p y loc2 loc(2,3) tb2, where k = "retK 0"]) (rule that; assumption)
        have "ext2_dir_add_entry D dir name ino ft s = Inr (0, s3)"
          using run w(1) r s3(1) x2p unfolding n by (simp add: bindK_run get_inode_def needK_run)
        moreover have "dir_added content ok vb sbno dir (ucast tb) name ino pss sbi info s 0 (pss @ [[0]]) sbi2 info2
            (?y\<lparr>i_dirty := False\<rparr>) s3"
        proof -
          have "ucast (fs_block_size s) = (of_nat bs :: u16)"
            by (simp add: bs_def)
          note fresh = fresh_block_ok [OF name(1) sz(4) bz(2) sz(3) name(2), of ft "bzero 0 bs buf", folded this]
          have blk: "dir_ok (file_block bs (view content s2) (i_block info2) ?m) bs [0]"
              "dir_map (file_block bs (view content s2) (i_block info2) ?m) [0] = [name \<mapsto> ino]"
            using dir_ok_bytes [OF fresh(1), of "file_block bs (view content s2) (i_block info2) ?m"] fresh(2) by (simp_all add: new)
          have old: "file_block bs (view content s2) (i_block info2) c = file_block bs V (i_block info) c" if "c < ?m" for c
            using w(4) that mm by simp
          note add = dir_block_added [OF d True blk old name(3)]
          have "file_block bs (view content s3) (i_block info2) c = file_block bs (view content s2) (i_block info2) c"
            if "c < length (pss @ [[0]])" for c
            using s3(8) that True e2(2) by (simp add: bs_def)
          note add3 = dir_blocks_same [OF add(1) this]
          have "unat (i_size x + fs_block_size s) = (?m + 1) * bs"
            using sz(1,2) by (simp add: unat_word_ariths bs_def)
          then show ?thesis
            using s3(2,5,6) e2(2) calm_trans [OF e2(3) s3(7)] add3 add(2) c2(3) x2
            unfolding dir_added_def Let_def bs_def [symmetric] V_def [symmetric] by (simp add: s3(3))
        qed
        ultimately show ?thesis
          by blast
      qed
    qed
  qed
qed

end

section \<open>Removing an entry\<close>

text \<open>What \<open>ext2_unlink\<close> does with the inode once the entry is gone.\<close>

definition drop_link :: "'d blkdev \<Rightarrow> u32 \<Rightarrow> ('d fs_state, i32) kop" where
  "drop_link D ino =
     bindK (ext2_iget D ino) (\<lambda>victim.
     if victim = 0 then retK 0
     else
     bindK (get_inode victim) (\<lambda>x.
     thenK (put_inode victim (x\<lparr>i_nlinks := (if 0 < i_nlinks x then i_nlinks x - 1 else i_nlinks x), i_dirty := True\<rparr>))
    (bindK (ext2_write_inode D victim) (\<lambda>_.
     thenK (iput D victim)
    (retK 0)))))"

definition dir_removed :: "'d blkdev \<Rightarrow> ('d \<Rightarrow> u64 \<Rightarrow> blk) \<Rightarrow> ('d \<Rightarrow> bool) \<Rightarrow> (u64 \<Rightarrow> bool) \<Rightarrow> u64 \<Rightarrow> u64 \<Rightarrow> u8 list \<Rightarrow>
    nat list list \<Rightarrow> sb_info \<Rightarrow> inode_info \<Rightarrow> 'd fs_state \<Rightarrow> (i32 \<times> 'd fs_state) res \<Rightarrow>
    nat list list \<Rightarrow> sb_info \<Rightarrow> inode_info \<Rightarrow> 'd fs_state \<Rightarrow> bool" where
  "dir_removed D content ok vb sbno dir name pss sbi info s res pss' sbi' info' s' \<longleftrightarrow>
     (let bs = unat (fs_block_size s); V = view content s; V' = view content s' in
      evolved content ok vb sbno dir sbi info s sbi' info' s' \<and> dir_inv bs V' (i_block info') pss' \<and> length pss' = length pss \<and>
      (case dir_names bs V (i_block info) pss name of
         None \<Rightarrow> res = Inr (- 1, s') \<and> V' = V
       | Some ino \<Rightarrow>
           res = drop_link D ino s' \<and> dir_names bs V' (i_block info') pss' = (dir_names bs V (i_block info) pss)(name := None) \<or>
           res = Inr (- 1, s') \<and> dir_names bs V' (i_block info') pss' = dir_names bs V (i_block info) pss \<and>
           free_blocks V' sbno sbi' = {}))"

lemma dir_others_None:
  assumes "dir_inv bs V ib pss" and "k < length pss" and "block_names bs V ib pss k name = Some ino" and "b < length pss" and "b \<noteq> k"
  shows "block_names bs V ib pss b name = None"
proof -
  have "dom (block_names bs V ib pss b) \<inter> dom (block_names bs V ib pss k) = {}"
    using assms(1,2,4,5) unfolding dir_inv_def by (metis inf_commute nat_neq_iff)
  then show ?thesis
    using assms(3) by (auto simp: domIff disjoint_iff)
qed

context block_device
begin

lemma unlink_loop_run:
  fixes s0 :: "'d fs_state"
  defines "bs \<equiv> unat (fs_block_size s0)" and "V \<equiv> view content s0"
  assumes inv: "file_inv content ok vb sbno dir sbi info s0" "room 2 (slots s0)" and d: "dir_inv bs V (i_block info) pss"
    and name: "length name < 256" and q: "quietly s0 V s"
    and k: "k \<le> length pss" "\<forall>b < k. block_names bs V (i_block info) pss b name = None"
  shows "\<exists>pss' sbi' info' s'. dir_removed D content ok vb sbno dir name pss sbi info s0
    (unlink_loop D dir name [k..<length pss] buf s) pss' sbi' info' s'"
  using q k
proof (induction "length pss - k" arbitrary: k s buf)
  case 0
  then have "dir_names bs V (i_block info) pss name = None" "k = length pss"
    by (simp_all add: dir_names_def joined_None)
  then show ?case
    using evolved_grown [OF quiet_grown [OF inv(1) 0(2) [unfolded V_def]]] d quietD(2) [OF 0(2)]
    by (intro exI [of _ pss] exI [of _ sbi] exI [of _ info] exI [of _ s]) (simp add: dir_removed_def Let_def bs_def V_def)
next
  case (Suc n)
  then have k: "k < length pss" "n = length pss - Suc k"
    by auto
  let ?buf = "with_block bs V (i_block info) k buf"
  note f = file_invD [OF inv(1)]
  obtain s1 where s1: "ext2_read_block D dir (of_nat k) buf s = Inr ((0, ?buf), s1)" "quietly s0 V s1"
    by (rule read_dir_block [OF inv(1) d [unfolded bs_def V_def] Suc.prems(1) [unfolded V_def] k(1), of buf, folded bs_def V_def])
  have bs: "unat (fs_block_size s1) = bs" and bl: "bs \<le> BLKSZ"
    using fs_more(2) [OF quietD(4) [OF s1(2)]] f(10) by (simp_all add: bs_def)
  note wb = dir_with_block [OF d k(1), of buf]
  from scan_hit [OF wb(1) bl name] obtain hit where
    hit: "dir_scan bs ?buf bs name 0 None = Inr hit"
      "block_names bs V (i_block info) pss k name = map_option (\<lambda>(p, prev). de_inode ?buf p) hit"
    unfolding wb(2) by metis
  show ?case
  proof (cases hit)
    case None
    then have "\<forall>b < Suc k. block_names bs V (i_block info) pss b name = None"
      using hit(2) Suc.prems(3) by (auto simp: less_Suc_eq)
    moreover have "unlink_loop D dir name [k..<length pss] buf s = unlink_loop D dir name [Suc k..<length pss] ?buf s1"
      using s1(1) hit(1) bs None by (simp add: upt_conv_Cons [OF k(1)] bindK_run liftK_run)
    ultimately show ?thesis
      using Suc.hyps(1) [OF k(2) s1(2)] k(1) by simp
  next
    case (Some h)
    obtain p prev where h: "hit = Some (p, prev)"
      using Some by (cases h) auto
    let ?new = "remove_entry p prev ?buf" and ?ino = "de_inode ?buf p"
    have ino: "block_names bs V (i_block info) pss k name = Some ?ino"
      using hit(2) h by simp
    have names: "dir_names bs V (i_block info) pss name = Some ?ino"
      unfolding dir_names_def by (rule joined_first [where d = "block_names bs V (i_block info) pss", OF k(1) Suc.prems(3) ino])
    obtain ps' where ps': "dir_ok ?new bs ps'" "dir_map ?new ps' = (block_names bs V (i_block info) pss k)(name := None)"
      using remove_hit [OF wb(1) bl name, of p prev] hit(1) h unfolding wb(2) by blast
    have km: "k < max_blocks (bs div 4)" and lm: "length pss \<le> max_blocks (bs div 4)"
      using k(1) d by (simp_all add: dir_inv_def)
    obtain r s' sbi' info' where w: "ext2_write_block D dir (of_nat k) ?new s1 = Inr (r, s')"
        "evolved content ok vb sbno dir sbi info s0 sbi' info' s'"
        "r = 0 \<and> file_block bs (view content s') (i_block info') k = (\<lambda>i. if i < bs then ?new i else 0) \<or>
          r = - 1 \<and> free_blocks (view content s') sbno sbi' = {}"
        "\<And>c. c < max_blocks (bs div 4) \<Longrightarrow> c \<noteq> k \<or> r \<noteq> 0 \<Longrightarrow>
          file_block bs (view content s') (i_block info') c = file_block bs V (i_block info) c"
      by (rule write_dir_block [OF inv s1(2) [unfolded V_def] km [unfolded bs_def], of ?new, folded bs_def V_def])
        (rule that; assumption)
    have run: "unlink_loop D dir name [k..<length pss] buf s = (if sint r < 0 then Inr (- 1, s') else drop_link D ?ino s')"
      using s1(1) hit(1) bs h w(1) by (simp add: upt_conv_Cons [OF k(1)] bindK_run liftK_run drop_link_def)
    from w(3) show ?thesis
    proof (elim disjE conjE)
      assume r: "r = 0" and new: "file_block bs (view content s') (i_block info') k = (\<lambda>i. if i < bs then ?new i else 0)"
      have "dir_ok (file_block bs (view content s') (i_block info') k) bs ps'"
        "dir_map (file_block bs (view content s') (i_block info') k) ps' = (block_names bs V (i_block info) pss k)(name := None)"
        using dir_ok_bytes [OF ps'(1), of "file_block bs (view content s') (i_block info') k"] ps'(2) by (simp_all add: new)
      from dir_block_changed [OF d k(1) this] w(4) dir_others_None [OF d k(1) ino] lm
      have "dir_inv bs (view content s') (i_block info') (pss[k := ps'])"
        "dir_names bs (view content s') (i_block info') (pss[k := ps']) = (dir_names bs V (i_block info) pss)(name := None)"
        by simp_all
      then show ?thesis
        using run w(2) r names by (intro exI [of _ "pss[k := ps']"] exI [of _ sbi'] exI [of _ info'] exI [of _ s'])
          (simp add: dir_removed_def Let_def bs_def [symmetric] V_def [symmetric])
    next
      assume r: "r = - 1" and fb: "free_blocks (view content s') sbno sbi' = {}"
      have "file_block bs (view content s') (i_block info') b = file_block bs V (i_block info) b" if "b < length pss" for b
        using w(4) that lm r by simp
      from dir_blocks_same [OF d this] show ?thesis
        using run w(2) r fb names by (intro exI [of _ pss] exI [of _ sbi'] exI [of _ info'] exI [of _ s'])
          (simp add: dir_removed_def Let_def bs_def [symmetric] V_def [symmetric])
    qed
  qed
qed

lemma unlink_run:
  assumes inv: "file_inv content ok vb sbno dir sbi info s" "room 2 (slots s)"
    and d: "dir_inv (unat (fs_block_size s)) (view content s) (i_block info) pss"
    and x: "dir \<noteq> 0" "inodes s dir = Some x"
    and sz: "unat (i_size x) = length pss * unat (fs_block_size s)" "unat (i_size x) + unat (fs_block_size s) < 2 ^ 32"
    and name: "name \<noteq> []" "length name < 256"
  shows "\<exists>pss' sbi' info' s'. dir_removed D content ok vb sbno dir name pss sbi info s (ext2_unlink D dir name s) pss' sbi' info' s'"
proof -
  note f = file_invD [OF inv(1)]
  have nz: "0 < unat (fs_block_size s)" "fs_block_size s \<noteq> 0"
    using f(9) by auto
  have "unat (dir_nblocks (i_size x) (fs_block_size s)) = length pss"
    by (rule dir_nblocks_exact [OF sz nz(1)])
  then have "ext2_unlink D dir name s = unlink_loop D dir name [0..<length pss] (\<lambda>_. 0) s"
    using x name(1) nz(2) by (simp add: ext2_unlink_def bindK_run get_inode_def needK_run assertK_True)
  then show ?thesis
    using unlink_loop_run [OF inv d name(2) quiet_refl [OF f(6)], of 0 "\<lambda>_. 0"] by simp
qed

end

section \<open>Properties\<close>

text \<open>
  C6: looking a name up in a directory. If no block of the directory holds the name,
  \<open>ext2_lookup\<close> returns 0; otherwise it fetches the inode the directory maps the name to. The
  search always ends and changes nothing the file system sees.
\<close>

theorem ext2_lookup_correct:
  assumes "block_device D content ok vb" and "file_inv content ok vb sbno dir sbi info s"
    and "dir_inv (unat (fs_block_size s)) (view content s) (i_block info) pss"
    and "dir \<noteq> 0" "inodes s dir = Some x" "i_type x = INODE_DIR"
    and "unat (i_size x) = length pss * unat (fs_block_size s)" "unat (i_size x) + unat (fs_block_size s) < 2 ^ 32"
    and "name \<noteq> []" "length name < 256"
  shows "\<exists>s'. ext2_lookup D dir name s =
      (case dir_names (unat (fs_block_size s)) (view content s) (i_block info) pss name of
         None \<Rightarrow> Inr (0, s') | Some ino \<Rightarrow> ext2_iget D ino s') \<and> quiet content ok vb s (view content s) s'"
  by (rule block_device.lookup_run [OF assms])

text \<open>
  C4: adding a name to a directory. For a name the directory does not have,
  \<open>ext2_dir_add_entry\<close> returns 0 and the directory, in one of its blocks or with a new block, is
  the old map with the new name, or it returns -1 with the names as they were, because no block
  is free or the directory has the largest size. The directory stays well-formed, its size is
  that of its blocks, and only blocks of the allocator, of the directory, free ones and the one
  with the inode change.
\<close>

theorem ext2_dir_add_entry_correct:
  assumes "block_device D content ok vb" and "file_inv content ok vb sbno dir sbi info s" "room 2 (slots s)"
    and "dir_inv (unat (fs_block_size s)) (view content s) (i_block info) pss"
    and "dir \<noteq> 0" "inodes s dir = Some x" "i_valid x"
    and "unat (i_size x) = length pss * unat (fs_block_size s)" "unat (i_size x) + unat (fs_block_size s) < 2 ^ 32"
      "unat (fs_block_size s) mod 4 = 0" "8 + length name \<le> unat (fs_block_size s)"
    and "ext2_inode_loc (i_ino x) s = Inr ((tb, ioff), s)" "vb (ucast tb)" "unat ioff + 100 \<le> BLKSZ"
      "ucast tb \<notin> meta_blocks (fs_block_size s) (view content s) sbno sbi" "ucast tb \<notin> own content sbno sbi info s"
    and "length name < 256" "ino \<noteq> 0" "dir_names (unat (fs_block_size s)) (view content s) (i_block info) pss name = None"
  shows "\<exists>r pss' sbi' info' x' s'. ext2_dir_add_entry D dir name ino ft s = Inr (r, s') \<and>
    dir_added content ok vb sbno dir (ucast tb) name ino pss sbi info s r pss' sbi' info' x' s'"
  by (rule block_device.dir_add_entry_run [OF assms])

text \<open>
  C5: removing a name from a directory. For a name the directory does not have \<open>ext2_unlink\<close>
  returns -1 and changes nothing; otherwise it takes exactly that name out of the directory and
  goes on to drop a link of the inode the name stood for, or returns -1 with the names as they
  were.
\<close>

theorem ext2_unlink_correct:
  assumes "block_device D content ok vb" and "file_inv content ok vb sbno dir sbi info s" "room 2 (slots s)"
    and "dir_inv (unat (fs_block_size s)) (view content s) (i_block info) pss"
    and "dir \<noteq> 0" "inodes s dir = Some x"
    and "unat (i_size x) = length pss * unat (fs_block_size s)" "unat (i_size x) + unat (fs_block_size s) < 2 ^ 32"
    and "name \<noteq> []" "length name < 256"
  shows "\<exists>pss' sbi' info' s'. dir_removed D content ok vb sbno dir name pss sbi info s (ext2_unlink D dir name s) pss' sbi' info' s'"
  by (rule block_device.unlink_run [OF assms])

text \<open>The small volume with a directory that has one block, with one entry \<open>a\<close> for inode 5.\<close>

definition dir_block :: blk where
  "dir_block = de_store 0 5 (of_nat 4096) (of_nat (length [0x61 :: u8])) 1 [0x61] (\<lambda>_. 0)"

definition dir_inode :: inode where
  "dir_inode = open_inode\<lparr>i_type := INODE_DIR, i_size := 4096\<rparr>"

definition small_dir :: "(u64 \<Rightarrow> blk) fs_state" where
  "small_dir = small_file\<lparr>dst := (dst small_file)(9 := dir_block), inodes := (inodes small_file)(0x1000 \<mapsto> dir_inode)\<rparr>"

lemma small_dir_simps:
  "fs_block_size small_dir = 4096" "slots small_dir = slots small_fs" "inodes small_dir 0x1000 = Some dir_inode"
  "fs_private small_dir = Some small_sbi" "dst small_dir = small_disk(9 := dir_block)" "infos small_dir 0x2000 = Some small_info"
  by (simp_all add: small_dir_def small_file_def) (simp_all add: small_fs_def)

lemma small_dir_view: "view ram_content small_dir = (view ram_content small_fs)(9 := nb dir_block)"
proof
  fix no
  have "slot_of (slots small_fs) no = (if no = 0 then Some 0 else None)"
    by (simp add: slot_of_def find_upt_Some find_upt_None small_slots NBLKNUM_def)
  then show "view ram_content small_dir no = ((view ram_content small_fs)(9 := nb dir_block)) no"
    by (simp add: view_def small_dir_simps small_slots) (simp add: small_fs_def)
qed

lemma small_dir_bc: "bc_inv ram_content (\<lambda>_. True) (\<lambda>_. True) small_dir"
  unfolding bc_inv_def small_dir_simps
  by (auto simp: slots_inv_def small_slots NBLKNUM_def split: if_splits) (simp_all add: small_fs_def small_disk_def)

lemma small_dir_quiet:
  "quiet ram_content (\<lambda>_. True) (\<lambda>_. True) (small_file\<lparr>inodes := (inodes small_file)(0x1000 \<mapsto> dir_inode)\<rparr>)
    ((view ram_content small_fs)(9 := nb dir_block)) small_dir"
  unfolding quiet_def
  by (intro conjI small_dir_bc small_dir_view) (simp_all add: small_dir_def small_file_def small_fs_def)

lemma small_dir_inv: "file_inv ram_content (\<lambda>_. True) (\<lambda>_. True) 0 0x1000 small_sbi small_info small_dir"
    and small_dir_free: "free_blocks (view ram_content small_dir) 0 small_sbi = {5, 6}"
    and small_dir_meta: "meta_blocks 4096 (view ram_content small_dir) 0 small_sbi = {0, 1, 2}"
proof -
  let ?s = "small_file\<lparr>inodes := (inodes small_file)(0x1000 \<mapsto> dir_inode)\<rparr>"
  have v: "view ram_content ?s = view ram_content small_fs" and bs: "fs_block_size ?s = 4096"
    by (simp_all add: small_file_def) (simp add: small_fs_def)
  have inv: "file_inv ram_content (\<lambda>_. True) (\<lambda>_. True) 0 0x1000 small_sbi small_info ?s"
    by (rule file_inv_inode [OF small_file_inv], simp add: small_file_def, simp add: dir_inode_def open_inode_def)
  note f = file_invD [OF inv]
  have m: "meta_blocks 4096 (view ram_content small_fs) 0 small_sbi = {0, 1, 2}"
    by (auto simp: meta_blocks_def small_fields)
  have q: "quiet ram_content (\<lambda>_. True) (\<lambda>_. True) ?s ((view ram_content small_fs)(9 := nb dir_block)) small_dir"
    by (rule small_dir_quiet)
  have keep: "((view ram_content small_fs)(9 := nb dir_block)) x = view ram_content ?s x"
    if "x \<in> meta_blocks (fs_block_size ?s) (view ram_content ?s) 0 small_sbi" for x
    using that unfolding v bs m by auto
  have a: "free_blocks ((view ram_content small_fs)(9 := nb dir_block)) 0 small_sbi = free_blocks (view ram_content ?s) 0 small_sbi"
      "meta_blocks (fs_block_size ?s) ((view ram_content small_fs)(9 := nb dir_block)) 0 small_sbi =
        meta_blocks (fs_block_size ?s) (view ram_content ?s) 0 small_sbi"
    by (rule alloc_inv_quiet [OF f(1) q keep]; assumption)+
  show "free_blocks (view ram_content small_dir) 0 small_sbi = {5, 6}"
      "meta_blocks 4096 (view ram_content small_dir) 0 small_sbi = {0, 1, 2}"
    using a unfolding small_dir_view v bs m small_free by simp_all
  note e = fs_more [OF quietD(4) [OF q]]
  have room: "room 1 (slots small_dir)"
    using f(8) quiet_room [OF q] by simp
  show "file_inv ram_content (\<lambda>_. True) (\<lambda>_. True) 0 0x1000 small_sbi small_info small_dir"
  proof (rule file_inv_same [OF inv small_dir_bc mounted_quiet [OF q f(7)] room e(2,4,5)])
    show "view ram_content small_dir x = view ram_content ?s x"
      if "x \<in> meta_blocks (fs_block_size ?s) (view ram_content ?s) 0 small_sbi" for x
      unfolding small_dir_view by (rule keep [OF that])
    show "blkref (view ram_content small_dir) (i_block small_info) K = blkref (view ram_content ?s) (i_block small_info) K"
      if "valid_key (unat (fs_block_size ?s) div 4) K" for K
      by (simp add: small_blkref [OF that])
  qed
qed

lemma small_dir_names:
  "dir_inv 4096 (view ram_content small_dir) (i_block small_info) [[0]]"
  "dir_names 4096 (view ram_content small_dir) (i_block small_info) [[0]] = [[0x61] \<mapsto> 5]"
proof -
  have b: "file_block 4096 (view ram_content small_dir) (i_block small_info) 0 = (\<lambda>i. if i < 4096 then dir_block i else 0)"
    by (simp add: file_block_def data_key_def small_info_def small_dir_view Let_def fun_eq_iff)
      (simp add: nb_def BLKSZ_def)
  have f: "dir_ok dir_block 4096 [0]" "dir_map dir_block [0] = [[0x61] \<mapsto> 5]"
    unfolding dir_block_def by (rule fresh_block_ok; simp add: BLKSZ_def)+
  have o: "dir_ok (\<lambda>i. if i < 4096 then dir_block i else 0) 4096 [0]"
    "dir_map (\<lambda>i. if i < 4096 then dir_block i else 0) [0] = [[0x61] \<mapsto> 5]"
    using dir_ok_bytes [OF f(1), of "\<lambda>i. if i < 4096 then dir_block i else 0"] f(2) by simp_all
  show "dir_inv 4096 (view ram_content small_dir) (i_block small_info) [[0]]"
    using o(1) by (simp add: dir_inv_def max_blocks_def b)
  show "dir_names 4096 (view ram_content small_dir) (i_block small_info) [[0]] = [[0x61] \<mapsto> 5]"
    using o(2) by (simp add: dir_names_def block_names_def b)
qed

lemma ext2_lookup_correct_witness:
  "\<exists>s'. ext2_lookup ram_disk 0x1000 [0x61] small_dir = ext2_iget ram_disk 5 s'"
  using ext2_lookup_correct [OF ram_disk small_dir_inv, of "[[0]]" dir_inode "[0x61]"] small_dir_names
  by (auto simp: small_dir_simps dir_inode_def)

lemma small_dir_loc: "ext2_inode_loc (i_ino dir_inode) small_dir = Inr ((4, 1408), small_dir)"
  by (simp add: ext2_inode_loc_def bindK_run get_sbi_def needK_run small_dir_simps dir_inode_def open_inode_def assertK_True)
    (simp add: small_sbi_def small_desc_def Let_def assertK_True small_dir_simps)

lemma small_dir_elsewhere:
  "4 \<notin> meta_blocks (fs_block_size small_dir) (view ram_content small_dir) 0 small_sbi"
  "4 \<notin> own ram_content 0 small_sbi small_info small_dir"
proof -
  show "4 \<notin> meta_blocks (fs_block_size small_dir) (view ram_content small_dir) 0 small_sbi"
    by (simp add: small_dir_simps small_dir_meta)
  have "(4 :: u64) \<noteq> ucast no" if "unat (no :: u32) \<in> {5, 6}" for no
    using small_free_no [OF that] by auto
  then show "4 \<notin> own ram_content 0 small_sbi small_info small_dir"
    by (auto simp: own_def small_dir_simps small_dir_free small_blkref split: if_splits)
qed

lemma small_dir_room: "room 2 (slots small_dir)"
  using small_file_room by (simp add: small_dir_simps small_file_def)

lemma ext2_dir_add_entry_correct_witness:
  "\<exists>r pss' sbi' info' x' s'. ext2_dir_add_entry ram_disk 0x1000 [0x62] 7 1 small_dir = Inr (r, s') \<and>
    dir_added ram_content (\<lambda>_. True) (\<lambda>_. True) 0 0x1000 4 [0x62] 7 [[0]] small_sbi small_info small_dir r pss' sbi' info' x' s'"
  using ext2_dir_add_entry_correct [OF ram_disk small_dir_inv small_dir_room, of "[[0]]" dir_inode "[0x62]" 4 1408 7 1]
    small_dir_names small_dir_loc small_dir_elsewhere
  by (simp add: small_dir_simps) (simp add: dir_inode_def open_inode_def BLKSZ_def)

lemma ext2_unlink_correct_witness:
  "\<exists>pss' sbi' info' s'. dir_removed ram_disk ram_content (\<lambda>_. True) (\<lambda>_. True) 0 0x1000 [0x61] [[0]] small_sbi small_info small_dir
    (ext2_unlink ram_disk 0x1000 [0x61] small_dir) pss' sbi' info' s'"
  using ext2_unlink_correct [OF ram_disk small_dir_inv small_dir_room, of "[[0]]" dir_inode "[0x61]"] small_dir_names
  by (simp add: small_dir_simps) (simp add: dir_inode_def)

end
