(* ===== verification/InodeIO.thy ===== *)
theory InodeIO
  imports FileIO
begin

text \<open>
  Inodes between disk and memory: what \<open>ext2_read_inode\<close> makes of the bytes in the inode table,
  and that it restores what \<open>ext2_write_inode\<close> stored.
\<close>

definition mode_type :: "u16 \<Rightarrow> inode_type" where
  "mode_type m = (if S_ISDIR m then INODE_DIR else if S_ISREG m then INODE_FILE
     else if S_ISLNK m then INODE_SYNLINK else INODE_FILE)"

text \<open>
  A typed inode: the type is that of the mode, the fields that have 16 bits on disk fit, and the
  block map has 15 entries.
\<close>

definition inode_typed :: "inode \<Rightarrow> inode_info \<Rightarrow> bool" where
  "inode_typed x info \<longleftrightarrow> length (i_block info) = EXT2_N_BLOCKS \<and> i_type x = mode_type (ucast (i_mode x)) \<and>
     unat (i_mode x) < 65536 \<and> unat (i_uid x) < 65536 \<and> unat (i_gid x) < 65536 \<and> unat (i_nlinks x) < 65536"

lemma u16_u32: "unat (ucast (w :: u16) :: u32) < 65536" "(ucast (ucast (w :: u16) :: u32) :: u16) = w"
proof -
  have w: "unat w < 65536"
    by (rule less_le_trans [OF unsigned_less]) simp
  then have "unat w < 4294967296"
    by linarith
  then have u: "unat (ucast w :: u32) = unat w"
    by (simp add: unsigned_ucast_eq take_bit_nat_eq_self)
  then show "unat (ucast w :: u32) < 65536"
    using w by simp
  show "(ucast (ucast w :: u32) :: u16) = w"
    by (rule bit_word_eqI) (simp add: bit_simps)
qed

lemma u32_u16: "unat (v :: u32) < 65536 \<Longrightarrow> (ucast (ucast v :: u16) :: u32) = v"
  by (intro word_eq_unatI) (simp add: unsigned_ucast_eq unsigned_take_bit_eq take_bit_nat_eq_self)

lemma load_typed: "inode_typed (inode_load b off x) (info_load b off)"
  by (simp add: inode_typed_def inode_load_def info_load_def mode_type_def u16_u32)

lemma load_at: "inode_at b off (inode_load b off x) (info_load b off)"
  by (simp add: inode_at_def inode_load_def u16_u32)

text \<open>The bytes of a typed inode determine it.\<close>

lemma load_stored:
  assumes "inode_at b off x info" and "inode_typed x info"
  shows "inode_load b off z = z\<lparr>i_mode := i_mode x, i_uid := i_uid x, i_gid := i_gid x, i_size := i_size x,
    i_nlinks := i_nlinks x, i_type := i_type x\<rparr>" "info_load b off = info"
  using assms u32_u16 by (simp_all add: inode_load_def inode_at_def inode_typed_def mode_type_def)

lemma load_nb:
  assumes "off + 100 \<le> BLKSZ"
  shows "inode_load (nb b) off x = inode_load b off x" "info_load (nb b) off = info_load b off"
  using assms by (simp_all add: inode_load_def info_load_def rd16_nb rd32_nb EXT2_N_BLOCKS_def)

context block_device
begin

lemma read_inode_run:
  assumes inv: "inv s" "room (Suc 0) (slots s)" and x: "inodes s p = Some x" "\<not> i_valid x"
    and loc: "ext2_inode_loc (i_ino x) s = Inr ((tb, off), s)" "vb (ucast tb)" "unat off + 100 \<le> BLKSZ"
  obtains s' where "ext2_read_inode D p s = Inr (0, s')"
    "inodes s' = (inodes s)(p \<mapsto> (inode_load (view content s (ucast tb)) (unat off) x)\<lparr>i_valid := True\<rparr>)"
    "infos s' = (infos s)(i_fs_private x \<mapsto> info_load (view content s (ucast tb)) (unat off))"
    "inv s'" "view content s' = view content s" "calm (slots s) (slots s')"
proof -
  obtain c s1 where r: "bread D (ucast tb) s = Inr (c, s1)" "inv s1" "view content s1 = view content s"
      "pin c (slots s) (slots s1)" "bvalid (slots s1 ! c)" "blk_no (slots s1 ! c) = ucast tb"
      "nb (bdata (slots s1 ! c)) = view content s (ucast tb)" "bc_state.more s1 = bc_state.more s"
    using bread_pin [OF inv(1) loc(2) inv(2)] by metis
  note e = fs_more [OF r(8)]
  let ?b = "view content s (ucast tb)"
  let ?s2 = "s1\<lparr>infos := (infos s1)(i_fs_private x \<mapsto> info_load ?b (unat off)),
      inodes := (inodes s1)(p \<mapsto> (inode_load ?b (unat off) x)\<lparr>i_valid := True\<rparr>)\<rparr>"
  have ld: "inode_load (bdata (slots s1 ! c)) (unat off) x = inode_load ?b (unat off) x"
      "info_load (bdata (slots s1 ! c)) (unat off) = info_load ?b (unat off)"
    using load_nb [OF loc(3), of "bdata (slots s1 ! c)"] unfolding r(7) by simp_all
  have "inv ?s2" "pin c (slots s) (slots ?s2)" "bvalid (slots ?s2 ! c)"
    using r(2,4,5) by simp_all
  from brelse_pin [OF this(1,2) inv(2) this(3)] obtain s3 where
    s3: "brelse c ?s2 = Inr ((), s3)" "inv s3" "view content s3 = view content ?s2" "calm (slots s) (slots s3)"
      "bc_state.more s3 = bc_state.more ?s2"
    by metis
  have "ext2_read_inode D p s = Inr (0, s3)"
    using x loc(1,3) r(1) s3(1) ld
    by (simp add: ext2_read_inode_def bindK_run thenK_run get_inode_def put_inode_def put_info_def needK_run assertK_True bget_def)
  then show thesis
    using s3(2-4) fs_more(4,5) [OF s3(5)] e r(3) by (intro that) simp_all
qed

end

section \<open>Properties\<close>

text \<open>
  C13: loading an inode. \<open>ext2_read_inode\<close> of an inode object that is not valid yet makes it valid
  and typed, with the fields of the inode table; it always succeeds and changes no block.
\<close>

theorem ext2_read_inode_typed:
  assumes D: "block_device D content ok vb" and inv: "bc_inv content ok vb s" "room 1 (slots s)"
    and x: "inodes s p = Some x" "\<not> i_valid x"
    and loc: "ext2_inode_loc (i_ino x) s = Inr ((tb, off), s)" "vb (ucast tb)" "unat off + 100 \<le> BLKSZ"
  shows "\<exists>s' x' info'. ext2_read_inode D p s = Inr (0, s') \<and> view content s' = view content s \<and>
    inodes s' = (inodes s)(p \<mapsto> x') \<and> infos s' = (infos s)(i_fs_private x \<mapsto> info') \<and> i_valid x' \<and>
    inode_typed x' info' \<and> inode_at (view content s (ucast tb)) (unat off) x' info'"
proof -
  let ?b = "view content s (ucast tb)"
  have room: "room (Suc 0) (slots s)"
    using inv(2) by simp
  obtain s' where s': "ext2_read_inode D p s = Inr (0, s')"
      "inodes s' = (inodes s)(p \<mapsto> (inode_load ?b (unat off) x)\<lparr>i_valid := True\<rparr>)"
      "infos s' = (infos s)(i_fs_private x \<mapsto> info_load ?b (unat off))" "view content s' = view content s"
    by (rule block_device.read_inode_run [OF D inv(1) room x loc]) (rule that; assumption)
  have "inode_typed ((inode_load ?b (unat off) x)\<lparr>i_valid := True\<rparr>) (info_load ?b (unat off))"
    using load_typed [of ?b "unat off" x] by (simp add: inode_typed_def)
  moreover have "inode_at ?b (unat off) ((inode_load ?b (unat off) x)\<lparr>i_valid := True\<rparr>) (info_load ?b (unat off))"
    using load_at [of ?b "unat off" x] by (simp add: inode_at_def)
  ultimately show ?thesis
    using s' by (intro exI conjI) (assumption | simp)+
qed

text \<open>
  C12: storing and loading an inode. After \<open>ext2_write_inode\<close> of a typed inode,
  \<open>ext2_read_inode\<close> into another object for the same inode number gives that object all the
  fields and the block map of the first.
\<close>

theorem inode_roundtrip:
  assumes D: "block_device D content ok vb" and inv: "bc_inv content ok vb s" "room 1 (slots s)" "mounted s sbi sbno"
    and x: "p \<noteq> 0" "inodes s p = Some x" "i_valid x" "infos s (i_fs_private x) = Some info" "inode_typed x info"
    and z: "q \<noteq> p" "inodes s q = Some z" "\<not> i_valid z" "i_ino z = i_ino x"
    and loc: "ext2_inode_loc (i_ino x) s = Inr ((tb, off), s)" "vb (ucast tb)" "unat off + 100 \<le> BLKSZ"
  shows "\<exists>s1 s2. ext2_write_inode D p s = Inr (0, s1) \<and> ext2_read_inode D q s1 = Inr (0, s2) \<and>
    inodes s2 q = Some (z\<lparr>i_mode := i_mode x, i_uid := i_uid x, i_gid := i_gid x, i_size := i_size x,
      i_nlinks := i_nlinks x, i_type := i_type x, i_valid := True\<rparr>) \<and> infos s2 (i_fs_private z) = Some info"
proof -
  have room: "room (Suc 0) (slots s)" and len: "length (i_block info) = EXT2_N_BLOCKS"
    using inv(2) x(5) by (simp_all add: inode_typed_def)
  let ?s = "s\<lparr>inodes := (inodes s)(p \<mapsto> x\<lparr>i_dirty := False\<rparr>)\<rparr>"
  obtain b s1 where w: "ext2_write_inode D p s = Inr (0, s1)" "inode_at b (unat off) x info"
      "quiet content ok vb ?s ((view content s)(ucast tb := b)) s1"
    by (rule block_device.write_inode_run [OF D inv(1) room x(1-4) len loc]) (rule that; assumption)
  note e = fs_more [OF quietD(4) [OF w(3)]]
  have z1: "inodes s1 q = Some z"
    using e(4) z(1,2) by simp
  have room1: "room (Suc 0) (slots s1)"
    using room quiet_room [OF w(3)] by simp
  have loc1: "ext2_inode_loc (i_ino z) s1 = Inr ((tb, off), s1)"
    unfolding z(4) by (rule inode_loc_layout [OF loc(1) _ _ same_layout_refl]) (use inv(3) e in \<open>simp_all add: mounted_def\<close>)
  obtain s2 where r: "ext2_read_inode D q s1 = Inr (0, s2)"
      "inodes s2 = (inodes s1)(q \<mapsto> (inode_load (view content s1 (ucast tb)) (unat off) z)\<lparr>i_valid := True\<rparr>)"
      "infos s2 = (infos s1)(i_fs_private z \<mapsto> info_load (view content s1 (ucast tb)) (unat off))"
    by (rule block_device.read_inode_run [OF D quietD(1) [OF w(3)] room1 z1 z(3) loc1 loc(2,3)]) (rule that; assumption)
  have "view content s1 (ucast tb) = b"
    using quietD(2) [OF w(3)] by simp
  then show ?thesis
    using w(1) r load_stored(1) [OF w(2) x(5), where z = z] load_stored(2) [OF w(2) x(5)] by simp
qed

text \<open>The small volume with a second inode object, not yet loaded, for the inode of the open file.\<close>

definition two_objects :: "(u64 \<Rightarrow> blk) fs_state" where
  "two_objects = open_file\<lparr>inodes := (inodes open_file)(0x4000 \<mapsto> fresh_inode 12 0x5000)\<rparr>"

lemma two_objects_simps:
  "inodes two_objects 0x1000 = Some open_inode" "inodes two_objects 0x4000 = Some (fresh_inode 12 0x5000)"
  "infos two_objects 0x2000 = Some small_info" "fs_private two_objects = Some small_sbi" "fs_block_size two_objects = 4096"
  by (simp_all add: two_objects_def open_file_simps) (simp_all add: open_file_def small_file_def)

lemma two_objects_inv:
  "bc_inv ram_content (\<lambda>_. True) (\<lambda>_. True) two_objects" "room 1 (slots two_objects)" "mounted two_objects small_sbi 0"
  using file_invD(6-8) [OF open_file_inv] by (simp_all add: two_objects_def)

lemma two_objects_loc: "ext2_inode_loc 12 two_objects = Inr ((4, 1408), two_objects)"
  by (simp add: ext2_inode_loc_def bindK_run get_sbi_def needK_run two_objects_simps assertK_True)
    (simp add: small_sbi_def small_desc_def Let_def assertK_True two_objects_simps)

lemma ext2_read_inode_typed_witness:
  "\<exists>s' x' info'. ext2_read_inode ram_disk 0x4000 two_objects = Inr (0, s') \<and> i_valid x' \<and> inode_typed x' info' \<and>
    inodes s' 0x4000 = Some x' \<and> infos s' 0x5000 = Some info'"
proof -
  have "ext2_inode_loc (i_ino (fresh_inode 12 0x5000)) two_objects = Inr ((4, 1408), two_objects)"
    by (simp add: fresh_inode_def two_objects_loc)
  from ext2_read_inode_typed [OF ram_disk two_objects_inv(1,2) two_objects_simps(2) _ this] obtain s' x' info' where
    "ext2_read_inode ram_disk 0x4000 two_objects = Inr (0, s')" "inodes s' = (inodes two_objects)(0x4000 \<mapsto> x')"
    "infos s' = (infos two_objects)(0x5000 \<mapsto> info')" "i_valid x'" "inode_typed x' info'"
    by (auto simp: fresh_inode_def BLKSZ_def)
  then show ?thesis
    by auto
qed

lemma inode_roundtrip_witness:
  "\<exists>s1 s2 y. ext2_write_inode ram_disk 0x1000 two_objects = Inr (0, s1) \<and> ext2_read_inode ram_disk 0x4000 s1 = Inr (0, s2) \<and>
    inodes s2 0x4000 = Some y \<and> i_size y = 8 \<and> i_mode y = 0x81A4 \<and> infos s2 0x5000 = Some small_info"
proof -
  have "inode_typed open_inode small_info"
    by (simp add: inode_typed_def open_inode_def small_info_def EXT2_N_BLOCKS_def mode_type_def S_ISDIR_def S_ISREG_def)
  then show ?thesis
    using inode_roundtrip [OF ram_disk two_objects_inv _ two_objects_simps(1) _ _ _ _ two_objects_simps(2), of small_info 4 1408]
      two_objects_loc two_objects_simps(3)
    by (auto simp: open_inode_def fresh_inode_def BLKSZ_def)
qed

end
