(* ===== verification/Spec2Isabelle.thy ===== *)
theory Spec2Isabelle
  imports CString Virtio Console Trap PageTable Sched DirFile InodeIO
begin

text \<open>
  A verification development for cuteCore, a small RISC-V kernel in C.

  The program and its theories, from the bottom up:

  \<^item> \<open>Prelude\<close>, \<open>Kop\<close>: the C integer types as words; the results of operations. A panic
    is \<open>Inl (Panic message)\<close>, an access the C program must not make is \<open>Inl (Fault where)\<close>, a
    loop that does not end is \<open>Inl Diverge\<close>. \<open>Kop\<close> passes the state through a sequence of
    operations; \<open>bindK\<close> and \<open>thenK\<close> are the semicolon of C.
  \<^item> \<open>CMem\<close>, \<open>CString\<close>: byte-addressed memory and \<open>lib/string.c\<close>.
  \<^item> \<open>Kalloc\<close>, \<open>Slab\<close>, \<open>Kmalloc\<close>: \<open>mm/kalloc.c\<close>, \<open>mm/slab.c\<close>, \<open>mm/kmalloc.c\<close>. The free list of
    pages, the headers of slabs and caches and the lists of free objects lie in the memory
    where the code keeps them. The state is the record \<open>pmem\<close>. What clients of the page
    allocator rely on is the locale \<open>page_allocator\<close>, interpreted on \<open>kalloc\<close> and \<open>kfree\<close>.
  \<^item> \<open>Vm\<close>, \<open>PageTable\<close>: \<open>mm/vm.c\<close>, Sv39 page tables in the same memory, and the abstract page
    table they implement: a partial map from pages to leaf entries (\<open>lookup\<close>), for tables that
    form a tree (\<open>pt_wf\<close>). \<open>vmmap\<close> extends the map by exactly the requested pages and succeeds
    while there are frames; \<open>uvmcreate\<close> makes the empty map; \<open>uvmmapkernel\<close> makes a table with
    the translations of the kernel's. That the second-level tables are then shared is the
    subject of two theorems: mapping the same page for two processes panics, and so does the
    release of any process table once \<open>kvmmake\<close> has built the kernel's (\<open>kernel_table\<close>).
    \<open>copyout\<close> returns for every length.
  \<^item> \<open>BlkCache\<close>, \<open>Virtio\<close>: \<open>block/blk_cache.c\<close> and \<open>driver/virtio_mmio.c\<close>. The cache works on any
    driver that meets the locale \<open>block_device\<close>. The driver is modelled down to the descriptor
    chain; the device behind it is a parameter whose documented behaviour, as long as it reports
    no I/O error, is the locale \<open>virtio_device\<close>. The buffers of all slots have one address
    in the model of the DMA memory: a request ends before the next one begins, so a buffer has
    to be there only during its own requests. A sublocale shows that the driver on such a device is a \<open>block_device\<close>,
    and a concrete device that it can exist. What the file system sees of a block is the
    abstraction: \<open>bread\<close> returns it and \<open>bsync\<close> makes the device agree with it.
  \<^item> \<open>Uart\<close>, \<open>Console\<close>: \<open>driver/uart.c\<close> on a parameter for the registers, and the formatted
    output of \<open>kernel/console.c\<close>: the digits printed for a number read back to the number,
    they fit their buffer, and the result of \<open>vprintf\<close> is the number of characters it sent. The
    format is the list of the bytes of its array with the NUL and what lies behind it, since a
    format that ends in a length modifier is read beyond its NUL.
  \<^item> \<open>Ext2Def\<close>, \<open>Balloc\<close>, \<open>Inode\<close>, \<open>Dir\<close>, \<open>Super\<close>: \<open>fs/ext2\<close>. Disk structures are fields of
    block buffers at their offsets; the superblock is the buffer of a pinned cache slot, so
    that its aliasing with the cache is kept. Inodes, their private data and open files are
    records in a heap, under the addresses the kernel's own allocator returned.
  \<^item> \<open>DirBlock\<close>: a directory block as a list of entries that tile it (\<open>chain\<close>) and as the
    finite map from names to inode numbers it stands for. Lookup, insertion, removal and the
    initial block of \<open>mkdir\<close> are shown to be the operations of that map.
  \<^item> \<open>DirFile\<close>: a directory as a file of such blocks (\<open>dir_inv\<close>) and its map (\<open>dir_names\<close>).
    \<open>ext2_lookup\<close> reads the map, \<open>ext2_dir_add_entry\<close> extends it and \<open>ext2_unlink\<close> takes a name
    out of it, for directories of any number of blocks. \<open>drop_link\<close> is a copy of the end of
    \<open>ext2_unlink\<close>, used to state what the code does after the name is gone. \<open>dir_scan\<close> takes a
    comparison of names that would cross the end of the buffer for a fault, where \<open>memcmp\<close> may
    stop before.
  \<^item> \<open>InodeIO\<close>: \<open>ext2_read_inode\<close> yields typed inodes (\<open>inode_typed\<close>), and restores what
    \<open>ext2_write_inode\<close> stored.
  \<^item> \<open>DiskView\<close>: the ways the file system uses the cache, as functions on the blocks it sees
    (\<open>view\<close>): reading a block, changing a block, and changing a block while another buffer stays
    pinned. \<open>room\<close> counts the slots that are not in use; \<open>calm\<close> and \<open>quiet\<close> say that a step gives
    back the slots it took and leaves the rest of the state alone.
  \<^item> \<open>FreeMap\<close>: the set of free blocks that the bitmaps of all groups stand for
    (\<open>free_blocks\<close>), and the invariant \<open>alloc_inv\<close> that bitmaps, group descriptors on disk and in
    memory and the counts in the superblock agree. \<open>ext2_alloc_block\<close> removes a block from the
    set, and fails only if the set is empty; \<open>ext2_free_block\<close> inserts one.
  \<^item> \<open>FileMap\<close>, \<open>FileWrite\<close>: the blocks of a file. A position (\<open>bkey\<close>) is a path through the index
    blocks, \<open>blkref\<close> the block number found there and \<open>file_block\<close> the contents of a logical
    block, zeros for a hole. \<open>file_inv\<close> says that no block is used twice, is free, or belongs to
    the metadata. \<open>ext2_read_block\<close> returns \<open>file_block\<close>; \<open>ext2_write_block\<close> changes it for the
    block written and for no other, whatever index blocks it allocates, keeps \<open>file_inv\<close>, and
    fails only out of range or when no block is free.
    No block changes but the allocator's, free ones and the file's own (\<open>confined\<close>).
  \<^item> \<open>FileRange\<close>, \<open>FileIO\<close>: a file as a function from positions to bytes (\<open>file_byte\<close>).
    \<open>fileread\<close> and \<open>filewrite\<close>, through \<open>readi\<close> and \<open>writei\<close> and the loops of \<open>fs/ext2/dir.c\<close>,
    read and replace a range of it (\<open>stored\<close>); after a complete write the inode in the inode
    table agrees with the one in memory (\<open>inode_at\<close>).
  \<^item> \<open>Vfs\<close>, \<open>VFile\<close>: \<open>fs/vfs.c\<close> (with \<open>iput\<close> in \<open>Inode\<close>, since \<open>fs/ext2/dir.c\<close> calls it) and
    \<open>fs/file.c\<close>.
  \<^item> \<open>Proc\<close>, \<open>Syscall\<close>, \<open>Exec\<close>, \<open>Trap\<close>: \<open>kernel/task\<close>, \<open>kernel/syscall\<close>, \<open>kernel/trap\<close> and
    \<open>kernel/main.c\<close>, on the state \<open>kstate\<close> that contains all the others. The process
    identifiers of \<open>Proc\<close> are a bit set: \<open>allocpid\<close> returns an unused one, or fails when there
    is none. Identifiers outside the bitmap are not written: \<open>freeproc\<close> faults on them, and the
    loop of \<open>allocpid\<close> never reaches them. A process object that is not in use keeps its
    contents in \<open>old_procs\<close>, and a new process starts with them; the link word the slab allocator
    keeps in a free object lies in the field \<open>state\<close>, which is set first.
  \<^item> \<open>Sched\<close>: the scheduler as a step relation over the ready list. Between its steps other
    code runs, which may do anything that leaves the cache coherent, the current process of the
    hart alone and the list longer at its end only (\<open>appends\<close>); traps with their system calls and \<open>kexec\<close> are shown to be such
    code (\<open>usertrap_appends\<close>, \<open>kexec_appends\<close>). Processes run in the order in which they became
    ready, and every iteration on a free hart ends with the device up to date.

  Pointers are 64-bit addresses; 0 is the null pointer. A C function that returns through an
  output parameter returns a pair. A local buffer that is not initialised starts as zeros
  where nothing depends on its contents. \<open>bread\<close> never returns a null pointer (it panics), so
  the null checks of its callers are dead code and have no branch in the model.

  Fuel: \<open>freerange\<close> frees at most the 32768 frames of the RAM; \<open>slabinit\<close> links at most 4056
  objects; the loops over pages and directory entries are given as many iterations as pages
  or bytes there are; a recursion through page tables is at most as deep as there are
  frames. Polling loops on hardware and scans for a terminating zero are partial functions,
  and not ending is \<open>Diverge\<close>.

  Not modelled: assembly (entry, context switch, trap vector), the SBI call, log output, and
  concurrency, since the kernel runs on one hart with interrupts off in the modelled code.
\<close>

end
